(* ===== verification/Prelude.thy ===== *)
theory Prelude
  imports Main "HOL-Library.Word"
begin

text \<open>
  The vocabulary and the generic lemmas shared by every component theory: the machine
  integer types of the C++ sources, the error-or-value results that stand for exceptions
  (a value of a sum type, \<open>Inl\<close> for the exception), the run of a state machine
  over a list of events, and lemmas on words, lists and sums that the component proofs
  use through the collections \<open>result_simps\<close> and \<open>word_order\<close>.
\<close>

named_theorems result_simps \<open>inversion of results built with bind_result\<close>
named_theorems word_order \<open>order facts on machine words\<close>

type_synonym u8 = "8 word"
type_synonym u16 = "16 word"
type_synonym u32 = "32 word"
type_synonym u64 = "64 word"

text \<open>The largest value of an unsigned type, \<open>std::numeric_limits<T>::max()\<close>.\<close>

abbreviation u64_max :: u64 where
  "u64_max \<equiv> - 1"

abbreviation u32_max :: u32 where
  "u32_max \<equiv> - 1"

section \<open>Results\<close>

text \<open>Sequencing of statements that may throw: the first exception ends the sequence.\<close>

fun bind_result :: "'e + 'a \<Rightarrow> ('a \<Rightarrow> 'e + 'b) \<Rightarrow> 'e + 'b" where
  "bind_result (Inl e) f = Inl e"
| "bind_result (Inr x) f = f x"

fun is_ok :: "'e + 'a \<Rightarrow> bool" where
  "is_ok (Inl e) = False"
| "is_ok (Inr x) = True"

text \<open>What holds of the value, when there is one.\<close>

definition returns :: "('a \<Rightarrow> bool) \<Rightarrow> 'e + 'a \<Rightarrow> bool" where
  "returns P r \<longleftrightarrow> (\<forall>x. r = Inr x \<longrightarrow> P x)"

text \<open>A value, and it has the property.\<close>

definition completes :: "('a \<Rightarrow> bool) \<Rightarrow> 'e + 'a \<Rightarrow> bool" where
  "completes P r \<longleftrightarrow> (case r of Inl e \<Rightarrow> False | Inr x \<Rightarrow> P x)"

text \<open>A machine run over a list of events; it stops at the first exception.\<close>

fun run_events :: "('s \<Rightarrow> 'v \<Rightarrow> 'e + 's) \<Rightarrow> 's \<Rightarrow> 'v list \<Rightarrow> 'e + 's" where
  "run_events step s [] = Inr s"
| "run_events step s (v # vs) = bind_result (step s v) (\<lambda>s'. run_events step s' vs)"

lemma bind_result_Inr [result_simps]:
  "bind_result m f = Inr y \<longleftrightarrow> (\<exists>x. m = Inr x \<and> f x = Inr y)"
  by (cases m) auto

lemma bind_result_Inl [result_simps]:
  "bind_result m f = Inl e \<longleftrightarrow> m = Inl e \<or> (\<exists>x. m = Inr x \<and> f x = Inl e)"
  by (cases m) auto

lemma bind_result_cong [fundef_cong]:
  "m = m' \<Longrightarrow> (\<And>x. m' = Inr x \<Longrightarrow> f x = f' x) \<Longrightarrow> bind_result m f = bind_result m' f'"
  by (cases m') auto

lemma bind_result_assoc: "bind_result (bind_result m f) g = bind_result m (\<lambda>x. bind_result (f x) g)"
  by (cases m) simp_all

lemma is_ok_iff: "is_ok m \<longleftrightarrow> (\<exists>x. m = Inr x)"
  by (cases m) auto

lemma returns_simps [simp]: "returns P (Inl e)" "returns P (Inr x) \<longleftrightarrow> P x"
  by (simp_all add: returns_def)

lemma returns_bind: "returns (\<lambda>x. returns P (f x)) m \<Longrightarrow> returns P (bind_result m f)"
  by (cases m) simp_all

lemma returns_then: "(\<And>x. returns P (f x)) \<Longrightarrow> returns P (bind_result m f)"
  by (cases m) simp_all

lemma returns_if: "(b \<Longrightarrow> returns P x) \<Longrightarrow> (\<not> b \<Longrightarrow> returns P y) \<Longrightarrow> returns P (if b then x else y)"
  by simp

lemma returnsD: "returns P r \<Longrightarrow> r = Inr x \<Longrightarrow> P x"
  by (simp add: returns_def)

lemma returns_mono: "returns P r \<Longrightarrow> (\<And>x. P x \<Longrightarrow> Q x) \<Longrightarrow> returns Q r"
  by (simp add: returns_def)

lemma completes_simps [simp]: "\<not> completes P (Inl e)" "completes P (Inr x) \<longleftrightarrow> P x"
  by (simp_all add: completes_def)

lemma completes_bind: "completes Q m \<Longrightarrow> (\<And>x. Q x \<Longrightarrow> completes P (f x)) \<Longrightarrow> completes P (bind_result m f)"
  by (cases m) simp_all

lemma completes_mono: "completes P r \<Longrightarrow> (\<And>x. P x \<Longrightarrow> Q x) \<Longrightarrow> completes Q r"
  by (cases r) simp_all

lemma run_events_append:
  "run_events step s (us @ vs) = bind_result (run_events step s us) (\<lambda>s'. run_events step s' vs)"
proof (induction us arbitrary: s)
  case Nil
  then show ?case by simp
next
  case (Cons u us)
  then show ?case by (cases "step s u") simp_all
qed

text \<open>An invariant kept by every step that returns holds after every run that returns.\<close>

lemma run_events_invariant:
  assumes "\<And>s v s'. P s \<Longrightarrow> step s v = Inr s' \<Longrightarrow> P s'"
    and "P s" and "run_events step s vs = Inr s'"
  shows "P s'"
  using assms(2,3)
proof (induction vs arbitrary: s)
  case Nil
  then show ?case by simp
next
  case (Cons v vs)
  then show ?case by (auto simp: result_simps intro: assms(1))
qed

section \<open>Words\<close>

lemma word_max_le_iff [word_order]: "max a b \<le> c \<longleftrightarrow> a \<le> c \<and> b \<le> (c :: 'a::len word)"
  by simp

lemma unat_bound: "unat (w :: 'a::len word) < 2 ^ LENGTH('a)"
  by (rule unsigned_less)

lemma unat_of_nat_small: "n < 2 ^ LENGTH('a) \<Longrightarrow> unat (of_nat n :: 'a::len word) = n"
  by (simp add: unat_of_nat)

lemma unat_max: "unat (- 1 :: 'a::len word) = 2 ^ LENGTH('a) - 1"
  by (simp add: unsigned_minus_1_eq_mask mask_eq_exp_minus_1)

lemma max_minus_less_iff:
  fixes n v :: "'a::len word"
  shows "- 1 - n < v \<longleftrightarrow> 2 ^ LENGTH('a) \<le> unat v + unat n"
proof -
  have "unat (- 1 - n) = 2 ^ LENGTH('a) - 1 - unat n"
    by (simp add: unat_sub unat_max)
  then show ?thesis
    unfolding word_less_nat_alt using unat_bound [of v] unat_bound [of n] by linarith
qed

lemma unat_add_no_overflow:
  fixes a b :: "'a::len word"
  assumes "unat a + unat b < 2 ^ LENGTH('a)"
  shows "unat (a + b) = unat a + unat b"
  using assms by (simp add: unat_add_lem)

lemma unat_sub_no_underflow:
  fixes a b :: "'a::len word"
  assumes "b \<le> a"
  shows "unat (a - b) = unat a - unat b"
  using assms by (simp add: unat_sub)

lemma unat_mult_no_overflow:
  fixes a b :: "'a::len word"
  assumes "unat a * unat b < 2 ^ LENGTH('a)"
  shows "unat (a * b) = unat a * unat b"
  using assms by (simp add: unat_mult_lem)

end
