(* ===== verification/Binary_Float.thy ===== *)
theory Binary_Float
  imports Complex_Main Prelude "HOL-Library.Log_Nat"
begin

text \<open>
  The arithmetic of \<open>float\<close> and \<open>double\<close> that the congestion controllers use.
  A finite binary floating-point number is the rational it denotes, and every C++
  operation is the exact operation followed by \<open>fl p\<close>, the rounding to \<open>p\<close>
  significant bits, to nearest with ties to even (\<open>p = 24\<close> for \<open>float\<close>, 53 for
  \<open>double\<close>, each operation rounded on its own as SSE2 code does). The exponent is
  unbounded: every intermediate value of the modelled code lies well inside the normal
  range of its type, except where the code divides by zero, which the model keeps
  apart. Conversions of a floating-point value to an integer truncate, and are
  undefined behaviour when the truncated value does not fit: \<open>None\<close>.
\<close>

section \<open>Definitions\<close>

text \<open>The binary exponent: \<open>2 powi rexp x \<le> \<bar>x\<bar> < 2 powi (rexp x + 1)\<close>.\<close>

definition rexp :: "rat \<Rightarrow> int" where
  "rexp x =
     (let (n, d) = quotient_of \<bar>x\<bar>; k = bitlen n - bitlen d
      in if 2 powi k \<le> \<bar>x\<bar> then k else k - 1)"

definition round_even :: "rat \<Rightarrow> int" where
  "round_even x =
     (let f = \<lfloor>x\<rfloor>; r = x - of_int f
      in if r < 1 / 2 then f else if r > 1 / 2 then f + 1
         else if even f then f else f + 1)"

definition fl :: "nat \<Rightarrow> rat \<Rightarrow> rat" where
  "fl p x =
     (if x = 0 then 0
      else let u = 2 powi (rexp x - int p + 1) in of_int (round_even (x / u)) * u)"

abbreviation fl32 :: "rat \<Rightarrow> rat" where
  "fl32 \<equiv> fl 24"

abbreviation fl64 :: "rat \<Rightarrow> rat" where
  "fl64 \<equiv> fl 53"

text \<open>Truncating conversions to an unsigned type of \<open>w\<close> bits.\<close>

definition to_unsigned :: "nat \<Rightarrow> rat \<Rightarrow> nat option" where
  "to_unsigned w x = (if - 1 < x \<and> x < 2 ^ w then Some (nat \<lfloor>x\<rfloor>) else None)"

definition to_u64 :: "rat \<Rightarrow> u64 option" where
  "to_u64 x = map_option of_nat (to_unsigned 64 x)"

definition to_u32 :: "rat \<Rightarrow> u32 option" where
  "to_u32 x = map_option of_nat (to_unsigned 32 x)"

abbreviation of_u64 :: "u64 \<Rightarrow> rat" where
  "of_u64 x \<equiv> of_nat (unat x)"

abbreviation of_u32 :: "u32 \<Rightarrow> rat" where
  "of_u32 x \<equiv> of_nat (unat x)"

lemma unsigned_rat_nonneg [simp]: "0 \<le> (unsigned (w :: 'a::len word) :: rat)"
  by (metis of_nat_0_le_iff of_nat_unat)

section \<open>Rounding to an integer\<close>

lemma round_even_of_int [simp]: "round_even (of_int k) = k"
  by (simp add: round_even_def)

text \<open>Evaluation at a quotient of numerals.\<close>

lemma floor_numeral_quotient:
  "\<lfloor>numeral a / numeral b :: rat\<rfloor> = numeral a div numeral b"
  using floor_divide_of_int_eq [of "numeral a" "numeral b", where 'a = rat] by simp

lemmas round_even_eval = round_even_def Let_def floor_numeral_quotient

lemma round_even_bounds: "\<lfloor>x\<rfloor> \<le> round_even x \<and> round_even x \<le> \<lfloor>x\<rfloor> + 1"
  by (simp add: round_even_def Let_def)

lemma round_even_error: "\<bar>of_int (round_even x) - x\<bar> \<le> 1 / 2"
proof -
  have "of_int \<lfloor>x\<rfloor> \<le> x" and "x < of_int \<lfloor>x\<rfloor> + 1"
    by linarith+
  then show ?thesis
    unfolding round_even_def Let_def by (simp split: if_splits add: abs_le_iff)
qed

lemma round_even_mono:
  assumes "x \<le> y"
  shows "round_even x \<le> round_even y"
proof (cases "\<lfloor>x\<rfloor> = \<lfloor>y\<rfloor>")
  case True
  then show ?thesis
    using assms by (auto simp: round_even_def Let_def)
next
  case False
  with floor_mono [OF assms] have "\<lfloor>x\<rfloor> + 1 \<le> \<lfloor>y\<rfloor>" by linarith
  with round_even_bounds [of x] round_even_bounds [of y] show ?thesis by linarith
qed

lemma round_even_le_int: "x \<le> of_int k \<Longrightarrow> round_even x \<le> k"
  using round_even_mono [of x "of_int k"] by simp

lemma round_even_ge_int: "of_int k \<le> x \<Longrightarrow> k \<le> round_even x"
  using round_even_mono [of "of_int k" x] by simp

lemma round_even_minus: "round_even (- x) = - round_even x"
proof (cases "of_int \<lfloor>x\<rfloor> = x")
  case True
  then obtain k where "x = of_int k" by metis
  then show ?thesis
    using round_even_of_int [of "- k"] by (simp del: of_int_minus add: of_int_minus [symmetric])
next
  case False
  then have "of_int \<lfloor>x\<rfloor> < x" by (simp add: order.not_eq_order_implies_strict)
  moreover have "x < of_int \<lfloor>x\<rfloor> + 1" by linarith
  ultimately have "\<lfloor>- x\<rfloor> = - \<lfloor>x\<rfloor> - 1"
    by (simp add: floor_eq_iff)
  moreover from this have "even \<lfloor>- x\<rfloor> \<longleftrightarrow> odd \<lfloor>x\<rfloor>" by simp
  ultimately show ?thesis
    by (auto simp: round_even_def Let_def field_simps)
qed

section \<open>The binary exponent\<close>

lemma rexp_bounds:
  assumes "x \<noteq> 0"
  shows "2 powi rexp x \<le> \<bar>x\<bar> \<and> \<bar>x\<bar> < 2 powi (rexp x + 1)"
proof -
  obtain n d where q: "quotient_of \<bar>x\<bar> = (n, d)" by force
  have d: "d > 0" and xnd: "\<bar>x\<bar> = of_int n / of_int d"
    using quotient_of_denom_pos [OF q] quotient_of_div [OF q] by auto
  have "0 < \<bar>x\<bar>" using assms by simp
  with d have n: "n > 0" by (simp add: xnd zero_less_divide_iff)
  define N D where "N = nat (bitlen n)" and "D = nat (bitlen d)"
  have NP: "bitlen n > 0" and DP: "bitlen d > 0"
    using n d bitlen_nonneg [of n] bitlen_nonneg [of d] bitlen_eq_zero_iff [of n] bitlen_eq_zero_iff [of d]
    by linarith+
  have nb: "2 ^ (N - 1) \<le> n \<and> n < 2 ^ N" and db: "2 ^ (D - 1) \<le> d \<and> d < 2 ^ D"
    using bitlen_bounds [OF n] bitlen_bounds [OF d] NP DP by (auto simp: N_def D_def nat_diff_distrib)
  define k where "k = bitlen n - bitlen d"
  have pN: "(2 :: rat) ^ N = 2 * 2 ^ (N - 1)" and pD: "(2 :: rat) ^ D = 2 * 2 ^ (D - 1)"
    using NP DP by (simp_all add: N_def D_def flip: power_Suc)
  have r: "(2 ^ (N - 1) :: rat) \<le> of_int n" "(of_int n :: rat) < 2 ^ N"
    "(2 ^ (D - 1) :: rat) \<le> of_int d" "(of_int d :: rat) < 2 ^ D"
    using nb db by (metis of_int_le_iff of_int_less_iff of_int_numeral of_int_power)+
  have pk: "(2 :: rat) powi k = 2 ^ N / 2 ^ D"
    using NP DP by (simp add: k_def N_def D_def power_int_diff power_int_nonneg_exp)
  have dpos: "(0 :: rat) < of_int d" using d by simp
  have up: "\<bar>x\<bar> < 2 * 2 powi k"
  proof -
    have "of_int n * 2 ^ D < (2 ^ N * 2 ^ D :: rat)" using r by simp
    also have "\<dots> = 2 * 2 ^ N * 2 ^ (D - 1)" by (simp add: pD)
    also have "\<dots> \<le> 2 * 2 ^ N * of_int d" using r by simp
    finally show ?thesis using dpos by (simp add: xnd pk field_simps)
  qed
  have low: "2 powi k \<le> 2 * \<bar>x\<bar>"
  proof -
    have "2 ^ N * of_int d \<le> (2 ^ N * 2 ^ D :: rat)" using r by simp
    also have "\<dots> = 2 * 2 ^ (N - 1) * 2 ^ D" by (simp add: pN)
    also have "\<dots> \<le> 2 * of_int n * 2 ^ D" using r by simp
    finally show ?thesis using dpos by (simp add: xnd pk field_simps)
  qed
  have "rexp x = (if 2 powi k \<le> \<bar>x\<bar> then k else k - 1)"
    by (simp add: rexp_def q k_def)
  then show ?thesis
    using up low by (auto simp: power_int_add power_int_diff)
qed

lemma powi_less_iff: "(2 :: rat) powi a < 2 powi b \<longleftrightarrow> a < b"
proof
  assume "(2 :: rat) powi a < 2 powi b"
  then show "a < b"
    using power_int_increasing [of b a "2 :: rat"] by (cases "b \<le> a") auto
next
  assume "a < b"
  then show "(2 :: rat) powi a < 2 powi b"
    by (rule power_int_strict_increasing) simp
qed

lemma powi_le_iff: "(2 :: rat) powi a \<le> 2 powi b \<longleftrightarrow> a \<le> b"
  by (meson powi_less_iff not_less)

lemma rexp_unique:
  assumes "2 powi e \<le> \<bar>x\<bar>" and "\<bar>x\<bar> < 2 powi (e + 1)"
  shows "rexp x = e"
proof -
  have "(0 :: rat) < 2 powi e" by simp
  with assms have "x \<noteq> 0" by (metis abs_zero leD)
  note b = rexp_bounds [OF this]
  have "2 powi e < (2 :: rat) powi (rexp x + 1)" using assms(1) b by linarith
  moreover have "2 powi rexp x < (2 :: rat) powi (e + 1)" using assms(2) b by linarith
  ultimately have "e < rexp x + 1" and "rexp x < e + 1"
    by (simp_all only: powi_less_iff)
  then show ?thesis by linarith
qed

section \<open>The rounding to p bits\<close>

lemma fl_0 [simp]: "fl p 0 = 0"
  by (simp add: fl_def)

lemma rexp_minus [simp]: "rexp (- x) = rexp x"
  by (simp add: rexp_def)

lemma fl_minus: "fl p (- x) = - fl p x"
  using round_even_minus [of "x / 2 powi (rexp x - int p + 1)"] by (simp add: fl_def Let_def)

lemma fl_at:
  assumes "2 powi e \<le> \<bar>x\<bar>" and "\<bar>x\<bar> < 2 powi (e + 1)"
  shows "fl p x = of_int (round_even (x / 2 powi (e - int p + 1))) * 2 powi (e - int p + 1)"
proof -
  have "(0 :: rat) < 2 powi e" by simp
  with assms(1) have "x \<noteq> 0" by (metis abs_zero leD)
  with rexp_unique [OF assms] show ?thesis by (simp add: fl_def Let_def)
qed

lemma fl_scale: "fl p (x * 2 powi k) = fl p x * 2 powi k"
proof (cases "x = 0")
  case False
  note b = rexp_bounds [OF False]
  have "2 powi (rexp x + k) \<le> \<bar>x * 2 powi k\<bar>" and "\<bar>x * 2 powi k\<bar> < 2 powi (rexp x + k + 1)"
    using b by (simp_all add: abs_mult power_int_add)
  note 1 = fl_at [OF this] and 2 = fl_at [OF conjunct1 [OF b] conjunct2 [OF b]]
  have "(2 :: rat) powi (rexp x + k - int p + 1) = 2 powi (rexp x - int p + 1) * 2 powi k"
    by (simp add: power_int_add [symmetric] algebra_simps)
  then show ?thesis by (simp add: 1 2)
qed simp

lemma fl_exact:
  assumes "\<bar>m\<bar> \<le> 2 ^ p" and "0 < p"
  shows "fl p (of_int m * 2 powi k) = of_int m * 2 powi k"
proof -
  have "fl p (of_int m) = of_int m"
  proof (cases "m = 0")
    case False
    then have b: "2 powi rexp (of_int m) \<le> rat_of_int \<bar>m\<bar>" "rat_of_int \<bar>m\<bar> < 2 powi (rexp (of_int m) + 1)"
      using rexp_bounds [of "of_int m"] by auto
    define e where "e = rexp (of_int m)"
    have mp: "(of_int \<bar>m\<bar> :: rat) \<le> 2 powi int p"
      using assms(1) by (metis of_int_le_iff of_int_numeral of_int_power power_int_of_nat)
    then have "(2 :: rat) powi e \<le> 2 powi int p"
      using b(1) by (simp add: e_def)
    then have e: "e \<le> int p" by (simp only: powi_le_iff)
    have "\<exists>j. of_int m / (2 :: rat) powi (e - int p + 1) = of_int j"
    proof (cases "e = int p")
      case True
      then have "of_int \<bar>m\<bar> = (2 :: rat) ^ p" using b(1) mp by (simp add: e_def)
      then have "\<bar>m\<bar> = 2 ^ p" by (metis of_int_eq_iff of_int_numeral of_int_power)
      then have "m = 2 ^ p \<or> m = - (2 ^ p)" by linarith
      moreover obtain q where "p = Suc q" using assms(2) by (cases p) auto
      ultimately have "of_int m / (2 :: rat) = of_int (2 ^ q) \<or> of_int m / (2 :: rat) = of_int (- (2 ^ q))"
        by auto
      moreover have "e - int p + 1 = 1" using True by simp
      ultimately show ?thesis by (metis power_int_1_right)
    next
      case False
      with e have "e - int p + 1 = - int (nat (int p - e - 1))" by linarith
      then have "of_int m / (2 :: rat) powi (e - int p + 1) = of_int m * 2 powi (int (nat (int p - e - 1)))"
        by (simp only: power_int_minus divide_inverse inverse_inverse_eq)
      also have "\<dots> = of_int (m * 2 ^ nat (int p - e - 1))"
        by (simp only: power_int_of_nat of_int_mult of_int_power of_int_numeral)
      finally show ?thesis by blast
    qed
    then obtain j where j: "of_int m / (2 :: rat) powi (e - int p + 1) = of_int j" ..
    have "fl p (of_int m) = of_int j * 2 powi (e - int p + 1)"
      using False by (simp add: fl_def Let_def j flip: e_def)
    also have "\<dots> = of_int m" by (simp flip: j)
    finally show ?thesis .
  qed simp
  then show ?thesis by (simp add: fl_scale)
qed

lemma fl_of_int: "\<bar>m\<bar> \<le> 2 ^ p \<Longrightarrow> 0 < p \<Longrightarrow> fl p (of_int m) = of_int m"
  using fl_exact [of m p 0] by simp

lemma fl_powi: "0 < p \<Longrightarrow> fl p (2 powi k) = 2 powi k"
  using fl_exact [of 1 p k] by simp

lemma fl_power [simp]: "0 < p \<Longrightarrow> fl p (2 ^ k) = 2 ^ k"
  using fl_powi [of p "int k"] by simp

lemma fl_numeral: "numeral n \<le> (2 :: int) ^ p \<Longrightarrow> 0 < p \<Longrightarrow> fl p (numeral n) = numeral n"
  using fl_of_int [of "numeral n" p] by simp

lemma fl_one [simp]: "0 < p \<Longrightarrow> fl p 1 = 1"
  using fl_of_int [of 1 p] by simp

lemma fl_nonneg: "0 \<le> x \<Longrightarrow> 0 \<le> fl p x"
  by (auto simp: fl_def Let_def intro!: mult_nonneg_nonneg round_even_ge_int [of 0, simplified])

text \<open>Inside a binade the result stays between its two ends.\<close>

lemma fl_binade:
  assumes "0 < x" and "0 < p"
  shows "2 powi rexp x \<le> fl p x \<and> fl p x \<le> 2 powi (rexp x + 1)"
proof -
  define u where "u = (2 :: rat) powi (rexp x - int p + 1)"
  have u: "0 < u" by (simp add: u_def)
  have b: "2 powi rexp x \<le> x" "x < 2 powi (rexp x + 1)" using rexp_bounds [of x] assms by auto
  obtain q where q: "p = Suc q" using assms(2) by (cases p) auto
  have lo: "2 powi rexp x = of_int (2 ^ q) * u" and hi: "2 powi (rexp x + 1) = of_int (2 ^ p) * u"
    by (simp_all add: u_def q power_int_add power_int_diff field_simps)
  have "2 ^ q \<le> round_even (x / u)"
    by (rule round_even_ge_int) (use b lo u in \<open>simp add: le_divide_eq\<close>)
  moreover have "round_even (x / u) \<le> 2 ^ p"
    by (rule round_even_le_int) (use b hi u in \<open>simp add: divide_le_eq\<close>)
  ultimately have "of_int (2 ^ q) * u \<le> of_int (round_even (x / u)) * u \<and>
      of_int (round_even (x / u)) * u \<le> of_int (2 ^ p) * u"
    using u by (simp add: mult_le_cancel_right del: of_int_power of_int_numeral)
  then show ?thesis using assms(1) unfolding lo hi by (simp add: fl_def u_def Let_def)
qed

lemma fl_mono_pos:
  assumes "0 < x" and "x \<le> y" and "0 < p"
  shows "fl p x \<le> fl p y"
proof -
  have y: "0 < y" using assms by simp
  have "2 powi rexp x < (2 :: rat) powi (rexp y + 1)"
    using rexp_bounds [of x] rexp_bounds [of y] assms y by auto
  then have "rexp x \<le> rexp y" by (simp only: powi_less_iff)
  then consider "rexp x = rexp y" | "rexp x + 1 \<le> rexp y" by linarith
  then show ?thesis
  proof cases
    case 1
    have "round_even (x / 2 powi (rexp y - int p + 1)) \<le> round_even (y / 2 powi (rexp y - int p + 1))"
      by (rule round_even_mono) (use assms in \<open>simp add: divide_right_mono\<close>)
    then show ?thesis using 1 assms(1) y by (simp add: fl_def Let_def)
  next
    case 2
    then have "(2 :: rat) powi (rexp x + 1) \<le> 2 powi rexp y" by (simp only: powi_le_iff)
    then show ?thesis
      using fl_binade [OF assms(1,3)] fl_binade [OF y assms(3)] by linarith
  qed
qed

lemma fl_mono:
  assumes "x \<le> y" and "0 < p"
  shows "fl p x \<le> fl p y"
proof -
  consider "0 < x" | "x \<le> 0" "0 \<le> y" | "y < 0" by linarith
  then show ?thesis
  proof cases
    case 1
    then show ?thesis using assms by (rule fl_mono_pos)
  next
    case 2
    then have "0 \<le> fl p (- x)" and "0 \<le> fl p y" by (simp_all add: fl_nonneg)
    then show ?thesis by (simp add: fl_minus)
  next
    case 3
    then have "fl p (- y) \<le> fl p (- x)" using assms by (intro fl_mono_pos) auto
    then show ?thesis by (simp add: fl_minus)
  qed
qed

lemma fl_error:
  assumes "\<bar>x\<bar> \<le> 2 powi e" and "0 < p"
  shows "\<bar>fl p x - x\<bar> \<le> 2 powi (e - int p - 1)"
proof -
  consider "x = 0" | "\<bar>x\<bar> = 2 powi e" | "x \<noteq> 0" "\<bar>x\<bar> < 2 powi e" using assms(1) by fastforce
  then show ?thesis
  proof cases
    case 2
    then have "x = 2 powi e \<or> x = - (2 powi e)" by (metis abs_if minus_minus)
    then have "fl p x = x" using assms(2) by (auto simp: fl_powi fl_minus)
    then show ?thesis by simp
  next
    case 3
    define u where "u = (2 :: rat) powi (rexp x - int p + 1)"
    have u: "0 < u" by (simp add: u_def)
    have "2 powi rexp x < (2 :: rat) powi e" using rexp_bounds [OF 3(1)] 3(2) by linarith
    then have re: "rexp x - int p \<le> e - int p - 1" by (simp add: powi_less_iff)
    have "fl p x - x = (of_int (round_even (x / u)) - x / u) * u"
      using 3(1) u by (simp add: fl_def u_def Let_def left_diff_distrib)
    then have "\<bar>fl p x - x\<bar> = \<bar>of_int (round_even (x / u)) - x / u\<bar> * u"
      using u by (simp add: abs_mult)
    also have "\<dots> \<le> 1 / 2 * u"
      using round_even_error [of "x / u"] u by (intro mult_right_mono) auto
    also have "\<dots> = 2 powi (rexp x - int p)" by (simp add: u_def power_int_add)
    also have "\<dots> \<le> 2 powi (e - int p - 1)" using re by (simp only: powi_le_iff)
    finally show ?thesis .
  qed simp
qed

lemma fl_idem:
  assumes "0 < p"
  shows "fl p (fl p x) = fl p x"
proof (cases "x = 0")
  case False
  define u where "u = (2 :: rat) powi (rexp x - int p + 1)"
  have u: "0 < u" by (simp add: u_def)
  have "2 powi (rexp x + 1) = of_int (2 ^ p) * u"
    by (simp add: u_def power_int_add power_int_diff field_simps)
  then have "\<bar>x\<bar> < of_int (2 ^ p) * u" using rexp_bounds [OF False] by simp
  then have "x / u \<le> of_int (2 ^ p)" and "of_int (- (2 ^ p)) \<le> x / u"
    using u by (simp_all add: divide_le_eq le_divide_eq)
  then have "round_even (x / u) \<le> 2 ^ p" and "- (2 ^ p) \<le> round_even (x / u)"
    by (blast intro: round_even_le_int round_even_ge_int)+
  then have "\<bar>round_even (x / u)\<bar> \<le> 2 ^ p" by simp
  with fl_exact [OF this assms] False show ?thesis
    by (simp add: fl_def [of p x] u_def Let_def)
qed simp

section \<open>Weighted averages in single precision\<close>

text \<open>
  \<open>c * a + (1 - c) * b\<close> with every operation rounded. Between two powers of two it
  stays between them, whatever the rounding errors: the weights \<open>c\<close> and the rounded
  \<open>1 - c\<close> add up to 1 within half a unit in the last place, which the final rounding
  removes.
\<close>

definition mix32 :: "rat \<Rightarrow> rat \<Rightarrow> rat \<Rightarrow> rat" where
  "mix32 c a b = fl32 (fl32 (c * a) + fl32 (fl32 (1 - c) * b))"

lemma fl32_near_one:
  assumes "\<bar>x - 1\<bar> \<le> 1 / 2 ^ 25"
  shows "fl32 x = 1"
proof -
  have up: "fl32 (1 + 1 / 2 ^ 25) = 1"
    by (subst fl_at [where e = 0]) (simp_all add: round_even_eval power_int_minus)
  have lo: "fl32 (1 - 1 / 2 ^ 25) = 1"
    by (subst fl_at [where e = "- 1"]) (simp_all add: round_even_eval power_int_minus)
  have "1 - 1 / 2 ^ 25 \<le> x" and "x \<le> 1 + 1 / 2 ^ 25"
    using assms unfolding abs_le_iff by linarith+
  then have "fl32 (1 - 1 / 2 ^ 25) \<le> fl32 x" and "fl32 x \<le> fl32 (1 + 1 / 2 ^ 25)"
    by (blast intro: fl_mono zero_less_numeral)+
  then show ?thesis unfolding up lo by simp
qed

lemma mix32_between:
  assumes c: "0 \<le> c" "c \<le> 1" "fl32 c = c"
    and a: "2 powi j \<le> a" "a \<le> 2 powi k" and b: "2 powi j \<le> b" "b \<le> 2 powi k"
  shows "2 powi j \<le> mix32 c a b \<and> mix32 c a b \<le> 2 powi k"
proof -
  define d where "d = fl32 (1 - c)"
  have d0: "0 \<le> d" using c by (simp add: d_def fl_nonneg)
  have dd: "fl32 d = d" by (simp add: d_def fl_idem)
  have "\<bar>d - (1 - c)\<bar> \<le> 2 powi (0 - int 24 - 1)"
    unfolding d_def using c by (intro fl_error) auto
  moreover have "d - (1 - c) = (c + d) - 1" by simp
  ultimately have "\<bar>(c + d) - 1\<bar> \<le> 1 / 2 ^ 25" by (simp only: power_int_minus) simp
  then have one: "fl32 (c + d) = 1" by (rule fl32_near_one)
  have sum: "fl32 (c * 2 powi i + d * 2 powi i) = 2 powi i" for i
    using fl_scale [of 24 "c + d" i] by (simp add: one distrib_right)
  have "fl32 (c * a) \<le> fl32 (c * 2 powi k)" and "fl32 (d * b) \<le> fl32 (d * 2 powi k)"
    using a b c d0 by (auto intro!: fl_mono mult_left_mono)
  then have "fl32 (c * a) + fl32 (d * b) \<le> c * 2 powi k + d * 2 powi k"
    by (simp add: fl_scale c dd)
  then have up: "mix32 c a b \<le> 2 powi k"
    unfolding mix32_def d_def [symmetric] using sum [of k] by (metis fl_mono zero_less_numeral)
  have "fl32 (c * 2 powi j) \<le> fl32 (c * a)" and "fl32 (d * 2 powi j) \<le> fl32 (d * b)"
    using a b c d0 by (auto intro!: fl_mono mult_left_mono)
  then have "c * 2 powi j + d * 2 powi j \<le> fl32 (c * a) + fl32 (d * b)"
    by (simp add: fl_scale c dd)
  then have "2 powi j \<le> mix32 c a b"
    unfolding mix32_def d_def [symmetric] using sum [of j] by (metis fl_mono zero_less_numeral)
  with up show ?thesis by simp
qed

lemma mix32_nonneg: "0 \<le> c \<Longrightarrow> c \<le> 1 \<Longrightarrow> 0 \<le> a \<Longrightarrow> 0 \<le> b \<Longrightarrow> 0 \<le> mix32 c a b"
  unfolding mix32_def by (intro fl_nonneg add_nonneg_nonneg mult_nonneg_nonneg) auto

lemma mix32_upper:
  assumes "0 \<le> c" "c \<le> 1" "fl32 c = c" "0 \<le> a" "a \<le> 2 powi k" "0 \<le> b" "b \<le> 2 powi k"
  shows "mix32 c a b \<le> 2 powi k"
proof -
  have "mix32 c a b \<le> mix32 c (2 powi k) (2 powi k)"
    unfolding mix32_def using assms
    by (intro fl_mono add_mono mult_left_mono fl_nonneg) auto
  also have "\<dots> \<le> 2 powi k"
    using mix32_between [of c k "2 powi k" k "2 powi k"] assms by simp
  finally show ?thesis .
qed

section \<open>Conversions to integers\<close>

lemma to_unsigned_Some:
  "to_unsigned w x = Some n \<longleftrightarrow> - 1 < x \<and> x < 2 ^ w \<and> n = nat \<lfloor>x\<rfloor>"
  by (auto simp: to_unsigned_def)

lemma to_unsigned_total: "0 \<le> x \<Longrightarrow> x < 2 ^ w \<Longrightarrow> to_unsigned w x = Some (nat \<lfloor>x\<rfloor>)"
  by (simp add: to_unsigned_def)

lemma nat_floor_less: "0 \<le> (x :: rat) \<Longrightarrow> x < 2 ^ w \<Longrightarrow> nat \<lfloor>x\<rfloor> < 2 ^ w"
  by (simp add: nat_less_iff floor_less_iff)

end
