(* ===== verification/Congestion_Base.thy ===== *)
theory Congestion_Base
  imports Binary_Float
begin

text \<open>
  What every congestion controller of \<open>quic/congestion_control\<close> shares: the part of
  \<open>QuicConnectionStateBase\<close> they read and write, the events they receive
  (\<open>AckEvent\<close>, \<open>LossEvent\<close>), the checked arithmetic and the window clamp of
  \<open>CongestionControlFunctions\<close>, the names of the controllers, and the interface
  \<open>CongestionController\<close> as a locale with what its clients may rely on.

  Times are \<open>steady_clock\<close> time points in nanoseconds and durations are in
  microseconds, both as mathematical integers; every reading of \<open>Clock::now()\<close> is an
  argument of the operation that makes it.
\<close>

section \<open>Connection state, events, errors\<close>

type_synonym time_point = int
type_synonym micros = int

text \<open>\<open>std::chrono::microseconds::max()\<close>, on the 64-bit representation.\<close>

definition micros_max :: micros where
  "micros_max = 2 ^ 63 - 1"

text \<open>\<open>duration_cast<microseconds>\<close> of a difference of time points truncates.\<close>

definition nanos_to_micros :: "int \<Rightarrow> micros" where
  "nanos_to_micros d = sgn d * (\<bar>d\<bar> div 1000)"

text \<open>
  The fields of \<open>QuicConnectionStateBase\<close> the controllers use: \<open>udpSendPacketLen\<close>,
  \<open>lossState.inflightBytes\<close> and the fields of \<open>transportSettings\<close>.
\<close>

record conn_state =
  udpSendPacketLen :: u64
  inflightBytes :: u64
  initCwndInMss :: u64
  minCwndInMss :: u64
  maxCwndInMss :: u64
  pacingTickInterval :: micros
  minBurstPackets :: u64
  writeConnectionDataPacketsLimit :: u64

datatype quic_error =
    Overflow_bytes_in_flight
  | Underflow_bytes_in_flight
  | LostBytes_overflow
  | Internal_error
  | Undefined_behaviour

text \<open>\<open>AckEvent::AckPacket\<close>, with the fields of its \<open>OutstandingPacketMetadata\<close>.\<close>

record ack_packet =
  packetNum :: u64
  sentTime :: time_point
  encodedSize :: u16
  receiveRelativeTimeStampUsec :: "micros option"

record ack_event =
  ackTime :: time_point
  ackedBytes :: u64
  largestNewlyAckedPacket :: "u64 option"
  rttSample :: "micros option"
  ackedPackets :: "ack_packet list"

record loss_event =
  largestLostPacketNum :: "u64 option"
  lostPacketNumbers :: "u64 list"
  lostBytes :: u64
  lostPackets :: u32
  lossTime :: time_point
  largestLostSentTime :: "time_point option"
  smallestLostSentTime :: "time_point option"
  persistentCongestion :: bool

definition empty_loss_event :: "time_point \<Rightarrow> loss_event" where
  "empty_loss_event t =
     \<lparr>largestLostPacketNum = None, lostPacketNumbers = [], lostBytes = 0, lostPackets = 0,
      lossTime = t, largestLostSentTime = None, smallestLostSentTime = None,
      persistentCongestion = False\<rparr>"

fun value_or :: "'a option \<Rightarrow> 'a \<Rightarrow> 'a" where
  "value_or (Some x) d = x"
| "value_or None d = d"

definition addLostPacket :: "loss_event \<Rightarrow> ack_packet \<Rightarrow> quic_error + loss_event" where
  "addLostPacket ev packet =
     (if u64_max - lostBytes ev < ucast (encodedSize packet) then Inl LostBytes_overflow
      else Inr (ev\<lparr>
        largestLostPacketNum :=
          Some (max (packetNum packet) (value_or (largestLostPacketNum ev) (packetNum packet))),
        lostPacketNumbers := lostPacketNumbers ev @ [packetNum packet],
        lostBytes := lostBytes ev + ucast (encodedSize packet),
        lostPackets := lostPackets ev + 1,
        largestLostSentTime :=
          Some (max (sentTime packet) (value_or (largestLostSentTime ev) (sentTime packet))),
        smallestLostSentTime :=
          Some (min (sentTime packet) (value_or (smallestLostSentTime ev) (sentTime packet)))\<rparr>))"

section \<open>CongestionControlFunctions\<close>

definition kDefaultUDPSendPacketLen :: u64 where
  "kDefaultUDPSendPacketLen = 1232"

definition boundedCwnd :: "u64 \<Rightarrow> u64 \<Rightarrow> u64 \<Rightarrow> u64 \<Rightarrow> u64" where
  "boundedCwnd cwndBytes packetLength maxCwnd minCwnd =
     max (min cwndBytes (maxCwnd * packetLength)) (minCwnd * packetLength)"

definition addAndCheckOverflow :: "u64 \<Rightarrow> u64 \<Rightarrow> quic_error + u64" where
  "addAndCheckOverflow v toAdd =
     (if u64_max - toAdd < v then Inl Overflow_bytes_in_flight else Inr (v + toAdd))"

definition subtractAndCheckUnderflow :: "u64 \<Rightarrow> u64 \<Rightarrow> quic_error + u64" where
  "subtractAndCheckUnderflow v toSub =
     (if v < toSub then Inl Underflow_bytes_in_flight else Inr (v - toSub))"

record pacing_rate =
  pr_interval :: micros
  pr_burstSize :: u64

text \<open>
  The pacing rate. The ceiling of the \<open>double\<close> product and quotient is converted to an
  integer. The product \<open>rtt * burstPerInterval\<close> is unsigned 64-bit arithmetic, and so
  is the comparison of \<open>timeMax\<close>, whose result is converted back to signed microseconds.
\<close>

definition calculatePacingRate ::
    "conn_state \<Rightarrow> u64 \<Rightarrow> u64 \<Rightarrow> micros \<Rightarrow> quic_error + pacing_rate" where
  "calculatePacingRate conn cwnd minCwnd rtt =
     (if pacingTickInterval conn > rtt
      then Inr \<lparr>pr_interval = 0, pr_burstSize = writeConnectionDataPacketsLimit conn\<rparr>
      else if udpSendPacketLen conn = 0 \<or> rtt = 0 then Inl Undefined_behaviour
      else
        let cwndInPackets = max minCwnd (cwnd div udpSendPacketLen conn);
            burst = fl64 (fl64 (fl64 (of_u64 cwndInPackets) * fl64 (of_int (pacingTickInterval conn)))
                          / fl64 (of_int rtt))
        in case to_u64 (of_int \<lceil>burst\<rceil>) of
             None \<Rightarrow> Inl Undefined_behaviour
           | Some burstCeil \<Rightarrow>
               let burstPerInterval = max (minBurstPackets conn) burstCeil
               in if cwndInPackets = 0 then Inl Undefined_behaviour
                  else
                    let perBurst = (word_of_int rtt * burstPerInterval) div cwndInPackets
                    in Inr \<lparr>pr_interval =
                              (if word_of_int (pacingTickInterval conn) > perBurst
                               then pacingTickInterval conn else sint perBurst),
                            pr_burstSize = burstPerInterval\<rparr>)"

section \<open>Controller names\<close>

datatype congestion_control_type =
    Cubic | Westwood | WestwoodOWD | NewReno | Copa | Copa2 | BBR | BBR2 | BBRTesting
  | StaticCwnd | NoController | MAX_type

fun congestionControlTypeToString :: "congestion_control_type \<Rightarrow> string" where
  "congestionControlTypeToString Cubic = ''cubic''"
| "congestionControlTypeToString Westwood = ''westwood''"
| "congestionControlTypeToString WestwoodOWD = ''westwood_owd''"
| "congestionControlTypeToString BBR = ''bbr''"
| "congestionControlTypeToString BBR2 = ''bbr2''"
| "congestionControlTypeToString BBRTesting = ''bbr_testing''"
| "congestionControlTypeToString Copa = ''copa''"
| "congestionControlTypeToString Copa2 = ''copa2''"
| "congestionControlTypeToString NewReno = ''newreno''"
| "congestionControlTypeToString StaticCwnd = ''staticcwnd''"
| "congestionControlTypeToString NoController = ''none''"
| "congestionControlTypeToString MAX_type = ''MAX''"

definition congestionControlStrToType :: "string \<Rightarrow> congestion_control_type option" where
  "congestionControlStrToType str =
     (if str = ''cubic'' then Some Cubic
      else if str = ''westwood'' then Some Westwood
      else if str = ''westwood_owd'' then Some WestwoodOWD
      else if str = ''bbr2'' then Some BBR2
      else if str = ''bbr'' then Some BBR
      else if str = ''bbr_testing'' then Some BBRTesting
      else if str = ''copa'' then Some Copa
      else if str = ''copa2'' then Some Copa2
      else if str = ''newreno'' then Some NewReno
      else if str = ''staticcwnd'' then Some StaticCwnd
      else if str = ''none'' then Some NoController
      else None)"

section \<open>Lemmas on the shared functions\<close>

text \<open>The window the clamp allows, and that the clamp lands in it.\<close>

definition cwnd_floor :: "conn_state \<Rightarrow> u64" where
  "cwnd_floor conn = minCwndInMss conn * udpSendPacketLen conn"

definition cwnd_ceiling :: "conn_state \<Rightarrow> u64" where
  "cwnd_ceiling conn = max (maxCwndInMss conn * udpSendPacketLen conn) (cwnd_floor conn)"

definition cwnd_bounded :: "conn_state \<Rightarrow> u64 \<Rightarrow> bool" where
  "cwnd_bounded conn cwnd \<longleftrightarrow> cwnd_floor conn \<le> cwnd \<and> cwnd \<le> cwnd_ceiling conn"

abbreviation clamp :: "conn_state \<Rightarrow> u64 \<Rightarrow> u64" where
  "clamp conn cwnd \<equiv>
     boundedCwnd cwnd (udpSendPacketLen conn) (maxCwndInMss conn) (minCwndInMss conn)"

lemma clamp_bounded [simp]: "cwnd_bounded conn (clamp conn cwnd)"
  unfolding cwnd_bounded_def cwnd_ceiling_def cwnd_floor_def boundedCwnd_def
  by (intro conjI max.cobounded2 max.mono min.cobounded2 order.refl)

lemma clamp_id: "cwnd_bounded conn cwnd \<Longrightarrow> cwnd_floor conn \<le> maxCwndInMss conn * udpSendPacketLen conn
    \<Longrightarrow> clamp conn cwnd = cwnd"
  unfolding cwnd_bounded_def cwnd_ceiling_def cwnd_floor_def boundedCwnd_def
  by (simp add: max.absorb1 min.absorb1)

lemma clamp_large: "maxCwndInMss conn * udpSendPacketLen conn \<le> cwnd \<Longrightarrow> clamp conn cwnd = cwnd_ceiling conn"
  unfolding cwnd_ceiling_def cwnd_floor_def boundedCwnd_def by (simp add: min_def)

lemma cwnd_bounded_cong:
  "udpSendPacketLen conn' = udpSendPacketLen conn \<Longrightarrow> maxCwndInMss conn' = maxCwndInMss conn \<Longrightarrow>
   minCwndInMss conn' = minCwndInMss conn \<Longrightarrow> cwnd_bounded conn' = cwnd_bounded conn"
  by (simp add: cwnd_bounded_def cwnd_ceiling_def cwnd_floor_def fun_eq_iff)

lemma cwnd_bounded_inflight [simp]: "cwnd_bounded (conn\<lparr>inflightBytes := n\<rparr>) = cwnd_bounded conn"
  by (rule cwnd_bounded_cong) simp_all

lemma addAndCheckOverflow_iff:
  "addAndCheckOverflow v n = Inr v' \<longleftrightarrow> unat v + unat n < 2 ^ 64 \<and> v' = v + n"
  by (auto simp: addAndCheckOverflow_def max_minus_less_iff not_le)

lemma addAndCheckOverflow_Inl:
  "addAndCheckOverflow v n = Inl e \<longleftrightarrow> 2 ^ 64 \<le> unat v + unat n \<and> e = Overflow_bytes_in_flight"
  by (auto simp: addAndCheckOverflow_def max_minus_less_iff)

lemma addAndCheckOverflow_unat:
  "addAndCheckOverflow v n = Inr v' \<Longrightarrow> unat v' = unat v + unat n"
  by (auto simp: addAndCheckOverflow_iff intro!: unat_add_no_overflow)

lemma subtractAndCheckUnderflow_iff:
  "subtractAndCheckUnderflow v n = Inr v' \<longleftrightarrow> n \<le> v \<and> v' = v - n"
  by (auto simp: subtractAndCheckUnderflow_def)

lemma subtractAndCheckUnderflow_Inl:
  "subtractAndCheckUnderflow v n = Inl e \<longleftrightarrow> v < n \<and> e = Underflow_bytes_in_flight"
  by (auto simp: subtractAndCheckUnderflow_def)

lemma subtractAndCheckUnderflow_unat:
  "subtractAndCheckUnderflow v n = Inr v' \<Longrightarrow> unat v' = unat v - unat n \<and> unat n \<le> unat v"
  by (auto simp: subtractAndCheckUnderflow_iff unat_sub word_le_nat_alt)

lemmas checked_arith =
  addAndCheckOverflow_iff addAndCheckOverflow_Inl
  subtractAndCheckUnderflow_iff subtractAndCheckUnderflow_Inl

section \<open>The interface CongestionController\<close>

text \<open>
  The virtual methods of \<open>CongestionController\<close> a transport calls, and the laws every
  implementation of this development provides: a sent packet adds its size to the bytes
  in flight and leaves the window alone, bytes removed from flight are subtracted, the
  writable bytes are what the window leaves, and every operation keeps the
  implementation's invariant.
\<close>

locale congestion_controller =
  fixes sent :: "'c \<Rightarrow> u16 \<Rightarrow> quic_error + 'c"
    and remove :: "'c \<Rightarrow> u64 \<Rightarrow> quic_error + 'c"
    and ack_or_loss :: "'c \<Rightarrow> 'v \<Rightarrow> quic_error + 'c"
    and writable :: "'c \<Rightarrow> u64"
    and window :: "'c \<Rightarrow> u64"
    and in_flight :: "'c \<Rightarrow> u64"
    and invar :: "'c \<Rightarrow> bool"
  assumes sent_total: "unat (in_flight c) + unat n < 2 ^ 64 \<Longrightarrow> \<exists>c'. sent c n = Inr c'"
    and sent_in_flight: "sent c n = Inr c' \<Longrightarrow> unat (in_flight c') = unat (in_flight c) + unat n"
    and sent_window: "sent c n = Inr c' \<Longrightarrow> window c' = window c"
    and sent_invar: "invar c \<Longrightarrow> sent c n = Inr c' \<Longrightarrow> invar c'"
    and remove_total: "k \<le> in_flight c \<Longrightarrow> \<exists>c'. remove c k = Inr c'"
    and remove_in_flight: "remove c k = Inr c' \<Longrightarrow> unat (in_flight c') + unat k = unat (in_flight c)"
    and remove_window: "remove c k = Inr c' \<Longrightarrow> window c' = window c"
    and remove_invar: "invar c \<Longrightarrow> remove c k = Inr c' \<Longrightarrow> invar c'"
    and ack_or_loss_invar: "invar c \<Longrightarrow> ack_or_loss c v = Inr c' \<Longrightarrow> invar c'"
    and writable_room: "unat (writable c) = unat (window c) - unat (in_flight c)"
begin

text \<open>
  A sender that never sends more than the writable bytes: the send succeeds, the bytes in
  flight stay within the window and the room shrinks by exactly the packet.
\<close>

lemma send_within_room:
  assumes "unat n \<le> unat (writable c)" and "in_flight c \<le> window c"
  shows "\<exists>c'. sent c n = Inr c' \<and> in_flight c' \<le> window c' \<and> window c' = window c \<and>
           unat (writable c') = unat (writable c) - unat n \<and>
           unat (in_flight c') = unat (in_flight c) + unat n"
proof -
  have fit: "unat (in_flight c) + unat n \<le> unat (window c)"
    using assms writable_room [of c] by (simp add: word_le_nat_alt)
  then have "unat (in_flight c) + unat n < 2 ^ 64"
    using unat_bound [of "window c"] by simp
  then obtain c' where c': "sent c n = Inr c'" using sent_total by blast
  have "window c' = window c" by (rule sent_window [OF c'])
  moreover have "unat (in_flight c') = unat (in_flight c) + unat n" by (rule sent_in_flight [OF c'])
  ultimately show ?thesis
    using c' fit assms writable_room [of c] writable_room [of c']
    by (intro exI [of _ c']) (simp add: word_le_nat_alt)
qed

text \<open>A burst of packets that fits the writable bytes is sent whole.\<close>

lemma send_burst:
  assumes "(\<Sum>n\<leftarrow>ns. unat n) \<le> unat (writable c)" and "in_flight c \<le> window c"
  shows "\<exists>c'. run_events sent c ns = Inr c' \<and> in_flight c' \<le> window c' \<and> window c' = window c \<and>
           unat (in_flight c') = unat (in_flight c) + (\<Sum>n\<leftarrow>ns. unat n)"
  using assms
proof (induction ns arbitrary: c)
  case Nil
  then show ?case by simp
next
  case (Cons n ns)
  obtain c1 where c1: "sent c n = Inr c1" "in_flight c1 \<le> window c1" "window c1 = window c"
      "unat (writable c1) = unat (writable c) - unat n"
      "unat (in_flight c1) = unat (in_flight c) + unat n"
    using send_within_room [of n c] Cons.prems by auto
  have "(\<Sum>n\<leftarrow>ns. unat n) \<le> unat (writable c1)" using c1(4) Cons.prems by simp
  from Cons.IH [OF this c1(2)] c1 show ?case by auto
qed

lemma sent_then_removed:
  assumes "sent c n = Inr c1"
  shows "\<exists>c2. remove c1 (ucast n) = Inr c2 \<and> in_flight c2 = in_flight c \<and> window c2 = window c"
proof -
  have n: "unat (ucast n :: u64) = unat n"
    by (simp add: unsigned_ucast_eq take_bit_nat_eq_self_iff less_le_trans [OF unat_bound])
  have "unat (in_flight c1) = unat (in_flight c) + unat n" by (rule sent_in_flight [OF assms])
  then have "ucast n \<le> in_flight c1" by (simp add: word_le_nat_alt n)
  then obtain c2 where c2: "remove c1 (ucast n) = Inr c2" using remove_total by blast
  then have "unat (in_flight c2) = unat (in_flight c)"
    using remove_in_flight [OF c2] sent_in_flight [OF assms] n by simp
  then have "in_flight c2 = in_flight c" by (rule unsigned_word_eqI)
  then show ?thesis
    using c2 remove_window [OF c2] sent_window [OF assms] by auto
qed

end

text \<open>The calls a transport makes on a controller, and a controller's step for each.\<close>

datatype 'v cc_call = Sent u16 | Removed u64 | Ack_or_loss 'v

fun cc_step ::
    "('c \<Rightarrow> u16 \<Rightarrow> quic_error + 'c) \<Rightarrow> ('c \<Rightarrow> u64 \<Rightarrow> quic_error + 'c) \<Rightarrow>
     ('c \<Rightarrow> 'v \<Rightarrow> quic_error + 'c) \<Rightarrow> 'c \<Rightarrow> 'v cc_call \<Rightarrow> quic_error + 'c" where
  "cc_step s r a c (Sent n) = s c n"
| "cc_step s r a c (Removed k) = r c k"
| "cc_step s r a c (Ack_or_loss v) = a c v"

context congestion_controller
begin

lemma step_invar:
  "invar c \<Longrightarrow> cc_step sent remove ack_or_loss c v = Inr c' \<Longrightarrow> invar c'"
  by (cases v) (auto intro: sent_invar remove_invar ack_or_loss_invar)

lemma run_invar:
  "invar c \<Longrightarrow> run_events (cc_step sent remove ack_or_loss) c vs = Inr c' \<Longrightarrow> invar c'"
  by (rule run_events_invariant [where P = invar]) (auto intro: step_invar)

end

end
