(* ===== verification/Westwood_Plus.thy ===== *)
theory Westwood_Plus
  imports Congestion_Base
begin

text \<open>
  The Westwood+ controller, \<open>quic/congestion_control/Westwood.h\<close> and
  \<open>Westwood.cpp\<close>: the min-RTT sampler, the bandwidth estimator with its sigmoid
  low-pass filter, and the handlers for sent, acknowledged, lost and removed packets.
  Logging (\<open>VLOG\<close>, the qlog trace) reads the state only and is left out.

  The state is one record, with the connection state the class refers to as a field.
  Each \<open>Clock::now()\<close> of the source is an argument: one reading per acknowledged
  packet, and for a loss the reading of the sampler reset and that of the recovery start.
  \<open>std::exp\<close> on \<open>float\<close>, whose value the C++ standard does not fix, is the
  argument \<open>expf\<close>. A read of an empty optional, an integer division by zero and an
  out-of-range conversion are \<open>Undefined_behaviour\<close>.
\<close>

section \<open>The RTT sampler\<close>

record rtt_sampler =
  expiration :: "int"
  minRtt :: micros
  minRttTimestamp :: "time_point option"
  rttExpired :: bool

text \<open>Expirations are whole seconds; time points are nanoseconds.\<close>

definition newRttSampler :: "int \<Rightarrow> rtt_sampler" where
  "newRttSampler seconds =
     \<lparr>expiration = seconds, minRtt = micros_max, minRttTimestamp = None, rttExpired = True\<rparr>"

definition newRttSample :: "micros \<Rightarrow> time_point \<Rightarrow> rtt_sampler \<Rightarrow> bool \<times> rtt_sampler" where
  "newRttSample sample sampledTime rs =
     (let expired = (case minRttTimestamp rs of
                       Some t \<Rightarrow> sampledTime > t + expiration rs * 1000000000
                     | None \<Rightarrow> False);
          rs1 = rs\<lparr>rttExpired := expired\<rparr>
      in if expired \<or> sample < minRtt rs
         then (True, rs1\<lparr>minRtt := sample, minRttTimestamp := Some sampledTime\<rparr>)
         else (False, rs1))"

definition resetRttSample :: "time_point \<Rightarrow> rtt_sampler \<Rightarrow> rtt_sampler" where
  "resetRttSample sampledTime rs =
     rs\<lparr>minRtt := micros_max, minRttTimestamp := Some sampledTime, rttExpired := True\<rparr>"

section \<open>State and constructor\<close>

definition kWestwoodMinRttMicroseconds :: u64 where
  "kWestwoodMinRttMicroseconds = 50000"

definition kWestwoodInitialRttMicroseconds :: micros where
  "kWestwoodInitialRttMicroseconds = 20000000"

definition kWestwoodRttExpirationSeconds :: int where
  "kWestwoodRttExpirationSeconds = 20"

record westwood =
  ww_conn :: conn_state
  ww_rttWindowStartTime :: time_point
  ww_latestRttSample :: micros
  ww_bandwidthNewestEstimate :: u32
  ww_bandwidthEstimate :: u32
  ww_step :: u32
  ww_bytesAckedInCurrentInterval :: u64
  ww_ssthresh :: u64
  ww_rttSampler :: rtt_sampler
  ww_cwndBytes :: u64
  ww_endOfRecovery :: "time_point option"

definition newWestwood :: "time_point \<Rightarrow> conn_state \<Rightarrow> westwood" where
  "newWestwood now conn =
     \<lparr>ww_conn = conn,
      ww_rttWindowStartTime = now,
      ww_latestRttSample = kWestwoodInitialRttMicroseconds,
      ww_bandwidthNewestEstimate = 0,
      ww_bandwidthEstimate = 0,
      ww_step = 0,
      ww_bytesAckedInCurrentInterval = 0,
      ww_ssthresh = u64_max,
      ww_rttSampler = newRttSampler kWestwoodRttExpirationSeconds,
      ww_cwndBytes = clamp conn (initCwndInMss conn * udpSendPacketLen conn),
      ww_endOfRecovery = None\<rparr>"

section \<open>Bytes in flight and queries\<close>

definition ww_set_inflight :: "u64 \<Rightarrow> westwood \<Rightarrow> westwood" where
  "ww_set_inflight n w = w\<lparr>ww_conn := (ww_conn w)\<lparr>inflightBytes := n\<rparr>\<rparr>"

definition ww_onRemoveBytesFromInflight :: "westwood \<Rightarrow> u64 \<Rightarrow> quic_error + westwood" where
  "ww_onRemoveBytesFromInflight w bytes =
     bind_result (subtractAndCheckUnderflow (inflightBytes (ww_conn w)) bytes)
       (\<lambda>n. Inr (ww_set_inflight n w))"

definition ww_onPacketSent :: "westwood \<Rightarrow> u16 \<Rightarrow> quic_error + westwood" where
  "ww_onPacketSent w pktSize =
     bind_result (addAndCheckOverflow (inflightBytes (ww_conn w)) (ucast pktSize))
       (\<lambda>n. Inr (ww_set_inflight n w))"

definition ww_getCongestionWindow :: "westwood \<Rightarrow> u64" where
  "ww_getCongestionWindow w = ww_cwndBytes w"

definition ww_getSlowStartThreshold :: "westwood \<Rightarrow> u64" where
  "ww_getSlowStartThreshold w = ww_ssthresh w"

definition ww_getBytesInFlight :: "westwood \<Rightarrow> u64" where
  "ww_getBytesInFlight w = inflightBytes (ww_conn w)"

definition ww_inSlowStart :: "westwood \<Rightarrow> bool" where
  "ww_inSlowStart w \<longleftrightarrow> ww_cwndBytes w < ww_ssthresh w"

definition ww_getWritableBytes :: "westwood \<Rightarrow> quic_error + u64" where
  "ww_getWritableBytes w =
     (if inflightBytes (ww_conn w) > ww_cwndBytes w then Inr 0
      else subtractAndCheckUnderflow (ww_getCongestionWindow w) (inflightBytes (ww_conn w)))"

record westwood_stats =
  bw_est :: u64
  rtt_min :: u64
  stat_ssthresh :: u64

definition ww_getStats :: "westwood \<Rightarrow> westwood_stats" where
  "ww_getStats w =
     \<lparr>bw_est = ucast (ww_bandwidthEstimate w),
      rtt_min = word_of_int (minRtt (ww_rttSampler w)),
      stat_ssthresh = ww_ssthresh w\<rparr>"

section \<open>Bandwidth estimation\<close>

text \<open>The sigmoid gain, in \<open>float\<close> arithmetic.\<close>

definition westwoodCoef :: "(rat \<Rightarrow> rat) \<Rightarrow> u32 \<Rightarrow> rat" where
  "westwoodCoef expf step =
     (let s = fl32 (of_u32 step);
          sigmoid = fl32 (1 / fl32 (1 + expf (- fl32 (fl32 (s - 16) / 1))))
      in fl32 (sigmoid * fl32 (6 / 8)))"

definition westwoodLowPassFilter :: "(rat \<Rightarrow> rat) \<Rightarrow> u32 \<Rightarrow> u32 \<Rightarrow> u32 \<Rightarrow> u32 option" where
  "westwoodLowPassFilter expf step a b =
     (let coef = westwoodCoef expf step;
          filtered = fl32 (fl32 (coef * fl32 (of_u32 a)) + fl32 (fl32 (1 - coef) * fl32 (of_u32 b)))
      in to_u32 filtered)"

text \<open>
  \<open>bytesAcked / (delta / 1e6)\<close> in \<open>double\<close>; a zero \<open>delta\<close> makes it infinite or
  NaN, which no integer conversion accepts.
\<close>

definition rawBandwidth :: "u64 \<Rightarrow> u32 \<Rightarrow> rat option" where
  "rawBandwidth bytes delta =
     (if delta = 0 then None
      else Some (fl64 (fl64 (of_u64 bytes) / fl64 (of_u32 delta / 1000000))))"

fun option_to_result :: "'a option \<Rightarrow> quic_error + 'a" where
  "option_to_result None = Inl Undefined_behaviour"
| "option_to_result (Some x) = Inr x"

definition updateWestwoodBandwidthEstimates ::
    "(rat \<Rightarrow> rat) \<Rightarrow> u32 \<Rightarrow> westwood \<Rightarrow> quic_error + westwood" where
  "updateWestwoodBandwidthEstimates expf delta w =
     (if minRtt (ww_rttSampler w) = micros_max then Inr w
      else
        bind_result (option_to_result (rawBandwidth (ww_bytesAckedInCurrentInterval w) delta))
          (\<lambda>raw.
        bind_result
          (if ww_bandwidthNewestEstimate w = 0 \<and> ww_bandwidthEstimate w = 0
           then option_to_result (to_u64 raw)
           else bind_result (option_to_result (to_u32 raw)) (\<lambda>b.
                map_sum id ucast (option_to_result
                  (westwoodLowPassFilter expf (ww_step w) (ww_bandwidthNewestEstimate w) b))))
          (\<lambda>bw_ns_est :: u64.
        let w1 = w\<lparr>ww_bandwidthNewestEstimate := ucast bw_ns_est\<rparr>
        in bind_result
             (option_to_result
                (westwoodLowPassFilter expf (ww_step w1) (ww_bandwidthEstimate w1) (ucast bw_ns_est)))
             (\<lambda>bw. Inr (w1\<lparr>ww_bandwidthEstimate := bw\<rparr>)))))"

section \<open>Acknowledgements\<close>

text \<open>
  The window increase of \<open>onPacketAcked\<close>: by the acked bytes in slow start, by
  \<open>MSS * acked / cwnd\<close> in congestion avoidance, clamped.
\<close>

definition ww_increase :: "u64 \<Rightarrow> westwood \<Rightarrow> quic_error + westwood" where
  "ww_increase acked w =
     (if ww_cwndBytes w < ww_ssthresh w
      then bind_result (addAndCheckOverflow (ww_cwndBytes w) acked)
             (\<lambda>c. Inr (w\<lparr>ww_cwndBytes := clamp (ww_conn w) c\<rparr>))
      else if ww_cwndBytes w = 0 then Inl Undefined_behaviour
      else bind_result
             (addAndCheckOverflow (ww_cwndBytes w)
                ((kDefaultUDPSendPacketLen * acked) div ww_cwndBytes w))
             (\<lambda>c. Inr (w\<lparr>ww_cwndBytes := clamp (ww_conn w) c\<rparr>)))"

text \<open>
  The bandwidth sample of \<open>onPacketAcked\<close>: the acked bytes are counted, and once the
  measuring interval is longer than the last RTT and 50 ms, the estimates are updated
  and a new interval starts.
\<close>

definition ww_measure ::
    "(rat \<Rightarrow> rat) \<Rightarrow> u64 \<Rightarrow> time_point \<Rightarrow> westwood \<Rightarrow> quic_error + westwood" where
  "ww_measure expf acked now w =
     (let w1 = w\<lparr>ww_bytesAckedInCurrentInterval := ww_bytesAckedInCurrentInterval w + acked\<rparr>;
          delta = word_of_int (nanos_to_micros (now - ww_rttWindowStartTime w)) :: u64
      in if delta > max (word_of_int (ww_latestRttSample w)) kWestwoodMinRttMicroseconds
         then bind_result
                (updateWestwoodBandwidthEstimates expf (ucast delta) (w1\<lparr>ww_step := ww_step w1 + 1\<rparr>))
                (\<lambda>w2. Inr (w2\<lparr>ww_rttWindowStartTime := now, ww_bytesAckedInCurrentInterval := 0\<rparr>))
         else Inr w1)"

definition ww_onPacketAcked ::
    "(rat \<Rightarrow> rat) \<Rightarrow> westwood \<Rightarrow> ack_packet \<times> time_point \<Rightarrow> quic_error + westwood" where
  "ww_onPacketAcked expf w = (\<lambda>(packet, now).
     if (case ww_endOfRecovery w of Some t \<Rightarrow> sentTime packet < t | None \<Rightarrow> False) then Inr w
     else let acked = ucast (encodedSize packet)
          in bind_result (ww_measure expf acked now w) (ww_increase acked))"

text \<open>\<open>nows i\<close> is the clock reading made for the \<open>i\<close>-th acknowledged packet.\<close>

definition with_readings :: "ack_packet list \<Rightarrow> (nat \<Rightarrow> time_point) \<Rightarrow> (ack_packet \<times> time_point) list" where
  "with_readings packets nows = zip packets (map nows [0..<length packets])"

definition ww_onAckEvent ::
    "(rat \<Rightarrow> rat) \<Rightarrow> ack_event \<Rightarrow> (nat \<Rightarrow> time_point) \<Rightarrow> westwood \<Rightarrow> quic_error + westwood" where
  "ww_onAckEvent expf ack nows w =
     (let w1 = (case rttSample ack of
                  Some rtt \<Rightarrow> w\<lparr>ww_rttSampler := snd (newRttSample rtt (ackTime ack) (ww_rttSampler w)),
                                 ww_latestRttSample := rtt\<rparr>
                | None \<Rightarrow> w)
      in bind_result (subtractAndCheckUnderflow (inflightBytes (ww_conn w1)) (ackedBytes ack))
           (\<lambda>n. bind_result
              (run_events (ww_onPacketAcked expf) (ww_set_inflight n w1) (with_readings (ackedPackets ack) nows))
              (\<lambda>w2. Inr (w2\<lparr>ww_cwndBytes := clamp (ww_conn w2) (ww_cwndBytes w2)\<rparr>))))"

section \<open>Losses\<close>

text \<open>\<open>bandwidthEstimate_ * (rttMinUs / 1e6)\<close> as a number of bytes.\<close>

definition ww_pipeSize :: "u32 \<Rightarrow> micros \<Rightarrow> u64 option" where
  "ww_pipeSize bw rttMin =
     to_u64 (fl64 (of_u32 bw * fl64 (fl64 (of_u64 (word_of_int rttMin)) / 1000000)))"

definition ww_enterRecovery :: "time_point \<Rightarrow> westwood \<Rightarrow> quic_error + westwood" where
  "ww_enterRecovery now w =
     bind_result (option_to_result (ww_pipeSize (ww_bandwidthEstimate w) (minRtt (ww_rttSampler w))))
       (\<lambda>pipe. let ssthresh = max pipe (2 * udpSendPacketLen (ww_conn w))
               in Inr (w\<lparr>ww_endOfRecovery := Some now, ww_ssthresh := ssthresh,
                          ww_cwndBytes := clamp (ww_conn w) ssthresh\<rparr>))"

text \<open>A loss starts a recovery when none is recorded or it was sent after the recorded one.\<close>

definition ww_newLoss :: "westwood \<Rightarrow> loss_event \<Rightarrow> quic_error + bool" where
  "ww_newLoss w loss =
     (case ww_endOfRecovery w of
        None \<Rightarrow> Inr True
      | Some t \<Rightarrow> (case largestLostSentTime loss of
                      None \<Rightarrow> Inl Undefined_behaviour
                    | Some lost \<Rightarrow> Inr (t < lost)))"

text \<open>The reset of an expired sampler, and the collapse of the window on persistent congestion.\<close>

definition ww_expireRtt :: "time_point \<Rightarrow> westwood \<Rightarrow> westwood" where
  "ww_expireRtt now w =
     (if rttExpired (ww_rttSampler w)
      then w\<lparr>ww_rttSampler := resetRttSample now (ww_rttSampler w)\<rparr> else w)"

definition ww_collapse :: "loss_event \<Rightarrow> westwood \<Rightarrow> westwood" where
  "ww_collapse loss w =
     (if persistentCongestion loss
      then w\<lparr>ww_cwndBytes := clamp (ww_conn w) (minCwndInMss (ww_conn w) * udpSendPacketLen (ww_conn w))\<rparr>
      else w)"

definition ww_onPacketLoss ::
    "loss_event \<Rightarrow> time_point \<Rightarrow> time_point \<Rightarrow> westwood \<Rightarrow> quic_error + westwood" where
  "ww_onPacketLoss loss resetNow recoveryNow w =
     bind_result (subtractAndCheckUnderflow (inflightBytes (ww_conn w)) (lostBytes loss)) (\<lambda>n.
     let w1 = ww_expireRtt resetNow (ww_set_inflight n w)
     in bind_result (ww_newLoss w1 loss) (\<lambda>fresh.
        bind_result (if fresh then ww_enterRecovery recoveryNow w1 else Inr w1) (\<lambda>w2.
        Inr (ww_collapse loss w2))))"

text \<open>
  \<open>onPacketAckOrLoss\<close>: the loss first, then the acknowledgement when it newly acked a
  packet. The call's clock readings come with it.
\<close>

record cc_event =
  ev_ack :: "ack_event option"
  ev_ack_nows :: "nat \<Rightarrow> time_point"
  ev_loss :: "loss_event option"
  ev_reset_now :: time_point
  ev_recovery_now :: time_point

definition ww_onPacketAckOrLoss :: "(rat \<Rightarrow> rat) \<Rightarrow> westwood \<Rightarrow> cc_event \<Rightarrow> quic_error + westwood" where
  "ww_onPacketAckOrLoss expf w ev =
     bind_result
       (case ev_loss ev of
          Some loss \<Rightarrow> ww_onPacketLoss loss (ev_reset_now ev) (ev_recovery_now ev) w
        | None \<Rightarrow> Inr w)
       (\<lambda>w1. case ev_ack ev of
               Some ack \<Rightarrow> (if largestNewlyAckedPacket ack \<noteq> None
                            then ww_onAckEvent expf ack (ev_ack_nows ev) w1 else Inr w1)
             | None \<Rightarrow> Inr w1)"

section \<open>The window invariant\<close>

text \<open>
  Against the connection settings the controller was built with: they do not change
  except for the bytes in flight, and the window is inside the clamp.
\<close>

definition settings_of :: "conn_state \<Rightarrow> conn_state" where
  "settings_of conn = conn\<lparr>inflightBytes := 0\<rparr>"

definition ww_inv :: "conn_state \<Rightarrow> westwood \<Rightarrow> bool" where
  "ww_inv conn w \<longleftrightarrow> settings_of (ww_conn w) = settings_of conn \<and> cwnd_bounded conn (ww_cwndBytes w)"

lemma settings_of_inflight [simp]: "settings_of (conn\<lparr>inflightBytes := n\<rparr>) = settings_of conn"
  by (simp add: settings_of_def)

lemma cwnd_bounded_settings:
  "settings_of conn' = settings_of conn \<Longrightarrow> cwnd_bounded conn' = cwnd_bounded conn"
  by (metis cwnd_bounded_inflight settings_of_def)

lemma clamp_settings:
  assumes "settings_of conn' = settings_of conn"
  shows "clamp conn' = clamp conn"
proof -
  have "clamp conn' = clamp (settings_of conn')" and "clamp conn = clamp (settings_of conn)"
    by (simp_all add: settings_of_def)
  with assms show ?thesis by simp
qed

lemma ww_inv_clamp:
  "settings_of (ww_conn w) = settings_of conn \<Longrightarrow> ww_inv conn (w\<lparr>ww_cwndBytes := clamp (ww_conn w) c\<rparr>)"
  using cwnd_bounded_settings [of "ww_conn w" conn] clamp_bounded [of "ww_conn w" c]
  by (simp add: ww_inv_def)

lemma ww_inv_inflight [simp]: "ww_inv conn (ww_set_inflight n w) = ww_inv conn w"
  by (simp add: ww_inv_def ww_set_inflight_def)

lemma ww_inv_new: "ww_inv conn (newWestwood now conn)"
  by (simp add: ww_inv_def newWestwood_def)

text \<open>The bandwidth estimator touches its two estimates only.\<close>

lemma updateWestwoodBandwidthEstimates_frame:
  assumes "updateWestwoodBandwidthEstimates expf delta w = Inr w'"
  shows "\<exists>x y. w' = w\<lparr>ww_bandwidthNewestEstimate := x, ww_bandwidthEstimate := y\<rparr>"
proof (cases "minRtt (ww_rttSampler w) = micros_max")
  case True
  with assms have "w' = w\<lparr>ww_bandwidthNewestEstimate := ww_bandwidthNewestEstimate w,
      ww_bandwidthEstimate := ww_bandwidthEstimate w\<rparr>"
    by (simp add: updateWestwoodBandwidthEstimates_def)
  then show ?thesis by blast
next
  case False
  with assms show ?thesis
    by (auto simp: updateWestwoodBandwidthEstimates_def result_simps Let_def)
qed

lemma ww_measure_frame:
  assumes "ww_measure expf acked now w = Inr w'"
  shows "ww_conn w' = ww_conn w \<and> ww_cwndBytes w' = ww_cwndBytes w \<and> ww_ssthresh w' = ww_ssthresh w \<and>
    ww_endOfRecovery w' = ww_endOfRecovery w \<and> ww_rttSampler w' = ww_rttSampler w"
  using assms
  by (fastforce simp: ww_measure_def Let_def result_simps split: if_split_asm
      dest: updateWestwoodBandwidthEstimates_frame)

lemma ww_increase_inv:
  "settings_of (ww_conn w) = settings_of conn \<Longrightarrow> ww_increase acked w = Inr w' \<Longrightarrow> ww_inv conn w'"
  by (auto simp: ww_increase_def result_simps ww_inv_clamp split: if_splits)

lemma ww_onPacketAcked_inv:
  assumes "ww_inv conn w" and "ww_onPacketAcked expf w pt = Inr w'"
  shows "ww_inv conn w'"
proof -
  obtain packet now where pt: "pt = (packet, now)" by force
  show ?thesis
  proof (cases "case ww_endOfRecovery w of Some t \<Rightarrow> sentTime packet < t | None \<Rightarrow> False")
    case True
    with assms show ?thesis by (simp add: ww_onPacketAcked_def pt)
  next
    case False
    with assms(2) obtain w1 where "ww_measure expf (ucast (encodedSize packet)) now w = Inr w1"
      and "ww_increase (ucast (encodedSize packet)) w1 = Inr w'"
      by (auto simp: ww_onPacketAcked_def pt Let_def result_simps)
    then show ?thesis
      using assms(1) ww_increase_inv [of w1 conn] ww_measure_frame by (simp add: ww_inv_def)
  qed
qed

lemma ww_onAckEvent_inv:
  assumes "ww_inv conn w" and "ww_onAckEvent expf ack nows w = Inr w'"
  shows "ww_inv conn w'"
proof -
  define w1 where "w1 = (case rttSample ack of
      Some rtt \<Rightarrow> w\<lparr>ww_rttSampler := snd (newRttSample rtt (ackTime ack) (ww_rttSampler w)),
                     ww_latestRttSample := rtt\<rparr>
    | None \<Rightarrow> w)"
  have "ww_inv conn w1" using assms(1) by (simp add: w1_def ww_inv_def split: option.split)
  moreover obtain n w2 where
      run: "run_events (ww_onPacketAcked expf) (ww_set_inflight n w1) (with_readings (ackedPackets ack) nows) = Inr w2"
    and w': "w' = w2\<lparr>ww_cwndBytes := clamp (ww_conn w2) (ww_cwndBytes w2)\<rparr>"
    using assms(2) by (auto simp: ww_onAckEvent_def Let_def result_simps w1_def [symmetric])
  ultimately have "ww_inv conn w2"
    using run_events_invariant [where P = "ww_inv conn" and step = "ww_onPacketAcked expf"]
      ww_onPacketAcked_inv by (metis ww_inv_inflight)
  then show ?thesis unfolding w' by (intro ww_inv_clamp) (simp add: ww_inv_def)
qed

lemma ww_enterRecovery_inv:
  "settings_of (ww_conn w) = settings_of conn \<Longrightarrow> ww_enterRecovery now w = Inr w' \<Longrightarrow> ww_inv conn w'"
  using cwnd_bounded_settings [of "ww_conn w" conn] clamp_bounded [of "ww_conn w"]
  by (auto simp: ww_enterRecovery_def result_simps Let_def ww_inv_def)

lemma ww_expireRtt_inv [simp]: "ww_inv conn (ww_expireRtt now w) = ww_inv conn w"
  by (simp add: ww_expireRtt_def ww_inv_def)

lemma ww_collapse_inv: "ww_inv conn w \<Longrightarrow> ww_inv conn (ww_collapse loss w)"
  using ww_inv_clamp [of w conn] by (simp add: ww_collapse_def ww_inv_def)

lemma ww_onPacketLoss_inv:
  assumes "ww_inv conn w" and "ww_onPacketLoss loss t1 t2 w = Inr w'"
  shows "ww_inv conn w'"
proof -
  obtain n w1 w2 fresh where w1: "w1 = ww_expireRtt t1 (ww_set_inflight n w)"
    and w2: "(if fresh then ww_enterRecovery t2 w1 else Inr w1) = Inr w2"
    and w': "w' = ww_collapse loss w2"
    using assms(2) unfolding ww_onPacketLoss_def Let_def result_simps by blast
  have inv1: "ww_inv conn w1" using assms(1) by (simp add: w1)
  have "ww_inv conn w2"
  proof (cases fresh)
    case True
    with w2 have "ww_enterRecovery t2 w1 = Inr w2" by simp
    then show ?thesis
      by (rule ww_enterRecovery_inv [rotated]) (use inv1 in \<open>simp add: ww_inv_def\<close>)
  next
    case False
    with w2 inv1 show ?thesis by simp
  qed
  then show ?thesis unfolding w' by (rule ww_collapse_inv)
qed

lemma ww_onPacketAckOrLoss_inv:
  assumes "ww_inv conn w" and "ww_onPacketAckOrLoss expf w ev = Inr w'"
  shows "ww_inv conn w'"
proof -
  obtain w1 where "(case ev_loss ev of
          Some loss \<Rightarrow> ww_onPacketLoss loss (ev_reset_now ev) (ev_recovery_now ev) w
        | None \<Rightarrow> Inr w) = Inr w1"
    and w': "(case ev_ack ev of
               Some ack \<Rightarrow> (if largestNewlyAckedPacket ack \<noteq> None
                            then ww_onAckEvent expf ack (ev_ack_nows ev) w1 else Inr w1)
             | None \<Rightarrow> Inr w1) = Inr w'"
    using assms(2) by (auto simp: ww_onPacketAckOrLoss_def result_simps)
  then have "ww_inv conn w1"
    using assms(1) by (auto split: option.splits intro: ww_onPacketLoss_inv)
  with w' show ?thesis by (auto split: option.splits if_splits intro: ww_onAckEvent_inv)
qed

section \<open>The controller implements the interface\<close>

lemma ww_getWritableBytes_eq:
  "ww_getWritableBytes w =
     Inr (if inflightBytes (ww_conn w) > ww_cwndBytes w then 0
          else ww_cwndBytes w - inflightBytes (ww_conn w))"
  by (simp add: ww_getWritableBytes_def ww_getCongestionWindow_def subtractAndCheckUnderflow_def)

definition ww_writable :: "westwood \<Rightarrow> u64" where
  "ww_writable w = projr (ww_getWritableBytes w)"

lemma unat_ucast_u16 [simp]: "unat (ucast (n :: u16) :: u64) = unat n"
  by (simp add: unsigned_ucast_eq take_bit_nat_eq_self_iff less_le_trans [OF unat_bound])

lemma ww_onPacketSent_iff:
  "ww_onPacketSent w n = Inr w' \<longleftrightarrow> unat (inflightBytes (ww_conn w)) + unat n < 2 ^ 64 \<and>
     w' = ww_set_inflight (inflightBytes (ww_conn w) + ucast n) w"
  by (auto simp: ww_onPacketSent_def result_simps addAndCheckOverflow_iff)

lemma ww_onRemoveBytesFromInflight_iff:
  "ww_onRemoveBytesFromInflight w k = Inr w' \<longleftrightarrow> k \<le> inflightBytes (ww_conn w) \<and>
     w' = ww_set_inflight (inflightBytes (ww_conn w) - k) w"
  by (auto simp: ww_onRemoveBytesFromInflight_def result_simps subtractAndCheckUnderflow_iff)

lemmas ww_flight_simps =
  ww_onPacketSent_iff ww_onRemoveBytesFromInflight_iff ww_getBytesInFlight_def
  ww_getCongestionWindow_def ww_set_inflight_def

interpretation ww: congestion_controller ww_onPacketSent ww_onRemoveBytesFromInflight
    "ww_onPacketAckOrLoss expf" ww_writable ww_getCongestionWindow ww_getBytesInFlight "ww_inv conn"
  for expf conn
proof (unfold_locales, goal_cases)
  case (2 c n c')
  then show ?case by (auto simp: ww_flight_simps intro!: unat_add_no_overflow [THEN trans])
next
  case (4 c n c')
  then show ?case by (auto simp: ww_onPacketSent_iff)
next
  case (6 c k c')
  then show ?case by (auto simp: ww_flight_simps unat_sub word_le_nat_alt)
next
  case (8 c k c')
  then show ?case by (auto simp: ww_onRemoveBytesFromInflight_iff)
next
  case (9 c v c')
  then show ?case by (rule ww_onPacketAckOrLoss_inv)
next
  case (10 c)
  then show ?case
    by (auto simp: ww_writable_def ww_getWritableBytes_eq ww_getCongestionWindow_def
        ww_getBytesInFlight_def unat_sub word_less_nat_alt word_le_nat_alt not_less)
qed (auto simp: ww_flight_simps)

section \<open>The low-pass filter\<close>

lemma westwoodCoef_range:
  assumes "\<And>x. 0 \<le> expf x"
  shows "0 \<le> westwoodCoef expf step \<and> westwoodCoef expf step \<le> 3 / 4"
proof -
  define y where "y = fl32 (1 + expf (- fl32 (fl32 (fl32 (of_u32 step) - 16) / 1)))"
  have three_quarters: "fl32 (3 / 4) = 3 / 4"
    using fl_exact [of 3 24 "- 2"] by (simp add: power_int_minus)
  have "fl32 1 \<le> y"
    unfolding y_def using assms by (intro fl_mono) auto
  then have y: "1 \<le> y" by simp
  then have "fl32 (1 / y) \<le> fl32 1" by (intro fl_mono) auto
  then have sig: "0 \<le> fl32 (1 / y)" "fl32 (1 / y) \<le> 1"
    using y by (auto intro: fl_nonneg)
  have c: "westwoodCoef expf step = fl32 (fl32 (1 / y) * (3 / 4))"
    by (simp add: westwoodCoef_def y_def three_quarters)
  have "fl32 (fl32 (1 / y) * (3 / 4)) \<le> fl32 (3 / 4)"
    using sig by (intro fl_mono) auto
  then show ?thesis
    using sig by (auto simp: c three_quarters intro!: fl_nonneg)
qed

lemma westwoodCoef_float: "fl32 (westwoodCoef expf step) = westwoodCoef expf step"
  by (simp add: westwoodCoef_def fl_idem Let_def)

lemma westwoodLowPassFilter_mix:
  "westwoodLowPassFilter expf step a b =
     to_u32 (mix32 (westwoodCoef expf step) (fl32 (of_u32 a)) (fl32 (of_u32 b)))"
  by (simp add: westwoodLowPassFilter_def mix32_def Let_def)

text \<open>An average of two values of one binade range converts to an integer of that range.\<close>

lemma to_u32_between:
  assumes "2 ^ j \<le> x" and "x \<le> 2 ^ k" and "k < 32"
  shows "\<exists>r. to_u32 x = Some r \<and> 2 ^ j \<le> unat r \<and> unat r \<le> 2 ^ k"
proof -
  have "(2 :: rat) ^ k < 2 ^ 32" using assms(3) by (rule power_strict_increasing) simp
  then have x32: "x < 2 ^ 32" and x0: "0 \<le> x"
    using assms(1,2) zero_le_power [of "2 :: rat" j] by linarith+
  have lo: "2 ^ j \<le> \<lfloor>x\<rfloor>" using assms(1) by (simp add: le_floor_iff)
  have hi: "\<lfloor>x\<rfloor> \<le> 2 ^ k"
    using floor_mono [OF assms(2)] by (metis floor_of_int of_int_numeral of_int_power)
  have "nat \<lfloor>x\<rfloor> < 2 ^ 32" by (rule nat_floor_less [OF x0 x32])
  then have "unat (of_nat (nat \<lfloor>x\<rfloor>) :: u32) = nat \<lfloor>x\<rfloor>" by (simp add: unat_of_nat)
  moreover have "2 ^ j \<le> nat \<lfloor>x\<rfloor>" and "nat \<lfloor>x\<rfloor> \<le> 2 ^ k"
    using lo hi x0 by (simp_all add: nat_le_iff le_nat_iff)
  ultimately show ?thesis using x0 x32 by (simp add: to_u32_def to_unsigned_def)
qed

lemma fl32_u32_between:
  assumes "2 ^ j \<le> unat (a :: u32)" and "unat a \<le> 2 ^ k"
  shows "2 powi int j \<le> fl32 (of_u32 a) \<and> fl32 (of_u32 a) \<le> 2 powi int k"
proof -
  have "(2 :: rat) powi int j \<le> of_u32 a" and "of_u32 a \<le> (2 :: rat) powi int k"
    using assms by (metis of_nat_le_iff of_nat_numeral of_nat_power power_int_of_nat)+
  then have "fl32 (2 powi int j) \<le> fl32 (of_u32 a)" and "fl32 (of_u32 a) \<le> fl32 (2 powi int k)"
    by (blast intro: fl_mono zero_less_numeral)+
  then show ?thesis by simp
qed

lemma filter_between:
  assumes "0 \<le> c" "c \<le> 1" "fl32 c = c"
    and "2 ^ j \<le> unat a" "unat a \<le> 2 ^ k" "2 ^ j \<le> unat b" "unat b \<le> 2 ^ k" "k < 32"
  shows "\<exists>r. to_u32 (mix32 c (fl32 (of_u32 a)) (fl32 (of_u32 b))) = Some r \<and>
           2 ^ j \<le> unat r \<and> unat r \<le> 2 ^ k"
proof -
  have "2 powi int j \<le> mix32 c (fl32 (of_u32 a)) (fl32 (of_u32 b)) \<and>
      mix32 c (fl32 (of_u32 a)) (fl32 (of_u32 b)) \<le> 2 powi int k"
    using fl32_u32_between [OF assms(4,5)] fl32_u32_between [OF assms(6,7)] assms(1-3)
    by (intro mix32_between) auto
  then show ?thesis using to_u32_between [OF _ _ assms(8)] by simp
qed

lemma filter_upper:
  assumes "0 \<le> c" "c \<le> 1" "fl32 c = c" "unat a \<le> 2 ^ k" "unat b \<le> 2 ^ k" "k < 32"
  shows "\<exists>r. to_u32 (mix32 c (fl32 (of_u32 a)) (fl32 (of_u32 b))) = Some r \<and> unat r \<le> 2 ^ k"
proof -
  define x where "x = mix32 c (fl32 (of_u32 a)) (fl32 (of_u32 b))"
  have up: "fl32 (of_u32 v) \<le> 2 powi int k" if "unat v \<le> 2 ^ k" for v :: u32
  proof -
    have "of_u32 v \<le> (2 :: rat) powi int k"
      using that by (metis of_nat_le_iff of_nat_numeral of_nat_power power_int_of_nat)
    then have "fl32 (of_u32 v) \<le> fl32 (2 powi int k)" by (intro fl_mono) auto
    then show ?thesis by simp
  qed
  have pos: "0 \<le> fl32 (of_u32 v)" for v :: u32
    by (intro fl_nonneg) (simp only: of_nat_0_le_iff)
  have x0: "0 \<le> x"
    unfolding x_def by (rule mix32_nonneg [OF assms(1,2) pos pos])
  have xk: "x \<le> 2 ^ k"
    using mix32_upper [OF assms(1-3) pos up [OF assms(4)] pos up [OF assms(5)]] by (simp add: x_def)
  have "(2 :: rat) ^ k < 2 ^ 32" using assms(6) by (rule power_strict_increasing) simp
  then have x32: "x < 2 ^ 32" using xk by linarith
  have "\<lfloor>x\<rfloor> \<le> 2 ^ k"
    using floor_mono [OF xk] by (metis floor_of_int of_int_numeral of_int_power)
  then have "nat \<lfloor>x\<rfloor> \<le> 2 ^ k" by (simp add: nat_le_iff)
  moreover have "unat (of_nat (nat \<lfloor>x\<rfloor>) :: u32) = nat \<lfloor>x\<rfloor>"
    using nat_floor_less [OF x0 x32] by (simp add: unat_of_nat)
  ultimately show ?thesis
    unfolding x_def [symmetric] using x0 x32 by (simp add: to_u32_def to_unsigned_def)
qed

section \<open>Bandwidth estimates stay convertible\<close>

lemma rawBandwidth_bound:
  assumes "unat bytes \<le> 100000000" and "50000 \<le> unat delta"
  shows "\<exists>x. rawBandwidth bytes delta = Some x \<and> 0 \<le> x \<and> x \<le> 2 ^ 31"
proof -
  have "(of_u64 bytes :: rat) \<le> 100000000"
    using assms(1) by (metis of_nat_le_iff of_nat_numeral)
  then have "fl64 (of_u64 bytes) \<le> fl64 100000000" by (intro fl_mono) auto
  then have b: "fl64 (of_u64 bytes) \<le> 100000000" by (simp add: fl_numeral)
  have b0: "0 \<le> fl64 (of_u64 bytes)" by (intro fl_nonneg) (simp only: of_nat_0_le_iff)
  have "(50000 :: rat) \<le> of_u32 delta"
    using assms(2) by (metis of_nat_le_iff of_nat_numeral)
  then have "fl64 (3 / 64) \<le> fl64 (of_u32 delta / 1000000)" by (intro fl_mono) auto
  moreover have "fl64 (3 / 64) = 3 / 64"
    using fl_exact [of 3 53 "- 6"] by (simp add: power_int_minus)
  ultimately have d: "3 / 64 \<le> fl64 (of_u32 delta / 1000000)" by simp
  have "fl64 (of_u64 bytes) / fl64 (of_u32 delta / 1000000) \<le> 100000000 / (3 / 64)"
    using b b0 d by (intro frac_le) auto
  also have "\<dots> \<le> 2 ^ 31" by simp
  finally have "fl64 (fl64 (of_u64 bytes) / fl64 (of_u32 delta / 1000000)) \<le> fl64 (2 ^ 31)"
    by (intro fl_mono) auto
  moreover have "0 \<le> fl64 (fl64 (of_u64 bytes) / fl64 (of_u32 delta / 1000000))"
    by (intro fl_nonneg divide_nonneg_nonneg) auto
  moreover have "delta \<noteq> 0" using assms(2) by auto
  ultimately show ?thesis by (simp add: rawBandwidth_def fl_numeral)
qed

lemma to_word_bound:
  assumes "0 \<le> x" and "x \<le> 2 ^ 31"
  shows "\<exists>r. to_u32 x = Some r \<and> unat r \<le> 2 ^ 31" and "\<exists>r. to_u64 x = Some r \<and> unat r \<le> 2 ^ 31"
proof -
  have x32: "x < 2 ^ 32" and x64: "x < 2 ^ 64" using assms(2) by simp_all
  have fl: "\<lfloor>x\<rfloor> \<le> 2 ^ 31"
    using floor_mono [OF assms(2)] by (metis floor_of_int of_int_numeral of_int_power)
  then have n: "nat \<lfloor>x\<rfloor> \<le> 2 ^ 31" by (simp add: nat_le_iff)
  have "unat (of_nat (nat \<lfloor>x\<rfloor>) :: u32) = nat \<lfloor>x\<rfloor>"
    using nat_floor_less [OF assms(1) x32] by (simp add: unat_of_nat)
  then show "\<exists>r. to_u32 x = Some r \<and> unat r \<le> 2 ^ 31"
    using assms(1) x32 n by (simp add: to_u32_def to_unsigned_def)
  have "unat (of_nat (nat \<lfloor>x\<rfloor>) :: u64) = nat \<lfloor>x\<rfloor>"
    using nat_floor_less [OF assms(1) x64] by (simp add: unat_of_nat)
  then show "\<exists>r. to_u64 x = Some r \<and> unat r \<le> 2 ^ 31"
    using assms(1) x64 n by (simp add: to_u64_def to_unsigned_def)
qed

lemma unat_ucast_small:
  assumes "unat (x :: u64) \<le> 2 ^ 31"
  shows "unat (ucast x :: u32) = unat x"
  using assms by (simp add: unsigned_ucast_eq take_bit_nat_eq_self_iff)

lemma unat_ucast_u32 [simp]: "unat (ucast (n :: u32) :: u64) = unat n"
  by (simp add: unsigned_ucast_eq take_bit_nat_eq_self_iff less_le_trans [OF unat_bound])

lemma westwoodLowPassFilter_upper:
  assumes "\<And>x. 0 \<le> expf x" and "unat a \<le> 2 ^ k" "unat b \<le> 2 ^ k" "k < 32"
  shows "\<exists>r. westwoodLowPassFilter expf step a b = Some r \<and> unat r \<le> 2 ^ k"
  unfolding westwoodLowPassFilter_mix
  using westwoodCoef_range [of expf step, OF assms(1)] westwoodCoef_float assms(2-4)
  by (intro filter_upper) auto

lemma newest_estimate_bound:
  assumes "\<And>x. 0 \<le> expf x" and "0 \<le> raw" "raw \<le> 2 ^ 31" and "unat newest \<le> 2 ^ 31"
  shows "\<exists>r. (if c then option_to_result (to_u64 raw)
             else bind_result (option_to_result (to_u32 raw)) (\<lambda>b.
                  map_sum id ucast (option_to_result (westwoodLowPassFilter expf step newest b)))) = Inr r
           \<and> unat (r :: u64) \<le> 2 ^ 31"
proof (cases c)
  case True
  then show ?thesis using to_word_bound(2) [OF assms(2,3)] by auto
next
  case False
  obtain b where b: "to_u32 raw = Some b" "unat b \<le> 2 ^ 31" using to_word_bound(1) [OF assms(2,3)] by auto
  obtain r where "westwoodLowPassFilter expf step newest b = Some r" "unat r \<le> 2 ^ 31"
    using westwoodLowPassFilter_upper [of expf newest 31 b step] assms(1,4) b by auto
  then show ?thesis using False b by simp
qed

lemma estimates_bound:
  assumes "\<And>x. 0 \<le> expf x"
    and "unat (ww_bytesAckedInCurrentInterval w) \<le> 100000000" and "50000 \<le> unat delta"
    and "unat (ww_bandwidthNewestEstimate w) \<le> 2 ^ 31" and "unat (ww_bandwidthEstimate w) \<le> 2 ^ 31"
  shows "\<exists>w'. updateWestwoodBandwidthEstimates expf delta w = Inr w' \<and>
           unat (ww_bandwidthNewestEstimate w') \<le> 2 ^ 31 \<and> unat (ww_bandwidthEstimate w') \<le> 2 ^ 31"
proof (cases "minRtt (ww_rttSampler w) = micros_max")
  case True
  then show ?thesis using assms by (simp add: updateWestwoodBandwidthEstimates_def)
next
  case False
  obtain raw where raw: "rawBandwidth (ww_bytesAckedInCurrentInterval w) delta = Some raw"
      "0 \<le> raw" "raw \<le> 2 ^ 31"
    using rawBandwidth_bound [OF assms(2,3)] by auto
  obtain r where r: "(if ww_bandwidthNewestEstimate w = 0 \<and> ww_bandwidthEstimate w = 0
           then option_to_result (to_u64 raw)
           else bind_result (option_to_result (to_u32 raw)) (\<lambda>b.
                map_sum id ucast (option_to_result
                  (westwoodLowPassFilter expf (ww_step w) (ww_bandwidthNewestEstimate w) b)))) = Inr r"
      "unat r \<le> 2 ^ 31"
    using newest_estimate_bound [where expf = expf, OF assms(1) raw(2,3) assms(4)] by blast
  have u: "unat (ucast r :: u32) \<le> 2 ^ 31" using r(2) unat_ucast_small by simp
  obtain bw where bw: "westwoodLowPassFilter expf (ww_step w) (ww_bandwidthEstimate w) (ucast r) = Some bw"
      "unat bw \<le> 2 ^ 31"
    using westwoodLowPassFilter_upper [of expf "ww_bandwidthEstimate w" 31 "ucast r" "ww_step w"]
      assms(1,5) u by auto
  show ?thesis
    using False u bw unfolding updateWestwoodBandwidthEstimates_def raw(1) option_to_result.simps
      bind_result.simps r(1) Let_def by simp
qed

section \<open>Reaction to a loss\<close>

text \<open>With an expired sampler, \<open>rttMin\<close> is \<open>microseconds::max()\<close> when the pipe is computed.\<close>

lemma pipe_max_rtt_seconds:
  "fl64 (fl64 (of_u64 (word_of_int micros_max)) / 1000000) = 4722366482869645 / 512"
proof -
  have "fl64 (of_u64 (word_of_int micros_max)) = 2 ^ 63"
    unfolding micros_max_def
    by (subst fl_at [where e = 62]) (simp_all add: round_even_eval)
  then show ?thesis
    by (simp only:) (subst fl_at [where e = 43]; simp add: round_even_eval power_int_minus)
qed

lemma ww_pipeSize_max_rtt:
  "ww_pipeSize bw micros_max = to_u64 (fl64 (of_u32 bw * (4722366482869645 / 512)))"
  by (simp only: ww_pipeSize_def pipe_max_rtt_seconds)

lemma ww_pipeSize_expired_huge:
  assumes "1 \<le> unat bw" and "unat bw \<le> 1999999"
  shows "\<exists>pipe. ww_pipeSize bw micros_max = Some pipe \<and> 2 ^ 43 \<le> unat pipe"
proof -
  define y where "y = fl64 (of_u32 bw * (4722366482869645 / 512))"
  have b: "(1 :: rat) \<le> of_u32 bw" "(of_u32 bw :: rat) \<le> 1999999"
    using assms by (metis of_nat_1 of_nat_le_iff of_nat_numeral)+
  have "(of_u32 bw * (4722366482869645 / 512) :: rat) \<le> (2 ^ 51 - 1) * 2 ^ 13"
    using b by simp
  moreover have "(2 ^ 43 :: rat) \<le> of_u32 bw * (4722366482869645 / 512)" using b by simp
  ultimately have "fl64 (2 ^ 43) \<le> y" and "y \<le> fl64 ((2 ^ 51 - 1) * 2 ^ 13)"
    unfolding y_def by (intro fl_mono; simp)+
  moreover have "fl64 ((2 ^ 51 - 1) * 2 ^ 13) = (2 ^ 51 - 1) * 2 ^ 13"
    using fl_exact [of "2 ^ 51 - 1" 53 13] by simp
  ultimately have y: "2 ^ 43 \<le> y" "y < 2 ^ 64" by (simp_all add: fl_numeral)
  have "2 ^ 43 \<le> \<lfloor>y\<rfloor>" using y(1) by (simp add: le_floor_iff)
  then have "2 ^ 43 \<le> nat \<lfloor>y\<rfloor>" by (simp add: le_nat_iff)
  moreover have "unat (of_nat (nat \<lfloor>y\<rfloor>) :: u64) = nat \<lfloor>y\<rfloor>"
    by (rule unat_of_nat_small) (use nat_floor_less [of y 64] y in simp)
  ultimately show ?thesis
    unfolding ww_pipeSize_max_rtt y_def [symmetric] using y by (simp add: to_u64_def to_unsigned_def)
qed

lemma ww_pipeSize_expired_undefined:
  assumes "2000000 \<le> unat bw"
  shows "ww_pipeSize bw micros_max = None"
proof -
  have "(2000000 :: rat) \<le> of_u32 bw" using assms by (metis of_nat_le_iff of_nat_numeral)
  then have "fl64 (2000000 * (4722366482869645 / 512)) \<le> fl64 (of_u32 bw * (4722366482869645 / 512))"
    by (intro fl_mono) auto
  moreover have "fl64 (2000000 * (4722366482869645 / 512)) = 2 ^ 64"
    by (subst fl_at [where e = 63]) (simp_all add: round_even_eval)
  ultimately show ?thesis
    unfolding ww_pipeSize_max_rtt by (simp add: to_u64_def to_unsigned_def)
qed

lemma ww_onPacketLoss_fresh:
  assumes "lostBytes loss \<le> inflightBytes (ww_conn w)"
    and "ww_newLoss w loss = Inr True" and "\<not> persistentCongestion loss"
  shows "ww_onPacketLoss loss t1 t2 w =
    ww_enterRecovery t2 (ww_expireRtt t1 (ww_set_inflight (inflightBytes (ww_conn w) - lostBytes loss) w))"
proof -
  have "ww_newLoss (ww_expireRtt t1 (ww_set_inflight n w)) loss = ww_newLoss w loss" for n
    by (simp add: ww_newLoss_def ww_expireRtt_def ww_set_inflight_def)
  moreover have "\<not> inflightBytes (ww_conn w) < lostBytes loss" using assms(1) by simp
  ultimately show ?thesis
    using assms(2,3)
    by (cases "ww_enterRecovery t2 (ww_expireRtt t1 (ww_set_inflight (inflightBytes (ww_conn w) - lostBytes loss) w))")
      (simp_all add: ww_onPacketLoss_def subtractAndCheckUnderflow_def Let_def ww_collapse_def)
qed

section \<open>Properties\<close>

text \<open>
  C4. Whatever the transport does, from the constructor on: after every sequence of sent,
  removed, acknowledged and lost packets that the controller survives, its congestion
  window lies between \<open>minCwndInMss\<close> and \<open>maxCwndInMss\<close> packets (the larger of the two
  if they are crossed).
\<close>

theorem westwood_window_bounded:
  assumes "run_events (cc_step ww_onPacketSent ww_onRemoveBytesFromInflight (ww_onPacketAckOrLoss expf))
             (newWestwood now conn) calls = Inr w"
  shows "cwnd_floor conn \<le> ww_getCongestionWindow w \<and> ww_getCongestionWindow w \<le> cwnd_ceiling conn"
proof -
  have "ww_inv conn w" by (rule ww.run_invar [OF ww_inv_new assms])
  then show ?thesis by (simp add: ww_inv_def cwnd_bounded_def ww_getCongestionWindow_def)
qed

definition sample_conn :: conn_state where
  "sample_conn =
     \<lparr>udpSendPacketLen = 1232, inflightBytes = 0, initCwndInMss = 10, minCwndInMss = 2,
      maxCwndInMss = 2000, pacingTickInterval = 1000, minBurstPackets = 5,
      writeConnectionDataPacketsLimit = 5\<rparr>"

definition sample_ack :: ack_event where
  "sample_ack =
     \<lparr>ackTime = 30000000, ackedBytes = 1200, largestNewlyAckedPacket = Some 1, rttSample = Some 30000,
      ackedPackets = [\<lparr>packetNum = 1, sentTime = 0, encodedSize = 1200,
                       receiveRelativeTimeStampUsec = Some 500\<rparr>]\<rparr>"

definition sample_loss :: loss_event where
  "sample_loss =
     \<lparr>largestLostPacketNum = Some 2, lostPacketNumbers = [2], lostBytes = 1000, lostPackets = 1,
      lossTime = 40000000, largestLostSentTime = Some 1000, smallestLostSentTime = Some 1000,
      persistentCongestion = False\<rparr>"

definition sample_calls :: "cc_event cc_call list" where
  "sample_calls =
     [Sent 1200, Sent 1000, Sent 700,
      Ack_or_loss \<lparr>ev_ack = Some sample_ack, ev_ack_nows = (\<lambda>_. 30000000), ev_loss = None,
                   ev_reset_now = 0, ev_recovery_now = 0\<rparr>,
      Ack_or_loss \<lparr>ev_ack = None, ev_ack_nows = (\<lambda>_. 0), ev_loss = Some sample_loss,
                   ev_reset_now = 40000000, ev_recovery_now = 40000001\<rparr>,
      Removed 700]"

lemmas sample_defs = sample_conn_def sample_ack_def sample_loss_def sample_calls_def

lemmas ww_eval =
  ww_onPacketSent_def ww_onRemoveBytesFromInflight_def ww_onPacketAckOrLoss_def ww_onAckEvent_def
  ww_onPacketLoss_def ww_onPacketAcked_def ww_measure_def ww_increase_def ww_set_inflight_def
  ww_expireRtt_def ww_newLoss_def ww_enterRecovery_def ww_collapse_def with_readings_def
  newWestwood_def newRttSampler_def newRttSample_def resetRttSample_def nanos_to_micros_def
  addAndCheckOverflow_def subtractAndCheckUnderflow_def boundedCwnd_def micros_max_def
  ww_pipeSize_def to_u64_def to_unsigned_def kWestwoodMinRttMicroseconds_def
  kWestwoodInitialRttMicroseconds_def kWestwoodRttExpirationSeconds_def Let_def

theorem westwood_window_bounded_witness:
  "\<exists>w. run_events (cc_step ww_onPacketSent ww_onRemoveBytesFromInflight (ww_onPacketAckOrLoss (\<lambda>_. 1)))
         (newWestwood 0 sample_conn) sample_calls = Inr w \<and>
       cwnd_floor sample_conn \<le> ww_getCongestionWindow w \<and>
       ww_getCongestionWindow w \<le> cwnd_ceiling sample_conn \<and> ww_getCongestionWindow w = 2464"
proof -
  obtain w where w: "run_events (cc_step ww_onPacketSent ww_onRemoveBytesFromInflight (ww_onPacketAckOrLoss (\<lambda>_. 1)))
         (newWestwood 0 sample_conn) sample_calls = Inr w" "ww_cwndBytes w = 2464"
    by (simp add: sample_defs ww_eval)
  show ?thesis
    using westwood_window_bounded [OF w(1)] w by (auto simp: ww_getCongestionWindow_def)
qed



text \<open>
  C14. The bandwidth estimator never leaves the range of its integer conversions while no
  more than 100 MB are acknowledged per interval (intervals are longer than 50 ms) and
  the estimates are at most \<open>2 ^ 31\<close> bytes per second: it returns, and both estimates
  stay at most \<open>2 ^ 31\<close>.
\<close>

theorem westwood_estimates_bounded:
  assumes "\<And>x. 0 \<le> expf x"
    and "unat (ww_bytesAckedInCurrentInterval w) \<le> 100000000" and "50000 \<le> unat delta"
    and "unat (ww_bandwidthNewestEstimate w) \<le> 2 ^ 31" and "unat (ww_bandwidthEstimate w) \<le> 2 ^ 31"
  shows "\<exists>w'. updateWestwoodBandwidthEstimates expf delta w = Inr w' \<and>
           unat (ww_bandwidthNewestEstimate w') \<le> 2 ^ 31 \<and> unat (ww_bandwidthEstimate w') \<le> 2 ^ 31"
  by (rule estimates_bound [OF assms])

definition sample_westwood :: westwood where
  "sample_westwood = (newWestwood 0 sample_conn)
     \<lparr>ww_bandwidthNewestEstimate := 1000000, ww_bandwidthEstimate := 900000,
      ww_bytesAckedInCurrentInterval := 50000, ww_step := 20,
      ww_conn := sample_conn\<lparr>inflightBytes := 5000\<rparr>,
      ww_rttSampler := \<lparr>expiration = 20, minRtt = 40000, minRttTimestamp = Some 0, rttExpired = False\<rparr>\<rparr>"

lemmas sample_westwood_defs = sample_westwood_def newWestwood_def newRttSampler_def

theorem westwood_estimates_bounded_witness:
  "\<exists>w'. updateWestwoodBandwidthEstimates (\<lambda>_. 1) 60000 sample_westwood = Inr w' \<and>
        unat (ww_bandwidthNewestEstimate w') \<le> 2 ^ 31 \<and> unat (ww_bandwidthEstimate w') \<le> 2 ^ 31"
  by (rule westwood_estimates_bounded) (simp_all add: sample_westwood_defs)





lemma unat_addition_factor:
  assumes "cwnd \<noteq> 0"
  shows "unat ((kDefaultUDPSendPacketLen * ucast (n :: u16)) div cwnd) = (1232 * unat n) div unat cwnd"
proof -
  have "unat n < 2 ^ 16" using unat_bound [of n] by simp
  then have "unat (kDefaultUDPSendPacketLen * ucast n) = 1232 * unat n"
    by (subst unat_mult_no_overflow) (simp_all add: kDefaultUDPSendPacketLen_def)
  then show ?thesis by (simp add: unat_div)
qed

text \<open>
  C26. Acknowledgements never make the controller throw or divide by zero while the window
  is inside its bounds, the lower bound is positive and the upper one at most \<open>2 ^ 63\<close>:
  the window grows by exactly the acked bytes in slow start and by
  \<open>1232 * acked / cwnd\<close> otherwise, before the clamp; in congestion avoidance that is at
  most one full packet for a packet no larger than the window.
\<close>

theorem westwood_increase_exact:
  assumes "cwnd_bounded (ww_conn w) (ww_cwndBytes w)"
    and "0 < cwnd_floor (ww_conn w)" and "unat (cwnd_ceiling (ww_conn w)) \<le> 2 ^ 63"
  shows "\<exists>w' growth. ww_increase (ucast (n :: u16)) w = Inr w' \<and>
           ww_cwndBytes w' = clamp (ww_conn w) (ww_cwndBytes w + growth) \<and>
           unat (ww_cwndBytes w + growth) = unat (ww_cwndBytes w) + unat growth \<and>
           (if ww_inSlowStart w then unat growth = unat n
            else unat growth = 1232 * unat n div unat (ww_cwndBytes w) \<and>
                 (unat n \<le> unat (ww_cwndBytes w) \<longrightarrow> unat growth \<le> 1232))"
proof -
  define g :: u64 where
    "g = (if ww_inSlowStart w then ucast n else (kDefaultUDPSendPacketLen * ucast n) div ww_cwndBytes w)"
  have pos: "ww_cwndBytes w \<noteq> 0"
    using assms(1,2) unfolding cwnd_bounded_def by (auto dest: leD)
  then have pos': "0 < unat (ww_cwndBytes w)" by (simp add: unat_gt_0)
  have n16: "unat n < 65536" using unat_bound [of n] by simp
  have "1232 * unat n div unat (ww_cwndBytes w) < 4294967296"
    using div_le_dividend [of "1232 * unat n" "unat (ww_cwndBytes w)"] n16 by linarith
  then have small: "unat g < 2 ^ 32"
    using n16 unat_addition_factor [OF pos, of n] by (simp add: g_def)
  have "ww_cwndBytes w \<le> cwnd_ceiling (ww_conn w)" using assms(1) by (simp add: cwnd_bounded_def)
  then have fit: "unat (ww_cwndBytes w) + unat g < 2 ^ 64"
    using assms(3) small by (simp add: word_le_nat_alt)
  then have add: "addAndCheckOverflow (ww_cwndBytes w) g = Inr (ww_cwndBytes w + g)"
    by (simp only: addAndCheckOverflow_iff simp_thms)
  have "1232 * unat n div unat (ww_cwndBytes w) \<le> 1232" if "unat n \<le> unat (ww_cwndBytes w)"
    using div_le_mono [of "1232 * unat n" "1232 * unat (ww_cwndBytes w)" "unat (ww_cwndBytes w)"] that pos' by simp
  then show ?thesis
    using add fit pos unat_addition_factor [OF pos, of n] unat_add_no_overflow [of "ww_cwndBytes w" g]
    by (intro exI [of _ "w\<lparr>ww_cwndBytes := clamp (ww_conn w) (ww_cwndBytes w + g)\<rparr>"] exI [of _ g])
      (auto simp: ww_increase_def ww_inSlowStart_def g_def)
qed

theorem westwood_increase_exact_witness:
  "\<exists>w' growth. ww_increase (ucast (1200 :: u16)) (newWestwood 0 sample_conn) = Inr w' \<and>
     ww_cwndBytes w' = clamp sample_conn (12320 + growth) \<and> unat growth = 1200"
proof -
  have "ww_cwndBytes (newWestwood 0 sample_conn) = 12320" "ww_conn (newWestwood 0 sample_conn) = sample_conn"
    "ww_inSlowStart (newWestwood 0 sample_conn)"
    by (simp_all add: newWestwood_def sample_conn_def boundedCwnd_def ww_inSlowStart_def)
  moreover have "cwnd_bounded sample_conn 12320" "0 < cwnd_floor sample_conn" "unat (cwnd_ceiling sample_conn) \<le> 2 ^ 63"
    by (simp_all add: sample_conn_def cwnd_bounded_def cwnd_floor_def cwnd_ceiling_def)
  ultimately show ?thesis
    using westwood_increase_exact [of "newWestwood 0 sample_conn" "1200 :: u16"] by auto
qed

end
