(* ===== verification/Westwood_OWD.thy ===== *)
theory Westwood_OWD
  imports Westwood_Plus
begin

text \<open>
  The Westwood+ variant with delay control, \<open>quic/congestion_control/WestwoodOWD.h\<close> and
  \<open>WestwoodOWD.cpp\<close>. Beside the RTT sampler and the bandwidth estimator (here with a
  fixed gain) it follows the one-way delay of the packets from their send times and the
  receive times the peer reports, and reduces the window when the delay grows past a
  fraction of the observed RTT range. Signed 64-bit arithmetic that leaves its range is
  \<open>Undefined_behaviour\<close>. Printing and logging are left out.
\<close>

section \<open>The RTT sampler\<close>

record owd_rtt_sampler =
  os_expiration :: int
  os_minRtt :: micros
  os_maxRttSinceLastLoss :: micros
  os_minRttTimestamp :: "time_point option"
  os_rttExpired :: bool

definition newOwdRttSampler :: "int \<Rightarrow> owd_rtt_sampler" where
  "newOwdRttSampler seconds =
     \<lparr>os_expiration = seconds, os_minRtt = micros_max, os_maxRttSinceLastLoss = 0,
      os_minRttTimestamp = None, os_rttExpired = True\<rparr>"

definition owd_maxRtt :: "owd_rtt_sampler \<Rightarrow> micros \<times> owd_rtt_sampler" where
  "owd_maxRtt rs = (os_maxRttSinceLastLoss rs, rs\<lparr>os_maxRttSinceLastLoss := 0\<rparr>)"

definition owd_newRttSample :: "micros \<Rightarrow> time_point \<Rightarrow> owd_rtt_sampler \<Rightarrow> owd_rtt_sampler" where
  "owd_newRttSample sample sampledTime rs =
     (let expired = (case os_minRttTimestamp rs of
                       Some t \<Rightarrow> sampledTime > t + os_expiration rs * 1000000000
                     | None \<Rightarrow> False);
          rs1 = rs\<lparr>os_rttExpired := expired\<rparr>;
          rs2 = (if expired \<or> sample < os_minRtt rs1
                 then rs1\<lparr>os_minRtt := sample, os_minRttTimestamp := Some sampledTime\<rparr> else rs1)
      in if sample > os_maxRttSinceLastLoss rs2 then rs2\<lparr>os_maxRttSinceLastLoss := sample\<rparr> else rs2)"

definition owd_resetRttSample :: "time_point \<Rightarrow> owd_rtt_sampler \<Rightarrow> owd_rtt_sampler" where
  "owd_resetRttSample sampledTime rs =
     rs\<lparr>os_minRtt := micros_max, os_minRttTimestamp := Some sampledTime, os_rttExpired := True\<rparr>"

section \<open>State and constructor\<close>

definition kWestwoodOWDMinRttMicroseconds :: u64 where
  "kWestwoodOWDMinRttMicroseconds = 50000"

definition kWestwoodOWDInitialRttMicroseconds :: micros where
  "kWestwoodOWDInitialRttMicroseconds = 20000000"

definition kWestwoodOWDRttExpirationSeconds :: int where
  "kWestwoodOWDRttExpirationSeconds = 20"

text \<open>\<open>steady_clock::time_point::min()\<close>, the mark of "no packet yet".\<close>

definition time_point_min :: time_point where
  "time_point_min = - (2 ^ 63)"

record westwood_owd =
  ow_conn :: conn_state
  ow_rttWindowStartTime :: time_point
  ow_latestRttSample :: micros
  ow_bandwidthNewestEstimate :: u32
  ow_bandwidthEstimate :: u32
  ow_step :: u32
  ow_bytesAckedInCurrentInterval :: u64
  ow_ssthresh :: u64
  ow_rttSampler :: owd_rtt_sampler
  ow_cwndBytes :: u64
  ow_latestSendTimeStamp :: time_point
  ow_latestReceiveTimeStamp :: u64
  ow_interDeparture :: int
  ow_interArrival :: int
  ow_owdv :: int
  ow_owd :: int
  ow_lossMaxRtt :: micros
  ow_endOfRecovery :: "time_point option"

definition newWestwoodOWD :: "time_point \<Rightarrow> conn_state \<Rightarrow> westwood_owd" where
  "newWestwoodOWD now conn =
     \<lparr>ow_conn = conn,
      ow_rttWindowStartTime = now,
      ow_latestRttSample = kWestwoodOWDInitialRttMicroseconds,
      ow_bandwidthNewestEstimate = 0,
      ow_bandwidthEstimate = 0,
      ow_step = 0,
      ow_bytesAckedInCurrentInterval = 0,
      ow_ssthresh = u64_max,
      ow_rttSampler = newOwdRttSampler kWestwoodOWDRttExpirationSeconds,
      ow_cwndBytes = clamp conn (initCwndInMss conn * udpSendPacketLen conn),
      ow_latestSendTimeStamp = time_point_min,
      ow_latestReceiveTimeStamp = 0,
      ow_interDeparture = 0,
      ow_interArrival = 0,
      ow_owdv = 0,
      ow_owd = 0,
      ow_lossMaxRtt = 250000,
      ow_endOfRecovery = None\<rparr>"

section \<open>Bytes in flight and queries\<close>

definition ow_set_inflight :: "u64 \<Rightarrow> westwood_owd \<Rightarrow> westwood_owd" where
  "ow_set_inflight n w = w\<lparr>ow_conn := (ow_conn w)\<lparr>inflightBytes := n\<rparr>\<rparr>"

definition ow_onRemoveBytesFromInflight :: "westwood_owd \<Rightarrow> u64 \<Rightarrow> quic_error + westwood_owd" where
  "ow_onRemoveBytesFromInflight w bytes =
     bind_result (subtractAndCheckUnderflow (inflightBytes (ow_conn w)) bytes)
       (\<lambda>n. Inr (ow_set_inflight n w))"

definition ow_onPacketSent :: "westwood_owd \<Rightarrow> u16 \<Rightarrow> quic_error + westwood_owd" where
  "ow_onPacketSent w pktSize =
     bind_result (addAndCheckOverflow (inflightBytes (ow_conn w)) (ucast pktSize))
       (\<lambda>n. Inr (ow_set_inflight n w))"

definition ow_getCongestionWindow :: "westwood_owd \<Rightarrow> u64" where
  "ow_getCongestionWindow w = ow_cwndBytes w"

definition ow_getSlowStartThreshold :: "westwood_owd \<Rightarrow> u64" where
  "ow_getSlowStartThreshold w = ow_ssthresh w"

definition ow_getBytesInFlight :: "westwood_owd \<Rightarrow> u64" where
  "ow_getBytesInFlight w = inflightBytes (ow_conn w)"

definition ow_getOneWayDelay :: "westwood_owd \<Rightarrow> u64" where
  "ow_getOneWayDelay w = word_of_int (ow_owd w)"

definition ow_getOneWayDelayVariation :: "westwood_owd \<Rightarrow> u64" where
  "ow_getOneWayDelayVariation w = word_of_int (ow_owdv w)"

definition ow_inSlowStart :: "westwood_owd \<Rightarrow> bool" where
  "ow_inSlowStart w \<longleftrightarrow> ow_cwndBytes w < ow_ssthresh w"

definition ow_isFirstPacket :: "westwood_owd \<Rightarrow> bool" where
  "ow_isFirstPacket w \<longleftrightarrow> ow_latestSendTimeStamp w = time_point_min"

definition ow_getWritableBytes :: "westwood_owd \<Rightarrow> quic_error + u64" where
  "ow_getWritableBytes w =
     (if inflightBytes (ow_conn w) > ow_cwndBytes w then Inr 0
      else subtractAndCheckUnderflow (ow_getCongestionWindow w) (inflightBytes (ow_conn w)))"

record westwood_owd_stats =
  ows_bw_est :: u64
  ows_rtt_min :: u64
  ows_ssthresh :: u64
  ows_owd :: u64
  ows_owdv :: u64

definition ow_getStats :: "westwood_owd \<Rightarrow> westwood_owd_stats" where
  "ow_getStats w =
     \<lparr>ows_bw_est = ucast (ow_bandwidthEstimate w),
      ows_rtt_min = word_of_int (os_minRtt (ow_rttSampler w)),
      ows_ssthresh = ow_ssthresh w,
      ows_owd = word_of_int (ow_owd w),
      ows_owdv = word_of_int (ow_owdv w)\<rparr>"

section \<open>Bandwidth estimation\<close>

definition owdLowPassFilter :: "u32 \<Rightarrow> u32 \<Rightarrow> u32 option" where
  "owdLowPassFilter a b =
     (let coef = fl32 (2 / 8);
          filtered = fl32 (fl32 (coef * fl32 (of_u32 a)) + fl32 (fl32 (1 - coef) * fl32 (of_u32 b)))
      in to_u32 filtered)"

definition ow_updateBandwidthEstimates :: "u32 \<Rightarrow> westwood_owd \<Rightarrow> quic_error + westwood_owd" where
  "ow_updateBandwidthEstimates delta w =
     (if os_minRtt (ow_rttSampler w) = micros_max then Inr w
      else
        bind_result (option_to_result (rawBandwidth (ow_bytesAckedInCurrentInterval w) delta))
          (\<lambda>raw.
        bind_result
          (if ow_bandwidthNewestEstimate w = 0 \<and> ow_bandwidthEstimate w = 0
           then option_to_result (to_u64 raw)
           else bind_result (option_to_result (to_u32 raw)) (\<lambda>b.
                map_sum id ucast (option_to_result
                  (owdLowPassFilter (ow_bandwidthNewestEstimate w) b))))
          (\<lambda>bw_ns_est :: u64.
        let w1 = w\<lparr>ow_bandwidthNewestEstimate := ucast bw_ns_est\<rparr>
        in bind_result
             (option_to_result (owdLowPassFilter (ow_bandwidthEstimate w1) (ucast bw_ns_est)))
             (\<lambda>bw. Inr (w1\<lparr>ow_bandwidthEstimate := bw\<rparr>)))))"

section \<open>One-way delay\<close>

definition check_i64 :: "int \<Rightarrow> quic_error + int" where
  "check_i64 x = (if - (2 ^ 63) \<le> x \<and> x < 2 ^ 63 then Inr x else Inl Undefined_behaviour)"

text \<open>
  \<open>interArrival_\<close> is a difference of the signed new and the unsigned stored receive
  time: unsigned arithmetic read back as signed.
\<close>

definition ow_updateOneWayDelay :: "ack_packet \<Rightarrow> westwood_owd \<Rightarrow> quic_error + westwood_owd" where
  "ow_updateOneWayDelay packet w =
     (case receiveRelativeTimeStampUsec packet of
        None \<Rightarrow> Inr w
      | Some received \<Rightarrow>
          if ow_isFirstPacket w
          then Inr (w\<lparr>ow_latestReceiveTimeStamp := word_of_int received,
                      ow_latestSendTimeStamp := sentTime packet\<rparr>)
          else
            let departure = nanos_to_micros (sentTime packet - ow_latestSendTimeStamp w);
                arrival = sint (word_of_int received - ow_latestReceiveTimeStamp w)
            in bind_result (check_i64 (arrival - departure)) (\<lambda>owdv.
               bind_result (check_i64 (ow_owd w + owdv)) (\<lambda>owd.
               Inr (w\<lparr>ow_interDeparture := departure, ow_interArrival := arrival,
                      ow_latestSendTimeStamp := sentTime packet,
                      ow_latestReceiveTimeStamp := word_of_int received,
                      ow_owdv := owdv, ow_owd := max 0 owd\<rparr>))))"

definition ow_delayControl :: "rat \<Rightarrow> westwood_owd \<Rightarrow> bool" where
  "ow_delayControl fraction w =
     (let rttMinUs = word_of_int (os_minRtt (ow_rttSampler w)) :: u64
      in if ow_lossMaxRtt w = 0 then False
         else word_of_int (ow_lossMaxRtt w) > rttMinUs \<and>
              fl64 (of_int (ow_owd w)) >
              fl64 (fraction * fl64 (of_u64 (word_of_int (ow_lossMaxRtt w) - rttMinUs))))"

section \<open>Acknowledgements\<close>

definition ow_measure :: "u64 \<Rightarrow> time_point \<Rightarrow> westwood_owd \<Rightarrow> quic_error + westwood_owd" where
  "ow_measure acked now w =
     (let w1 = w\<lparr>ow_bytesAckedInCurrentInterval := ow_bytesAckedInCurrentInterval w + acked\<rparr>;
          delta = word_of_int (nanos_to_micros (now - ow_rttWindowStartTime w)) :: u64
      in if delta > max (word_of_int (ow_latestRttSample w)) kWestwoodOWDMinRttMicroseconds
         then bind_result
                (ow_updateBandwidthEstimates (ucast delta) (w1\<lparr>ow_step := ow_step w1 + 1\<rparr>))
                (\<lambda>w2. Inr (w2\<lparr>ow_rttWindowStartTime := now, ow_bytesAckedInCurrentInterval := 0\<rparr>))
         else Inr w1)"

text \<open>The delay reaction: threshold and window back to the bandwidth-delay product, delay restarted.\<close>

definition ow_delayPipe :: "u32 \<Rightarrow> micros \<Rightarrow> u64 option" where
  "ow_delayPipe bw rttMin = to_u64 (fl64 (fl64 (of_u64 (ucast bw * word_of_int rttMin)) / 1000000))"

definition ow_delayReaction :: "westwood_owd \<Rightarrow> quic_error + westwood_owd" where
  "ow_delayReaction w =
     (if ow_delayControl (fl64 (8 / 10)) w
      then bind_result
             (option_to_result (ow_delayPipe (ow_bandwidthEstimate w) (os_minRtt (ow_rttSampler w))))
             (\<lambda>pipe. let ssthresh = max pipe (2 * udpSendPacketLen (ow_conn w))
                     in Inr (w\<lparr>ow_ssthresh := ssthresh, ow_cwndBytes := clamp (ow_conn w) ssthresh,
                                ow_owd := 0, ow_owdv := 0\<rparr>))
      else Inr w)"

definition ow_increase :: "u64 \<Rightarrow> westwood_owd \<Rightarrow> quic_error + westwood_owd" where
  "ow_increase acked w =
     bind_result
       (if ow_cwndBytes w < ow_ssthresh w then addAndCheckOverflow (ow_cwndBytes w) acked
        else if ow_cwndBytes w = 0 then Inl Undefined_behaviour
        else addAndCheckOverflow (ow_cwndBytes w)
               ((kDefaultUDPSendPacketLen * acked) div ow_cwndBytes w))
       (\<lambda>c. Inr (w\<lparr>ow_cwndBytes := clamp (ow_conn w) c\<rparr>))"

definition ow_onPacketAcked ::
    "westwood_owd \<Rightarrow> ack_packet \<times> time_point \<Rightarrow> quic_error + westwood_owd" where
  "ow_onPacketAcked w = (\<lambda>(packet, now).
     if (case ow_endOfRecovery w of Some t \<Rightarrow> sentTime packet < t | None \<Rightarrow> False) then Inr w
     else let acked = ucast (encodedSize packet)
          in bind_result (ow_measure acked now w) (\<lambda>w1.
             bind_result (ow_delayReaction w1) (ow_increase acked)))"

definition ow_ackStep :: "westwood_owd \<Rightarrow> ack_packet \<times> time_point \<Rightarrow> quic_error + westwood_owd" where
  "ow_ackStep w pt =
     bind_result (ow_updateOneWayDelay (fst pt) w) (\<lambda>w1. ow_onPacketAcked w1 pt)"

definition ow_onAckEvent ::
    "ack_event \<Rightarrow> (nat \<Rightarrow> time_point) \<Rightarrow> westwood_owd \<Rightarrow> quic_error + westwood_owd" where
  "ow_onAckEvent ack nows w =
     (let w1 = (case rttSample ack of
                  Some rtt \<Rightarrow> w\<lparr>ow_rttSampler := owd_newRttSample rtt (ackTime ack) (ow_rttSampler w),
                                 ow_latestRttSample := rtt\<rparr>
                | None \<Rightarrow> w)
      in bind_result (subtractAndCheckUnderflow (inflightBytes (ow_conn w1)) (ackedBytes ack))
           (\<lambda>n. bind_result
              (run_events ow_ackStep (ow_set_inflight n w1) (with_readings (ackedPackets ack) nows))
              (\<lambda>w2. Inr (w2\<lparr>ow_cwndBytes := clamp (ow_conn w2) (ow_cwndBytes w2)\<rparr>))))"

section \<open>Losses\<close>

text \<open>\<open>bandwidthEstimate_ * (rttMinUs + (0.8 * 50000)) / 1.0e6\<close>.\<close>

definition ow_lossPipe :: "u32 \<Rightarrow> micros \<Rightarrow> u64 option" where
  "ow_lossPipe bw rttMin =
     to_u64 (fl64 (fl64 (of_u32 bw *
       fl64 (fl64 (of_u64 (word_of_int rttMin)) + fl64 (fl64 (8 / 10) * 50000))) / 1000000))"

definition ow_expireRtt :: "time_point \<Rightarrow> westwood_owd \<Rightarrow> westwood_owd" where
  "ow_expireRtt now w =
     (if os_rttExpired (ow_rttSampler w)
      then w\<lparr>ow_rttSampler := owd_resetRttSample now (ow_rttSampler w)\<rparr> else w)"

definition ow_newLoss :: "westwood_owd \<Rightarrow> loss_event \<Rightarrow> quic_error + bool" where
  "ow_newLoss w loss =
     (case ow_endOfRecovery w of
        None \<Rightarrow> Inr True
      | Some t \<Rightarrow> (case largestLostSentTime loss of
                      None \<Rightarrow> Inl Undefined_behaviour
                    | Some lost \<Rightarrow> Inr (t < lost)))"

definition ow_enterRecovery :: "time_point \<Rightarrow> westwood_owd \<Rightarrow> quic_error + westwood_owd" where
  "ow_enterRecovery now w =
     bind_result (option_to_result (ow_lossPipe (ow_bandwidthEstimate w) (os_minRtt (ow_rttSampler w))))
       (\<lambda>pipe. let ssthresh = max pipe (2 * udpSendPacketLen (ow_conn w))
               in Inr (w\<lparr>ow_endOfRecovery := Some now, ow_ssthresh := ssthresh,
                          ow_cwndBytes := clamp (ow_conn w) ssthresh\<rparr>))"

definition ow_collapse :: "loss_event \<Rightarrow> westwood_owd \<Rightarrow> westwood_owd" where
  "ow_collapse loss w =
     (if persistentCongestion loss
      then w\<lparr>ow_cwndBytes := clamp (ow_conn w) (minCwndInMss (ow_conn w) * udpSendPacketLen (ow_conn w))\<rparr>
      else w)"

definition ow_onPacketLoss ::
    "loss_event \<Rightarrow> time_point \<Rightarrow> time_point \<Rightarrow> westwood_owd \<Rightarrow> quic_error + westwood_owd" where
  "ow_onPacketLoss loss resetNow recoveryNow w =
     bind_result (subtractAndCheckUnderflow (inflightBytes (ow_conn w)) (lostBytes loss)) (\<lambda>n.
     let w1 = ow_expireRtt resetNow ((ow_set_inflight n w)\<lparr>ow_owd := 0, ow_owdv := 0\<rparr>)
     in bind_result (ow_newLoss w1 loss) (\<lambda>fresh.
        bind_result (if fresh then ow_enterRecovery recoveryNow w1 else Inr w1) (\<lambda>w2.
        Inr (ow_collapse loss w2))))"

definition ow_onPacketAckOrLoss :: "westwood_owd \<Rightarrow> cc_event \<Rightarrow> quic_error + westwood_owd" where
  "ow_onPacketAckOrLoss w ev =
     bind_result
       (case ev_loss ev of
          Some loss \<Rightarrow> ow_onPacketLoss loss (ev_reset_now ev) (ev_recovery_now ev) w
        | None \<Rightarrow> Inr w)
       (\<lambda>w1. case ev_ack ev of
               Some ack \<Rightarrow> (if largestNewlyAckedPacket ack \<noteq> None
                            then ow_onAckEvent ack (ev_ack_nows ev) w1 else Inr w1)
             | None \<Rightarrow> Inr w1)"

section \<open>The invariant\<close>

text \<open>The settings are those of construction, the window is clamped, the delay is not negative.\<close>

definition ow_inv :: "conn_state \<Rightarrow> westwood_owd \<Rightarrow> bool" where
  "ow_inv conn w \<longleftrightarrow>
     settings_of (ow_conn w) = settings_of conn \<and> cwnd_bounded conn (ow_cwndBytes w) \<and> 0 \<le> ow_owd w"

lemma ow_inv_clamp:
  "settings_of (ow_conn w) = settings_of conn \<Longrightarrow> 0 \<le> ow_owd w \<Longrightarrow>
   ow_inv conn (w\<lparr>ow_cwndBytes := clamp (ow_conn w) c\<rparr>)"
  using cwnd_bounded_settings [of "ow_conn w" conn] clamp_bounded [of "ow_conn w" c]
  by (simp add: ow_inv_def)

lemma ow_inv_inflight [simp]: "ow_inv conn (ow_set_inflight n w) = ow_inv conn w"
  by (simp add: ow_inv_def ow_set_inflight_def)

lemma ow_inv_new: "ow_inv conn (newWestwoodOWD now conn)"
  by (simp add: ow_inv_def newWestwoodOWD_def)

lemma ow_updateBandwidthEstimates_frame:
  assumes "ow_updateBandwidthEstimates delta w = Inr w'"
  shows "\<exists>x y. w' = w\<lparr>ow_bandwidthNewestEstimate := x, ow_bandwidthEstimate := y\<rparr>"
proof (cases "os_minRtt (ow_rttSampler w) = micros_max")
  case True
  with assms have "w' = w\<lparr>ow_bandwidthNewestEstimate := ow_bandwidthNewestEstimate w,
      ow_bandwidthEstimate := ow_bandwidthEstimate w\<rparr>"
    by (simp add: ow_updateBandwidthEstimates_def)
  then show ?thesis by blast
next
  case False
  with assms show ?thesis
    by (auto simp: ow_updateBandwidthEstimates_def result_simps Let_def)
qed

lemma ow_measure_inv:
  assumes "ow_inv conn w" and "ow_measure acked now w = Inr w'"
  shows "ow_inv conn w'"
  using assms
  by (fastforce simp: ow_measure_def ow_inv_def Let_def result_simps split: if_split_asm
      dest: ow_updateBandwidthEstimates_frame)

lemma ow_delayReaction_inv:
  assumes "ow_inv conn w" and "ow_delayReaction w = Inr w'"
  shows "ow_inv conn w'"
proof (cases "ow_delayControl (fl64 (8 / 10)) w")
  case True
  with assms(2) obtain ssthresh where
    "w' = w\<lparr>ow_ssthresh := ssthresh, ow_cwndBytes := clamp (ow_conn w) ssthresh, ow_owd := 0, ow_owdv := 0\<rparr>"
    by (auto simp: ow_delayReaction_def result_simps Let_def)
  then show ?thesis
    using assms(1) cwnd_bounded_settings [of "ow_conn w" conn] clamp_bounded [of "ow_conn w" ssthresh]
    by (simp add: ow_inv_def)
next
  case False
  with assms show ?thesis by (simp add: ow_delayReaction_def)
qed

lemma ow_increase_inv: "ow_inv conn w \<Longrightarrow> ow_increase acked w = Inr w' \<Longrightarrow> ow_inv conn w'"
  using ow_inv_clamp [of w conn] unfolding ow_increase_def result_simps by (auto simp: ow_inv_def)

lemma ow_onPacketAcked_inv:
  assumes "ow_inv conn w" and "ow_onPacketAcked w pt = Inr w'"
  shows "ow_inv conn w'"
proof -
  obtain packet now where pt: "pt = (packet, now)" by force
  show ?thesis
  proof (cases "case ow_endOfRecovery w of Some t \<Rightarrow> sentTime packet < t | None \<Rightarrow> False")
    case True
    with assms show ?thesis by (simp add: ow_onPacketAcked_def pt)
  next
    case False
    with assms(2) obtain w1 w2 where
      "ow_measure (ucast (encodedSize packet)) now w = Inr w1"
      "ow_delayReaction w1 = Inr w2" "ow_increase (ucast (encodedSize packet)) w2 = Inr w'"
      by (auto simp: ow_onPacketAcked_def pt Let_def result_simps)
    with assms(1) show ?thesis
      using ow_measure_inv ow_delayReaction_inv ow_increase_inv by blast
  qed
qed

lemma ow_updateOneWayDelay_inv:
  "ow_inv conn w \<Longrightarrow> ow_updateOneWayDelay packet w = Inr w' \<Longrightarrow> ow_inv conn w'"
  by (auto simp: ow_updateOneWayDelay_def ow_inv_def Let_def result_simps split: option.splits if_splits)

lemma ow_ackStep_inv: "ow_inv conn w \<Longrightarrow> ow_ackStep w pt = Inr w' \<Longrightarrow> ow_inv conn w'"
  unfolding ow_ackStep_def result_simps
  by (auto dest: ow_updateOneWayDelay_inv ow_onPacketAcked_inv)

lemma ow_onAckEvent_inv:
  assumes "ow_inv conn w" and "ow_onAckEvent ack nows w = Inr w'"
  shows "ow_inv conn w'"
proof -
  define w1 where "w1 = (case rttSample ack of
      Some rtt \<Rightarrow> w\<lparr>ow_rttSampler := owd_newRttSample rtt (ackTime ack) (ow_rttSampler w),
                     ow_latestRttSample := rtt\<rparr>
    | None \<Rightarrow> w)"
  have "ow_inv conn w1" using assms(1) by (simp add: w1_def ow_inv_def split: option.split)
  moreover obtain n w2 where
      run: "run_events ow_ackStep (ow_set_inflight n w1) (with_readings (ackedPackets ack) nows) = Inr w2"
    and w': "w' = w2\<lparr>ow_cwndBytes := clamp (ow_conn w2) (ow_cwndBytes w2)\<rparr>"
    using assms(2) by (auto simp: ow_onAckEvent_def Let_def result_simps w1_def [symmetric])
  ultimately have "ow_inv conn w2"
    using run_events_invariant [where P = "ow_inv conn" and step = ow_ackStep]
      ow_ackStep_inv by (metis ow_inv_inflight)
  then show ?thesis unfolding w' by (intro ow_inv_clamp) (simp_all add: ow_inv_def)
qed

lemma ow_onPacketLoss_inv:
  assumes "ow_inv conn w" and "ow_onPacketLoss loss t1 t2 w = Inr w'"
  shows "ow_inv conn w'"
proof -
  obtain n w1 w2 fresh where w1: "w1 = ow_expireRtt t1 ((ow_set_inflight n w)\<lparr>ow_owd := 0, ow_owdv := 0\<rparr>)"
    and w2: "(if fresh then ow_enterRecovery t2 w1 else Inr w1) = Inr w2"
    and w': "w' = ow_collapse loss w2"
    using assms(2) unfolding ow_onPacketLoss_def Let_def result_simps by blast
  have inv1: "ow_inv conn w1" using assms(1) by (simp add: w1 ow_inv_def ow_expireRtt_def ow_set_inflight_def)
  have "ow_inv conn w2"
  proof (cases fresh)
    case True
    with w2 obtain s where "w2 = w1\<lparr>ow_endOfRecovery := Some t2, ow_ssthresh := s,
        ow_cwndBytes := clamp (ow_conn w1) s\<rparr>"
      by (auto simp: ow_enterRecovery_def result_simps Let_def)
    then show ?thesis
      using inv1 cwnd_bounded_settings [of "ow_conn w1" conn] clamp_bounded [of "ow_conn w1" s]
      by (simp add: ow_inv_def)
  next
    case False
    with w2 inv1 show ?thesis by simp
  qed
  then show ?thesis
    using ow_inv_clamp [of w2 conn] by (simp add: w' ow_collapse_def ow_inv_def)
qed

lemma ow_onPacketAckOrLoss_inv:
  assumes "ow_inv conn w" and "ow_onPacketAckOrLoss w ev = Inr w'"
  shows "ow_inv conn w'"
proof -
  obtain w1 where "(case ev_loss ev of
          Some loss \<Rightarrow> ow_onPacketLoss loss (ev_reset_now ev) (ev_recovery_now ev) w
        | None \<Rightarrow> Inr w) = Inr w1"
    and w': "(case ev_ack ev of
               Some ack \<Rightarrow> (if largestNewlyAckedPacket ack \<noteq> None
                            then ow_onAckEvent ack (ev_ack_nows ev) w1 else Inr w1)
             | None \<Rightarrow> Inr w1) = Inr w'"
    using assms(2) by (auto simp: ow_onPacketAckOrLoss_def result_simps)
  then have "ow_inv conn w1"
    using assms(1) by (auto split: option.splits intro: ow_onPacketLoss_inv)
  with w' show ?thesis by (auto split: option.splits if_splits intro: ow_onAckEvent_inv)
qed

section \<open>The controller implements the interface\<close>

lemma ow_getWritableBytes_eq:
  "ow_getWritableBytes w =
     Inr (if inflightBytes (ow_conn w) > ow_cwndBytes w then 0
          else ow_cwndBytes w - inflightBytes (ow_conn w))"
  by (simp add: ow_getWritableBytes_def ow_getCongestionWindow_def subtractAndCheckUnderflow_def)

definition ow_writable :: "westwood_owd \<Rightarrow> u64" where
  "ow_writable w = projr (ow_getWritableBytes w)"

lemma ow_onPacketSent_iff:
  "ow_onPacketSent w n = Inr w' \<longleftrightarrow> unat (inflightBytes (ow_conn w)) + unat n < 2 ^ 64 \<and>
     w' = ow_set_inflight (inflightBytes (ow_conn w) + ucast n) w"
  by (auto simp: ow_onPacketSent_def result_simps addAndCheckOverflow_iff)

lemma ow_onRemoveBytesFromInflight_iff:
  "ow_onRemoveBytesFromInflight w k = Inr w' \<longleftrightarrow> k \<le> inflightBytes (ow_conn w) \<and>
     w' = ow_set_inflight (inflightBytes (ow_conn w) - k) w"
  by (auto simp: ow_onRemoveBytesFromInflight_def result_simps subtractAndCheckUnderflow_iff)

lemmas ow_flight_simps =
  ow_onPacketSent_iff ow_onRemoveBytesFromInflight_iff ow_getBytesInFlight_def
  ow_getCongestionWindow_def ow_set_inflight_def

interpretation ow: congestion_controller ow_onPacketSent ow_onRemoveBytesFromInflight
    ow_onPacketAckOrLoss ow_writable ow_getCongestionWindow ow_getBytesInFlight "ow_inv conn"
  for conn
proof (unfold_locales, goal_cases)
  case (2 c n c')
  then show ?case by (auto simp: ow_flight_simps intro!: unat_add_no_overflow [THEN trans])
next
  case (4 c n c')
  then show ?case by (auto simp: ow_onPacketSent_iff)
next
  case (6 c k c')
  then show ?case by (auto simp: ow_flight_simps unat_sub word_le_nat_alt)
next
  case (8 c k c')
  then show ?case by (auto simp: ow_onRemoveBytesFromInflight_iff)
next
  case (9 c v c')
  then show ?case by (rule ow_onPacketAckOrLoss_inv)
next
  case (10 c)
  then show ?case
    by (auto simp: ow_writable_def ow_getWritableBytes_eq ow_getCongestionWindow_def
        ow_getBytesInFlight_def unat_sub word_less_nat_alt word_le_nat_alt not_less)
qed (auto simp: ow_flight_simps)

section \<open>The one-way delay is the queueing delay\<close>

text \<open>The raw one-way delay of a packet, receive time minus send time in microseconds.\<close>

definition raw_owd :: "ack_packet \<Rightarrow> int" where
  "raw_owd p = the (receiveRelativeTimeStampUsec p) - sentTime p div 1000"

text \<open>Receive times present, send times on whole microseconds, both in \<open>0 ..< 2 ^ 60\<close> microseconds.\<close>

definition timed_packet :: "ack_packet \<Rightarrow> bool" where
  "timed_packet p \<longleftrightarrow>
     (case receiveRelativeTimeStampUsec p of
        None \<Rightarrow> False
      | Some r \<Rightarrow> 0 \<le> r \<and> r < 2 ^ 60 \<and> sentTime p mod 1000 = 0 \<and>
                  0 \<le> sentTime p \<and> sentTime p < 1000 * 2 ^ 60)"

lemma nanos_to_micros_mult [simp]: "nanos_to_micros (1000 * k) = k"
  by (simp add: nanos_to_micros_def abs_mult sgn_mult mult_sgn_abs)

lemma sint_diff:
  assumes "0 \<le> r" "r < 2 ^ 60" "0 \<le> r'" "r' < 2 ^ 60"
  shows "sint (word_of_int r - word_of_int r' :: u64) = r - r'"
proof -
  have "signed_take_bit 63 (r - r') = r - r'"
    using assms by (intro signed_take_bit_int_eq_self) auto
  then show ?thesis by (simp flip: of_int_diff add: signed_of_int)
qed

lemma timed_packetD:
  assumes "timed_packet p"
  shows "\<exists>r k. receiveRelativeTimeStampUsec p = Some r \<and> sentTime p = 1000 * k \<and>
           0 \<le> r \<and> r < 2 ^ 60 \<and> 0 \<le> k \<and> k < 2 ^ 60 \<and> raw_owd p = r - k"
  using assms
  by (auto simp: timed_packet_def raw_owd_def split: option.splits intro!: exI [of _ "sentTime p div 1000"])

text \<open>One more packet: the delay moves by the difference of the raw delays, not below 0.\<close>

lemma ow_updateOneWayDelay_step:
  assumes "timed_packet q" "timed_packet p"
    and "ow_latestSendTimeStamp w = sentTime q"
    and "ow_latestReceiveTimeStamp w = word_of_int (the (receiveRelativeTimeStampUsec q))"
    and "0 \<le> ow_owd w" "ow_owd w < 2 ^ 61"
  shows "\<exists>w'. ow_updateOneWayDelay p w = Inr w' \<and> ow_latestSendTimeStamp w' = sentTime p \<and>
           ow_latestReceiveTimeStamp w' = word_of_int (the (receiveRelativeTimeStampUsec p)) \<and>
           ow_owd w' = max 0 (ow_owd w + (raw_owd p - raw_owd q))"
proof -
  obtain r k where q: "receiveRelativeTimeStampUsec q = Some r" "sentTime q = 1000 * k"
      "0 \<le> r" "r < 2 ^ 60" "0 \<le> k" "k < 2 ^ 60" "raw_owd q = r - k"
    using timed_packetD [OF assms(1)] by blast
  obtain r' k' where p: "receiveRelativeTimeStampUsec p = Some r'" "sentTime p = 1000 * k'"
      "0 \<le> r'" "r' < 2 ^ 60" "0 \<le> k'" "k' < 2 ^ 60" "raw_owd p = r' - k'"
    using timed_packetD [OF assms(2)] by blast
  have first: "\<not> ow_isFirstPacket w"
    using q by (simp add: ow_isFirstPacket_def assms(3) time_point_min_def)
  have dep: "nanos_to_micros (sentTime p - sentTime q) = k' - k"
    using nanos_to_micros_mult [of "k' - k"] p q by (simp add: algebra_simps)
  have arr: "sint (word_of_int r' - word_of_int r :: u64) = r' - r"
    using p q by (intro sint_diff) auto
  have c1: "check_i64 (r' - r - (k' - k)) = Inr (r' - r - (k' - k))"
    and c2: "check_i64 (ow_owd w + (r' - r - (k' - k))) = Inr (ow_owd w + (r' - r - (k' - k)))"
    using p q assms(5,6) by (simp_all add: check_i64_def)
  show ?thesis
    using first dep arr c1 c2 p q assms(3,4)
    by (simp add: ow_updateOneWayDelay_def Let_def)
qed

lemma raw_owd_bound: "timed_packet p \<Longrightarrow> \<bar>raw_owd p\<bar> < 2 ^ 60"
  using timed_packetD [of p] by auto

lemma owd_is_queueing_delay_aux:
  assumes "\<forall>p \<in> set (p0 # ps). timed_packet p"
    and "ow_isFirstPacket w" and "ow_owd w = 0"
  shows "\<exists>w'. run_events (\<lambda>w p. ow_updateOneWayDelay p w) w (p0 # ps) = Inr w' \<and>
           ow_latestSendTimeStamp w' = sentTime (last (p0 # ps)) \<and>
           ow_latestReceiveTimeStamp w' = word_of_int (the (receiveRelativeTimeStampUsec (last (p0 # ps)))) \<and>
           ow_owd w' = raw_owd (last (p0 # ps)) - Min (raw_owd ` set (p0 # ps))"
  using assms(1)
proof (induction ps rule: rev_induct)
  case Nil
  then obtain r where "receiveRelativeTimeStampUsec p0 = Some r"
    using timed_packetD by fastforce
  then show ?case using assms(2,3) by (simp add: ow_updateOneWayDelay_def)
next
  case (snoc p ps)
  let ?q = "last (p0 # ps)" and ?M = "Min (raw_owd ` set (p0 # ps))"
  obtain w1 where w1: "run_events (\<lambda>w p. ow_updateOneWayDelay p w) w (p0 # ps) = Inr w1"
      "ow_latestSendTimeStamp w1 = sentTime ?q"
      "ow_latestReceiveTimeStamp w1 = word_of_int (the (receiveRelativeTimeStampUsec ?q))"
      "ow_owd w1 = raw_owd ?q - ?M"
    using snoc by auto
  have tq: "timed_packet ?q" and tp: "timed_packet p" and inq: "?q \<in> set (p0 # ps)"
    using snoc.prems last_in_set [of "p0 # ps"] by auto
  have M: "?M \<in> raw_owd ` set (p0 # ps)" and Mle: "?M \<le> raw_owd ?q"
    using inq Min_in [of "raw_owd ` set (p0 # ps)"] by (blast, intro Min_le) auto
  then have "\<bar>?M\<bar> < 2 ^ 60" using snoc.prems raw_owd_bound by auto
  then have "0 \<le> ow_owd w1" and "ow_owd w1 < 2 ^ 61"
    using Mle raw_owd_bound [OF tq] w1(4) by auto
  from ow_updateOneWayDelay_step [OF tq tp w1(2,3) this] obtain w' where
    w': "ow_updateOneWayDelay p w1 = Inr w'" "ow_latestSendTimeStamp w' = sentTime p"
      "ow_latestReceiveTimeStamp w' = word_of_int (the (receiveRelativeTimeStampUsec p))"
      "ow_owd w' = max 0 (ow_owd w1 + (raw_owd p - raw_owd ?q))"
    by blast
  have "set (p0 # ps @ [p]) = insert p (set (p0 # ps))" by auto
  then have "Min (raw_owd ` set (p0 # ps @ [p])) = min (raw_owd p) ?M" by simp
  moreover have "ow_owd w' = max 0 (raw_owd p - ?M)" unfolding w'(4) w1(4) by (rule arg_cong [of _ _ "max 0"]) linarith
  ultimately have "ow_owd w' = raw_owd p - Min (raw_owd ` set (p0 # ps @ [p]))" by linarith
  moreover have "run_events (\<lambda>w p. ow_updateOneWayDelay p w) w (p0 # ps @ [p]) = Inr w'"
    using run_events_append [of "\<lambda>w p. ow_updateOneWayDelay p w" w "p0 # ps" "[p]"] w1(1) w'(1) by simp
  ultimately show ?case using w' by simp
qed

section \<open>Exactness of the floating-point decisions\<close>

text \<open>Below \<open>2 ^ 52\<close> the quotient by one million, taken in \<open>double\<close>, has the exact integer part.\<close>

lemma floor_fl64_million:
  assumes "0 \<le> n" "n < 2 ^ 52"
  shows "\<lfloor>fl64 (of_int n / 1000000)\<rfloor> = n div 1000000"
proof -
  define q :: rat where "q = of_int n / 1000000"
  define m where "m = n div 1000000"
  have q: "of_int m \<le> q" "q \<le> of_int m + 1 - 1 / 1000000"
  proof -
    have "m * 1000000 \<le> n" "n \<le> m * 1000000 + 999999" unfolding m_def by presburger+
    then have "of_int (m * 1000000) \<le> (of_int n :: rat)" "(of_int n :: rat) \<le> of_int (m * 1000000 + 999999)"
      by (simp_all only: of_int_le_iff)
    then show "of_int m \<le> q" "q \<le> of_int m + 1 - 1 / 1000000" by (simp_all add: q_def field_simps)
  qed
  have m: "0 \<le> m" "m \<le> 2 ^ 53" using assms by (simp_all add: m_def)
  have "\<bar>q\<bar> \<le> 2 powi 33" using assms by (simp add: q_def divide_le_eq)
  from fl_error [OF this, of 53] have err: "\<bar>fl64 q - q\<bar> \<le> 1 / 2 ^ 21"
    by (simp add: power_int_minus field_simps)
  have "fl64 (of_int m) \<le> fl64 q" using q(1) by (intro fl_mono) auto
  moreover have "fl64 (of_int m) = of_int m" using m by (intro fl_of_int) auto
  moreover have "fl64 q < of_int m + 1"
  proof -
    have "fl64 q \<le> q + 1 / 2 ^ 21" using err by linarith
    with q(2) show ?thesis by simp
  qed
  ultimately have "\<lfloor>fl64 q\<rfloor> = m" by (simp add: floor_eq_iff)
  then show ?thesis by (simp add: q_def m_def)
qed

lemma ow_delayPipe_exact:
  assumes "0 \<le> rtt" "uint bw * rtt < 2 ^ 52"
  shows "ow_delayPipe bw rtt = Some (word_of_int (uint bw * rtt div 1000000))"
proof -
  define n where "n = uint bw * rtt"
  have n: "0 \<le> n" "n < 2 ^ 52" using assms by (simp_all add: n_def)
  have "(ucast bw * word_of_int rtt :: u64) = word_of_int n"
    by (simp only: n_def of_int_mult ucast_eq)
  then have prod: "of_u64 (ucast bw * word_of_int rtt :: u64) = of_int n"
    using n by (simp add: unsigned_of_int take_bit_int_eq_self)
  have fln: "fl64 (of_int n) = of_int n" using n by (intro fl_of_int) auto
  have fl: "\<lfloor>fl64 (of_int n / 1000000)\<rfloor> = n div 1000000" by (rule floor_fl64_million [OF n])
  have nn: "0 \<le> fl64 (of_int n / 1000000)" using n by (intro fl_nonneg) auto
  have "n div 1000000 < 2 ^ 64" using n by (simp add: div_less_iff_less_mult) 
  then have "fl64 (of_int n / 1000000) < 2 ^ 64"
    using fl by (metis floor_less_iff of_int_numeral of_int_power)
  with nn fl have "to_unsigned 64 (fl64 (of_int n / 1000000)) = Some (nat (n div 1000000))"
    by (simp add: to_unsigned_total)
  then have "ow_delayPipe bw rtt = Some (word_of_int (n div 1000000))"
    unfolding ow_delayPipe_def prod fln to_u64_def using n by simp
  then show ?thesis by (simp only: n_def)
qed

lemma fl64_eight_tenths: "8 / 10 \<le> fl64 (8 / 10)" "fl64 (8 / 10) \<le> 8 / 10 + 1 / 2 ^ 54"
  by (subst fl_at [where e = "- 1"]; simp add: round_even_eval power_int_minus)+

lemma fl64_eight_tenths_less:
  assumes "0 \<le> d" "d \<le> 2 ^ 49" "0 \<le> m" "m \<le> 2 ^ 53"
  shows "fl64 (fl64 (8 / 10) * of_int d) < of_int m \<longleftrightarrow> 4 * d < 5 * m"
proof -
  define f where "f = fl64 (8 / 10)"
  have f: "8 / 10 \<le> f" "f \<le> 8 / 10 + 1 / 2 ^ 54" "0 \<le> f" "f \<le> 1"
    using fl64_eight_tenths by (simp_all add: f_def)
  have d: "(0 :: rat) \<le> of_int d" "(of_int d :: rat) \<le> 2 ^ 49"
    using assms by (simp, metis of_int_le_iff of_int_numeral of_int_power)
  have fd: "8 / 10 * of_int d \<le> f * of_int d" "f * of_int d \<le> (8 / 10 + 1 / 2 ^ 54) * of_int d"
    using mult_right_mono [OF f(1) d(1)] mult_right_mono [OF f(2) d(1)] by simp_all
  have "f * of_int d \<le> 1 * 2 ^ 49" by (rule mult_mono) (use f d in auto)
  with f(3) d(1) have "\<bar>f * of_int d\<bar> \<le> 2 powi 49" by simp
  from fl_error [OF this, of 53] have err: "\<bar>fl64 (f * of_int d) - f * of_int d\<bar> \<le> 1 / 2 ^ 5"
    by (simp add: power_int_minus field_simps)
  have "fl64 (f * of_int d) < of_int m" if "4 * d < 5 * m"
  proof -
    have "4 * d + 1 \<le> 5 * m" using that by simp
    then have "(of_int (4 * d + 1) :: rat) \<le> of_int (5 * m)" by (simp only: of_int_le_iff)
    then have "8 / 10 * (of_int d :: rat) + 1 / 5 \<le> of_int m" by simp
    moreover have "(1 / 2 ^ 54) * (of_int d :: rat) \<le> 1 / 2 ^ 5" using d by simp
    moreover have "f * of_int d \<le> 8 / 10 * of_int d + (1 / 2 ^ 54) * of_int d"
      using fd(2) by (simp only: distrib_right)
    moreover have "fl64 (f * of_int d) \<le> f * of_int d + 1 / 2 ^ 5" using err by linarith
    ultimately show ?thesis by simp
  qed
  moreover have "of_int m \<le> fl64 (f * of_int d)" if "5 * m \<le> 4 * d"
  proof -
    have "(of_int (5 * m) :: rat) \<le> of_int (4 * d)" using that by (simp only: of_int_le_iff)
    then have "of_int m \<le> f * of_int d" using fd(1) by simp
    then have "fl64 (of_int m) \<le> fl64 (f * of_int d)" by (intro fl_mono) auto
    moreover have "fl64 (of_int m) = of_int m" using assms by (intro fl_of_int) auto
    ultimately show ?thesis by simp
  qed
  ultimately show ?thesis unfolding f_def by (meson leD not_le_imp_less)
qed

lemma ow_delayControl_exact:
  assumes "0 \<le> ow_lossMaxRtt w" "ow_lossMaxRtt w \<le> 2 ^ 49"
    and "0 \<le> os_minRtt (ow_rttSampler w)" "os_minRtt (ow_rttSampler w) < 2 ^ 63"
    and "0 \<le> ow_owd w" "ow_owd w \<le> 2 ^ 53"
  shows "ow_delayControl (fl64 (8 / 10)) w \<longleftrightarrow>
           os_minRtt (ow_rttSampler w) < ow_lossMaxRtt w \<and>
           4 * (ow_lossMaxRtt w - os_minRtt (ow_rttSampler w)) < 5 * ow_owd w"
proof -
  let ?lo = "os_minRtt (ow_rttSampler w)" and ?hi = "ow_lossMaxRtt w"
  have less: "(word_of_int ?lo :: u64) < word_of_int ?hi \<longleftrightarrow> ?lo < ?hi"
    using assms by (simp add: word_less_def unsigned_of_int take_bit_int_eq_self)
  have "fl64 (of_u64 (word_of_int ?hi - word_of_int ?lo :: u64)) = of_int (?hi - ?lo)" if "?lo < ?hi"
  proof -
    have "of_u64 (word_of_int ?hi - word_of_int ?lo :: u64) = of_int (?hi - ?lo)"
      using assms that by (simp flip: of_int_diff add: unsigned_of_int take_bit_int_eq_self)
    moreover have "fl64 (of_int (?hi - ?lo)) = of_int (?hi - ?lo)"
      using assms that by (intro fl_of_int) auto
    ultimately show ?thesis by simp
  qed
  moreover have "fl64 (of_int (ow_owd w)) = of_int (ow_owd w)"
    using assms by (intro fl_of_int) auto
  moreover have "?hi \<noteq> 0" if "?lo < ?hi" using assms(3) that by simp
  ultimately show ?thesis
    using assms fl64_eight_tenths_less [of "?hi - ?lo" "ow_owd w"]
    by (auto simp: ow_delayControl_def Let_def less)
qed

section \<open>Properties\<close>

text \<open>
  C16. From the constructor on, after every sequence of sent, removed, acknowledged and lost
  packets that the controller survives, the congestion window is between its configured
  bounds and the one-way delay estimate is not negative.
\<close>

theorem owd_window_bounded:
  assumes "run_events (cc_step ow_onPacketSent ow_onRemoveBytesFromInflight ow_onPacketAckOrLoss)
             (newWestwoodOWD now conn) calls = Inr w"
  shows "cwnd_floor conn \<le> ow_getCongestionWindow w \<and> ow_getCongestionWindow w \<le> cwnd_ceiling conn \<and>
         0 \<le> ow_owd w"
proof -
  have "ow_inv conn w" by (rule ow.run_invar [OF ow_inv_new assms])
  then show ?thesis by (simp add: ow_inv_def cwnd_bounded_def ow_getCongestionWindow_def)
qed

lemmas ow_eval =
  ow_onPacketSent_def ow_onRemoveBytesFromInflight_def ow_onPacketAckOrLoss_def ow_onAckEvent_def
  ow_onPacketLoss_def ow_ackStep_def ow_onPacketAcked_def ow_measure_def ow_increase_def
  ow_set_inflight_def ow_updateOneWayDelay_def ow_isFirstPacket_def time_point_min_def check_i64_def
  ow_expireRtt_def ow_newLoss_def ow_enterRecovery_def ow_collapse_def with_readings_def
  newWestwoodOWD_def newOwdRttSampler_def owd_newRttSample_def owd_resetRttSample_def
  nanos_to_micros_def addAndCheckOverflow_def subtractAndCheckUnderflow_def boundedCwnd_def
  micros_max_def kWestwoodOWDMinRttMicroseconds_def
  kWestwoodOWDInitialRttMicroseconds_def kWestwoodOWDRttExpirationSeconds_def Let_def

lemma ow_lossPipe_zero: "ow_lossPipe 0 rtt = Some 0"
  by (simp add: ow_lossPipe_def to_u64_def to_unsigned_def)

lemma ow_delayReaction_idle:
  assumes "ow_owd w = 0" shows "ow_delayReaction w = Inr w"
proof -
  have "(0 :: rat) \<le> fl64 (fl64 (8 / 10) * fl64 (of_u64 x))" for x :: u64
    by (intro fl_nonneg mult_nonneg_nonneg) auto
  then have "\<not> ow_delayControl (fl64 (8 / 10)) w"
    unfolding ow_delayControl_def Let_def assms using not_less by auto
  then show ?thesis by (simp add: ow_delayReaction_def)
qed

theorem owd_window_bounded_witness:
  "\<exists>w. run_events (cc_step ow_onPacketSent ow_onRemoveBytesFromInflight ow_onPacketAckOrLoss)
         (newWestwoodOWD 0 sample_conn) sample_calls = Inr w \<and>
       cwnd_floor sample_conn \<le> ow_getCongestionWindow w \<and>
       ow_getCongestionWindow w \<le> cwnd_ceiling sample_conn \<and> ow_getCongestionWindow w = 2464"
proof -
  obtain w where w: "run_events (cc_step ow_onPacketSent ow_onRemoveBytesFromInflight ow_onPacketAckOrLoss)
         (newWestwoodOWD 0 sample_conn) sample_calls = Inr w" "ow_cwndBytes w = 2464"
    by (simp add: sample_defs ow_eval ow_delayReaction_idle ow_lossPipe_zero)
  show ?thesis
    using owd_window_bounded [OF w(1)] w by (auto simp: ow_getCongestionWindow_def)
qed


definition sample_packet :: "int \<Rightarrow> int \<Rightarrow> ack_packet" where
  "sample_packet sent received =
     \<lparr>packetNum = 0, sentTime = sent, encodedSize = 1200, receiveRelativeTimeStampUsec = Some received\<rparr>"


text \<open>
  C17. The delay reaction, in exact integers although the code computes it in \<open>double\<close>:
  while the delay is at most 80\% of the room between the smallest round-trip time and
  \<open>lossMaxRtt_\<close> (or there is no room) nothing changes; above it, the threshold becomes the
  bandwidth-delay product in whole bytes (two packets at least), the window follows it
  within its bounds, and the delay estimate restarts from zero.
\<close>

theorem owd_delay_reaction:
  assumes "0 \<le> ow_lossMaxRtt w" "ow_lossMaxRtt w \<le> 2 ^ 49"
    and "0 \<le> os_minRtt (ow_rttSampler w)" "os_minRtt (ow_rttSampler w) < 2 ^ 63"
    and "0 \<le> ow_owd w" "ow_owd w \<le> 2 ^ 53"
    and "os_minRtt (ow_rttSampler w) < ow_lossMaxRtt w \<longrightarrow>
           uint (ow_bandwidthEstimate w) * os_minRtt (ow_rttSampler w) < 2 ^ 52"
  shows "ow_delayReaction w = Inr
           (if os_minRtt (ow_rttSampler w) < ow_lossMaxRtt w \<and>
               4 * (ow_lossMaxRtt w - os_minRtt (ow_rttSampler w)) < 5 * ow_owd w
            then let bdp = word_of_int (uint (ow_bandwidthEstimate w) * os_minRtt (ow_rttSampler w) div 1000000);
                     ssthresh = max bdp (2 * udpSendPacketLen (ow_conn w))
                 in w\<lparr>ow_ssthresh := ssthresh, ow_cwndBytes := clamp (ow_conn w) ssthresh,
                      ow_owd := 0, ow_owdv := 0\<rparr>
            else w)"
  using ow_delayControl_exact [OF assms(1-6)]
    ow_delayPipe_exact [OF assms(3), of "ow_bandwidthEstimate w"] assms(7)
  by (simp add: ow_delayReaction_def Let_def)

definition sample_owd :: westwood_owd where
  "sample_owd = (newWestwoodOWD 0 sample_conn)
     \<lparr>ow_rttSampler := (newOwdRttSampler 10)\<lparr>os_minRtt := 50000\<rparr>,
      ow_bandwidthEstimate := 1000000, ow_owd := 160001\<rparr>"

theorem owd_delay_reaction_witness:
  "\<exists>w'. ow_delayReaction sample_owd = Inr w' \<and> ow_ssthresh w' = 50000 \<and> ow_cwndBytes w' = 50000 \<and> ow_owd w' = 0"
  using owd_delay_reaction [of sample_owd]
  by (simp add: sample_owd_def newWestwoodOWD_def newOwdRttSampler_def sample_conn_def boundedCwnd_def)

end
