(* ===== verification/Controllers.thy ===== *)
theory Controllers
  imports Westwood_OWD
begin

text \<open>
  The loss-based and the fixed-window controllers beside the Westwood family, and the
  factories that choose among them:
  \<^item> \<open>NewReno\<close> (\<open>congestion_control/NewReno.{h,cpp}\<close>), prefix \<open>reno_\<close>;
  \<^item> \<open>StaticCwndCongestionController\<close>, prefix \<open>static_\<close>;
  \<^item> the default and the server \<open>makeCongestionController\<close>.

  Both controllers are instances of the \<open>congestion_controller\<close> interface. Logging and
  \<open>QUIC_STATS\<close> have no effect on the state and are left out; \<open>Clock::now()\<close> is an argument.
\<close>

section \<open>NewReno\<close>

record new_reno =
  reno_conn :: conn_state
  reno_ssthresh :: u64
  reno_cwndBytes :: u64
  reno_endOfRecovery :: "time_point option"

definition newNewReno :: "conn_state \<Rightarrow> new_reno" where
  "newNewReno conn =
     \<lparr>reno_conn = conn,
      reno_ssthresh = 0xFFFFFFFF,
      reno_cwndBytes = clamp conn (initCwndInMss conn * udpSendPacketLen conn),
      reno_endOfRecovery = None\<rparr>"

definition reno_set_inflight :: "u64 \<Rightarrow> new_reno \<Rightarrow> new_reno" where
  "reno_set_inflight n r = r\<lparr>reno_conn := (reno_conn r)\<lparr>inflightBytes := n\<rparr>\<rparr>"

definition reno_onRemoveBytesFromInflight :: "new_reno \<Rightarrow> u64 \<Rightarrow> quic_error + new_reno" where
  "reno_onRemoveBytesFromInflight r bytes =
     bind_result (subtractAndCheckUnderflow (inflightBytes (reno_conn r)) bytes)
       (\<lambda>n. Inr (reno_set_inflight n r))"

definition reno_onPacketSent :: "new_reno \<Rightarrow> u16 \<Rightarrow> quic_error + new_reno" where
  "reno_onPacketSent r pktSize =
     bind_result (addAndCheckOverflow (inflightBytes (reno_conn r)) (ucast pktSize))
       (\<lambda>n. Inr (reno_set_inflight n r))"

text \<open>The division by \<open>cwndBytes_\<close> is undefined for an empty window.\<close>

definition reno_onPacketAcked :: "new_reno \<Rightarrow> ack_packet \<Rightarrow> quic_error + new_reno" where
  "reno_onPacketAcked r packet =
     (if (case reno_endOfRecovery r of Some t \<Rightarrow> sentTime packet < t | None \<Rightarrow> False) then Inr r
      else bind_result
        (if reno_cwndBytes r < reno_ssthresh r
         then addAndCheckOverflow (reno_cwndBytes r) (ucast (encodedSize packet))
         else if reno_cwndBytes r = 0 then Inl Undefined_behaviour
         else addAndCheckOverflow (reno_cwndBytes r)
                ((kDefaultUDPSendPacketLen * ucast (encodedSize packet)) div reno_cwndBytes r))
        (\<lambda>c. Inr (r\<lparr>reno_cwndBytes := c\<rparr>)))"

definition reno_onAckEvent :: "ack_event \<Rightarrow> new_reno \<Rightarrow> quic_error + new_reno" where
  "reno_onAckEvent ack r =
     bind_result (subtractAndCheckUnderflow (inflightBytes (reno_conn r)) (ackedBytes ack)) (\<lambda>n.
     bind_result (run_events reno_onPacketAcked (reno_set_inflight n r) (ackedPackets ack)) (\<lambda>r1.
     Inr (r1\<lparr>reno_cwndBytes := clamp (reno_conn r1) (reno_cwndBytes r1)\<rparr>)))"

definition reno_newLoss :: "new_reno \<Rightarrow> loss_event \<Rightarrow> quic_error + bool" where
  "reno_newLoss r loss =
     (case reno_endOfRecovery r of
        None \<Rightarrow> Inr True
      | Some t \<Rightarrow> (case largestLostSentTime loss of
                      None \<Rightarrow> Inl Undefined_behaviour
                    | Some lost \<Rightarrow> Inr (t < lost)))"

definition reno_halve :: "time_point \<Rightarrow> new_reno \<Rightarrow> new_reno" where
  "reno_halve now r =
     (let c = clamp (reno_conn r) (drop_bit 1 (reno_cwndBytes r))
      in r\<lparr>reno_endOfRecovery := Some now, reno_cwndBytes := c, reno_ssthresh := c\<rparr>)"

definition reno_onPacketLoss :: "loss_event \<Rightarrow> time_point \<Rightarrow> new_reno \<Rightarrow> quic_error + new_reno" where
  "reno_onPacketLoss loss now r =
     bind_result (subtractAndCheckUnderflow (inflightBytes (reno_conn r)) (lostBytes loss)) (\<lambda>n.
     let r1 = reno_set_inflight n r
     in bind_result (reno_newLoss r1 loss) (\<lambda>fresh.
        let r2 = if fresh then reno_halve now r1 else r1
        in Inr (if persistentCongestion loss
                then r2\<lparr>reno_cwndBytes := minCwndInMss (reno_conn r2) * udpSendPacketLen (reno_conn r2)\<rparr>
                else r2)))"

definition reno_onPacketAckOrLoss :: "new_reno \<Rightarrow> cc_event \<Rightarrow> quic_error + new_reno" where
  "reno_onPacketAckOrLoss r ev =
     bind_result
       (case ev_loss ev of
          Some loss \<Rightarrow> reno_onPacketLoss loss (ev_recovery_now ev) r
        | None \<Rightarrow> Inr r)
       (\<lambda>r1. case ev_ack ev of
          Some ack \<Rightarrow> if largestNewlyAckedPacket ack \<noteq> None then reno_onAckEvent ack r1 else Inr r1
        | None \<Rightarrow> Inr r1)"

definition reno_getWritableBytes :: "new_reno \<Rightarrow> u64" where
  "reno_getWritableBytes r =
     (if inflightBytes (reno_conn r) > reno_cwndBytes r then 0
      else reno_cwndBytes r - inflightBytes (reno_conn r))"

definition reno_getCongestionWindow :: "new_reno \<Rightarrow> u64" where
  "reno_getCongestionWindow r = reno_cwndBytes r"

definition reno_getSlowStartThreshold :: "new_reno \<Rightarrow> u64" where
  "reno_getSlowStartThreshold r = reno_ssthresh r"

definition reno_inSlowStart :: "new_reno \<Rightarrow> bool" where
  "reno_inSlowStart r \<longleftrightarrow> reno_cwndBytes r < reno_ssthresh r"

definition reno_getBytesInFlight :: "new_reno \<Rightarrow> u64" where
  "reno_getBytesInFlight r = inflightBytes (reno_conn r)"

section \<open>The static window\<close>

record static_cwnd =
  static_congestionWindowInBytes :: u64
  static_inflightBytes :: u64
  static_isAppLimited :: bool

definition newStaticCwnd :: "u64 \<Rightarrow> static_cwnd" where
  "newStaticCwnd bytes =
     \<lparr>static_congestionWindowInBytes = bytes, static_inflightBytes = 0, static_isAppLimited = False\<rparr>"

definition static_onRemoveBytesFromInflight :: "static_cwnd \<Rightarrow> u64 \<Rightarrow> quic_error + static_cwnd" where
  "static_onRemoveBytesFromInflight s bytes =
     bind_result (subtractAndCheckUnderflow (static_inflightBytes s) bytes)
       (\<lambda>n. Inr (s\<lparr>static_inflightBytes := n\<rparr>))"

definition static_onPacketSent :: "static_cwnd \<Rightarrow> u16 \<Rightarrow> quic_error + static_cwnd" where
  "static_onPacketSent s pktSize =
     bind_result (addAndCheckOverflow (static_inflightBytes s) (ucast pktSize))
       (\<lambda>n. Inr (s\<lparr>static_isAppLimited := False, static_inflightBytes := n\<rparr>))"

definition static_onPacketAckOrLoss :: "static_cwnd \<Rightarrow> cc_event \<Rightarrow> quic_error + static_cwnd" where
  "static_onPacketAckOrLoss s ev =
     bind_result
       (case ev_ack ev of
          Some ack \<Rightarrow> static_onRemoveBytesFromInflight s (ackedBytes ack)
        | None \<Rightarrow> Inr s)
       (\<lambda>s1. case ev_loss ev of
          Some loss \<Rightarrow> static_onRemoveBytesFromInflight s1 (lostBytes loss)
        | None \<Rightarrow> Inr s1)"

definition static_getCongestionWindow :: "static_cwnd \<Rightarrow> u64" where
  "static_getCongestionWindow s = static_congestionWindowInBytes s"

definition static_getWritableBytes :: "static_cwnd \<Rightarrow> u64" where
  "static_getWritableBytes s =
     (if static_getCongestionWindow s > static_inflightBytes s
      then static_getCongestionWindow s - static_inflightBytes s else 0)"

definition static_setAppLimited :: "static_cwnd \<Rightarrow> static_cwnd" where
  "static_setAppLimited s = s\<lparr>static_isAppLimited := True\<rparr>"

section \<open>The factories\<close>

text \<open>
  What a factory hands out: the modelled controllers in their initial state, the others
  (Cubic, Copa, BBR and their variants) by the type they construct.
\<close>

datatype controller =
    Reno_controller new_reno
  | Westwood_controller westwood
  | WestwoodOWD_controller westwood_owd
  | Other_controller congestion_control_type

fun makeCongestionController ::
    "time_point \<Rightarrow> conn_state \<Rightarrow> congestion_control_type \<Rightarrow> quic_error + controller option" where
  "makeCongestionController now conn NewReno = Inr (Some (Reno_controller (newNewReno conn)))"
| "makeCongestionController now conn Cubic = Inr (Some (Other_controller Cubic))"
| "makeCongestionController now conn Westwood = Inr (Some (Westwood_controller (newWestwood now conn)))"
| "makeCongestionController now conn WestwoodOWD = Inr (Some (WestwoodOWD_controller (newWestwoodOWD now conn)))"
| "makeCongestionController now conn Copa = Inr (Some (Other_controller Copa))"
| "makeCongestionController now conn Copa2 = Inr (Some (Other_controller Copa2))"
| "makeCongestionController now conn BBRTesting = Inr (Some (Other_controller BBR))"
| "makeCongestionController now conn BBR = Inr (Some (Other_controller BBR))"
| "makeCongestionController now conn BBR2 = Inr (Some (Other_controller BBR2))"
| "makeCongestionController now conn StaticCwnd = Inl Internal_error"
| "makeCongestionController now conn NoController = Inr None"
| "makeCongestionController now conn MAX_type = Inl Internal_error"

fun server_makeCongestionController ::
    "time_point \<Rightarrow> conn_state \<Rightarrow> congestion_control_type \<Rightarrow> quic_error + controller option" where
  "server_makeCongestionController now conn NewReno = Inr (Some (Reno_controller (newNewReno conn)))"
| "server_makeCongestionController now conn Cubic = Inr (Some (Other_controller Cubic))"
| "server_makeCongestionController now conn Westwood = Inr (Some (Westwood_controller (newWestwood now conn)))"
| "server_makeCongestionController now conn WestwoodOWD = Inr (Some (WestwoodOWD_controller (newWestwoodOWD now conn)))"
| "server_makeCongestionController now conn Copa = Inr (Some (Other_controller Copa))"
| "server_makeCongestionController now conn Copa2 = Inr (Some (Other_controller Copa2))"
| "server_makeCongestionController now conn BBRTesting = Inr (Some (Other_controller BBRTesting))"
| "server_makeCongestionController now conn BBR = Inr (Some (Other_controller BBR))"
| "server_makeCongestionController now conn BBR2 = Inr (Some (Other_controller BBR2))"
| "server_makeCongestionController now conn StaticCwnd = Inl Internal_error"
| "server_makeCongestionController now conn NoController = Inr None"
| "server_makeCongestionController now conn MAX_type = Inl Internal_error"

text \<open>The \<open>type()\<close> methods.\<close>

fun controller_type :: "controller \<Rightarrow> congestion_control_type" where
  "controller_type (Reno_controller r) = NewReno"
| "controller_type (Westwood_controller w) = Westwood"
| "controller_type (WestwoodOWD_controller w) = WestwoodOWD"
| "controller_type (Other_controller t) = t"

section \<open>The NewReno invariant\<close>

definition reno_inv :: "conn_state \<Rightarrow> new_reno \<Rightarrow> bool" where
  "reno_inv conn r \<longleftrightarrow>
     settings_of (reno_conn r) = settings_of conn \<and> cwnd_bounded conn (reno_cwndBytes r)"

lemma reno_inv_new: "reno_inv conn (newNewReno conn)"
  by (simp add: reno_inv_def newNewReno_def)

lemma reno_inv_inflight [simp]: "reno_inv conn (reno_set_inflight n r) = reno_inv conn r"
  by (simp add: reno_inv_def reno_set_inflight_def)

lemma reno_inv_clamp:
  "settings_of (reno_conn r) = settings_of conn \<Longrightarrow>
   reno_inv conn (r\<lparr>reno_cwndBytes := clamp (reno_conn r) c\<rparr>)"
  using cwnd_bounded_settings [of "reno_conn r" conn] clamp_bounded [of "reno_conn r" c]
  by (simp add: reno_inv_def)

lemma reno_run_conn:
  "run_events reno_onPacketAcked r packets = Inr r' \<Longrightarrow> reno_conn r' = reno_conn r"
  by (induction packets arbitrary: r)
    (fastforce simp: reno_onPacketAcked_def result_simps split: if_splits)+

lemma reno_onAckEvent_inv:
  assumes "reno_inv conn r" and "reno_onAckEvent ack r = Inr r'"
  shows "reno_inv conn r'"
proof -
  obtain n r1 where run: "run_events reno_onPacketAcked (reno_set_inflight n r) (ackedPackets ack) = Inr r1"
    and r': "r' = r1\<lparr>reno_cwndBytes := clamp (reno_conn r1) (reno_cwndBytes r1)\<rparr>"
    using assms(2) by (auto simp: reno_onAckEvent_def result_simps)
  have "settings_of (reno_conn r1) = settings_of conn"
    using assms(1) reno_run_conn [OF run] by (simp add: reno_inv_def reno_set_inflight_def)
  then show ?thesis unfolding r' by (rule reno_inv_clamp)
qed

lemma reno_halve_inv: "reno_inv conn r \<Longrightarrow> reno_inv conn (reno_halve now r)"
  using reno_inv_clamp [of r conn "drop_bit 1 (reno_cwndBytes r)"]
  by (simp add: reno_halve_def reno_inv_def Let_def)

lemma cwnd_floor_bounded: "cwnd_bounded conn (cwnd_floor conn)"
  by (simp add: cwnd_bounded_def cwnd_ceiling_def)

lemma reno_minimum_inv:
  "reno_inv conn r \<Longrightarrow>
   reno_inv conn (r\<lparr>reno_cwndBytes := minCwndInMss (reno_conn r) * udpSendPacketLen (reno_conn r)\<rparr>)"
  using cwnd_bounded_settings [of "reno_conn r" conn]
    cwnd_floor_bounded [of "reno_conn r", unfolded cwnd_floor_def]
  by (simp add: reno_inv_def)

lemma reno_onPacketLoss_inv:
  "reno_inv conn r \<Longrightarrow> reno_onPacketLoss loss now r = Inr r' \<Longrightarrow> reno_inv conn r'"
  using reno_halve_inv [of conn _ now] reno_minimum_inv [of conn]
  by (auto simp: reno_onPacketLoss_def Let_def result_simps)

lemma reno_onPacketAckOrLoss_inv:
  assumes "reno_inv conn r" and "reno_onPacketAckOrLoss r ev = Inr r'"
  shows "reno_inv conn r'"
proof -
  obtain r1 where "(case ev_loss ev of Some loss \<Rightarrow> reno_onPacketLoss loss (ev_recovery_now ev) r
        | None \<Rightarrow> Inr r) = Inr r1"
    and r': "(case ev_ack ev of
          Some ack \<Rightarrow> if largestNewlyAckedPacket ack \<noteq> None then reno_onAckEvent ack r1 else Inr r1
        | None \<Rightarrow> Inr r1) = Inr r'"
    using assms(2) by (auto simp: reno_onPacketAckOrLoss_def result_simps)
  then have "reno_inv conn r1"
    using assms(1) by (auto split: option.splits intro: reno_onPacketLoss_inv)
  with r' show ?thesis by (auto split: option.splits if_splits intro: reno_onAckEvent_inv)
qed

lemma reno_onPacketSent_iff:
  "reno_onPacketSent r n = Inr r' \<longleftrightarrow> unat (inflightBytes (reno_conn r)) + unat n < 2 ^ 64 \<and>
     r' = reno_set_inflight (inflightBytes (reno_conn r) + ucast n) r"
  by (auto simp: reno_onPacketSent_def result_simps addAndCheckOverflow_iff)

lemma reno_onRemoveBytesFromInflight_iff:
  "reno_onRemoveBytesFromInflight r k = Inr r' \<longleftrightarrow> k \<le> inflightBytes (reno_conn r) \<and>
     r' = reno_set_inflight (inflightBytes (reno_conn r) - k) r"
  by (auto simp: reno_onRemoveBytesFromInflight_def result_simps subtractAndCheckUnderflow_iff)

lemmas reno_flight_simps =
  reno_onPacketSent_iff reno_onRemoveBytesFromInflight_iff reno_getBytesInFlight_def
  reno_getCongestionWindow_def reno_set_inflight_def

interpretation reno: congestion_controller reno_onPacketSent reno_onRemoveBytesFromInflight
    reno_onPacketAckOrLoss reno_getWritableBytes reno_getCongestionWindow reno_getBytesInFlight
    "reno_inv conn"
  for conn
proof (unfold_locales, goal_cases)
  case (2 c n c')
  then show ?case by (auto simp: reno_flight_simps intro!: unat_add_no_overflow [THEN trans])
next
  case (4 c n c')
  then show ?case by (auto simp: reno_onPacketSent_iff)
next
  case (6 c k c')
  then show ?case by (auto simp: reno_flight_simps unat_sub word_le_nat_alt)
next
  case (8 c k c')
  then show ?case by (auto simp: reno_onRemoveBytesFromInflight_iff)
next
  case (9 c v c')
  then show ?case by (rule reno_onPacketAckOrLoss_inv)
next
  case (10 c)
  then show ?case
    by (auto simp: reno_getWritableBytes_def reno_getCongestionWindow_def
        reno_getBytesInFlight_def unat_sub word_less_nat_alt word_le_nat_alt not_less)
qed (auto simp: reno_flight_simps)

section \<open>The static window's accounting\<close>

lemma static_sent_iff:
  "static_onPacketSent s n = Inr s' \<longleftrightarrow> unat (static_inflightBytes s) + unat n < 2 ^ 64 \<and>
     s' = s\<lparr>static_isAppLimited := False, static_inflightBytes := static_inflightBytes s + ucast n\<rparr>"
  by (auto simp: static_onPacketSent_def result_simps addAndCheckOverflow_iff)

lemma static_remove_iff:
  "static_onRemoveBytesFromInflight s k = Inr s' \<longleftrightarrow> k \<le> static_inflightBytes s \<and>
     s' = s\<lparr>static_inflightBytes := static_inflightBytes s - k\<rparr>"
  by (auto simp: static_onRemoveBytesFromInflight_def result_simps subtractAndCheckUnderflow_iff)

lemma static_ackOrLoss_window:
  "static_onPacketAckOrLoss s ev = Inr s' \<Longrightarrow>
   static_congestionWindowInBytes s' = static_congestionWindowInBytes s"
  by (auto simp: static_onPacketAckOrLoss_def result_simps static_remove_iff split: option.splits)

interpretation static: congestion_controller static_onPacketSent static_onRemoveBytesFromInflight
    static_onPacketAckOrLoss static_getWritableBytes static_getCongestionWindow static_inflightBytes
    "\<lambda>s. static_congestionWindowInBytes s = bytes"
  for bytes
proof (unfold_locales, goal_cases)
  case (2 c n c')
  then show ?case by (auto simp: static_sent_iff intro!: unat_add_no_overflow [THEN trans])
next
  case (6 c k c')
  then show ?case by (auto simp: static_remove_iff unat_sub word_le_nat_alt)
next
  case (9 c v c')
  then show ?case using static_ackOrLoss_window [of c v c'] by simp
next
  case (10 c)
  then show ?case
    by (auto simp: static_getWritableBytes_def unat_sub word_less_nat_alt word_le_nat_alt not_less)
qed (auto simp: static_sent_iff static_remove_iff static_getCongestionWindow_def)

text \<open>The bytes a call adds to and takes from the flight.\<close>

fun call_sent :: "cc_event cc_call \<Rightarrow> nat" where
  "call_sent (Sent n) = unat n"
| "call_sent _ = 0"

fun call_gone :: "cc_event cc_call \<Rightarrow> nat" where
  "call_gone (Sent n) = 0"
| "call_gone (Removed k) = unat k"
| "call_gone (Ack_or_loss ev) =
     (case ev_ack ev of Some ack \<Rightarrow> unat (ackedBytes ack) | None \<Rightarrow> 0) +
     (case ev_loss ev of Some loss \<Rightarrow> unat (lostBytes loss) | None \<Rightarrow> 0)"

lemma static_ackOrLoss_gone:
  "static_onPacketAckOrLoss s ev = Inr s' \<Longrightarrow>
   unat (static_inflightBytes s') + call_gone (Ack_or_loss ev) = unat (static_inflightBytes s)"
  by (auto simp: static_onPacketAckOrLoss_def result_simps static_remove_iff unat_sub word_le_nat_alt
      split: option.splits)

lemma static_step_account:
  assumes "cc_step static_onPacketSent static_onRemoveBytesFromInflight static_onPacketAckOrLoss s c = Inr s'"
  shows "unat (static_inflightBytes s') + call_gone c = unat (static_inflightBytes s) + call_sent c"
proof (cases c)
  case (Sent n)
  then show ?thesis using assms static.sent_in_flight by simp
next
  case (Removed k)
  then show ?thesis using assms static.remove_in_flight by simp
next
  case (Ack_or_loss ev)
  then show ?thesis using assms static_ackOrLoss_gone [of s ev s'] by simp
qed

lemma static_run_account:
  assumes "run_events (cc_step static_onPacketSent static_onRemoveBytesFromInflight static_onPacketAckOrLoss)
             s calls = Inr s'"
  shows "unat (static_inflightBytes s') + sum_list (map call_gone calls) =
         unat (static_inflightBytes s) + sum_list (map call_sent calls)"
  using assms
proof (induction calls arbitrary: s)
  case (Cons c calls)
  then obtain s1 where s1: "cc_step static_onPacketSent static_onRemoveBytesFromInflight static_onPacketAckOrLoss s c = Inr s1"
    and "run_events (cc_step static_onPacketSent static_onRemoveBytesFromInflight static_onPacketAckOrLoss) s1 calls = Inr s'"
    by (auto simp: result_simps)
  with Cons.IH [of s1] static_step_account [OF s1] show ?case by simp
qed simp

section \<open>Properties\<close>

text \<open>
  C23. NewReno's congestion window is between its configured bounds after every sequence of
  sent, removed, acknowledged and lost packets that the controller survives.
\<close>

theorem reno_window_bounded:
  assumes "run_events (cc_step reno_onPacketSent reno_onRemoveBytesFromInflight reno_onPacketAckOrLoss)
             (newNewReno conn) calls = Inr r"
  shows "cwnd_floor conn \<le> reno_getCongestionWindow r \<and> reno_getCongestionWindow r \<le> cwnd_ceiling conn"
proof -
  have "reno_inv conn r" by (rule reno.run_invar [OF reno_inv_new assms])
  then show ?thesis by (simp add: reno_inv_def cwnd_bounded_def reno_getCongestionWindow_def)
qed

lemmas reno_eval =
  reno_onPacketSent_def reno_onRemoveBytesFromInflight_def reno_onPacketAckOrLoss_def reno_onAckEvent_def
  reno_onPacketLoss_def reno_onPacketAcked_def reno_set_inflight_def reno_newLoss_def reno_halve_def
  newNewReno_def addAndCheckOverflow_def subtractAndCheckUnderflow_def boundedCwnd_def Let_def

theorem reno_window_bounded_witness:
  "\<exists>r. run_events (cc_step reno_onPacketSent reno_onRemoveBytesFromInflight reno_onPacketAckOrLoss)
         (newNewReno sample_conn) sample_calls = Inr r \<and>
       cwnd_floor sample_conn \<le> reno_getCongestionWindow r \<and>
       reno_getCongestionWindow r \<le> cwnd_ceiling sample_conn \<and> reno_getCongestionWindow r = 6760"
proof -
  obtain r where r: "run_events (cc_step reno_onPacketSent reno_onRemoveBytesFromInflight reno_onPacketAckOrLoss)
         (newNewReno sample_conn) sample_calls = Inr r" "reno_cwndBytes r = 6760"
    by (simp add: sample_defs reno_eval)
  show ?thesis
    using reno_window_bounded [OF r(1)] r by (auto simp: reno_getCongestionWindow_def)
qed



text \<open>
  C31. The fixed-window controller accounts for every byte: after any sequence of calls it
  survives, the bytes in flight plus the bytes removed, acknowledged and lost are the
  bytes sent, and the window is the one it was built with.
\<close>

theorem static_flight_accounting:
  assumes "run_events (cc_step static_onPacketSent static_onRemoveBytesFromInflight static_onPacketAckOrLoss)
             (newStaticCwnd bytes) calls = Inr s"
  shows "unat (static_inflightBytes s) + sum_list (map call_gone calls) = sum_list (map call_sent calls) \<and>
         static_getCongestionWindow s = bytes"
proof -
  have "static_congestionWindowInBytes s = bytes"
    by (rule static.run_invar [OF _ assms]) (simp add: newStaticCwnd_def)
  with static_run_account [OF assms] show ?thesis
    by (simp add: static_getCongestionWindow_def newStaticCwnd_def)
qed

theorem static_flight_accounting_witness:
  "\<exists>s. run_events (cc_step static_onPacketSent static_onRemoveBytesFromInflight static_onPacketAckOrLoss)
         (newStaticCwnd 5000) sample_calls = Inr s \<and>
       unat (static_inflightBytes s) + 2900 = 2900 \<and> static_getCongestionWindow s = 5000"
proof -
  obtain s where s: "run_events (cc_step static_onPacketSent static_onRemoveBytesFromInflight static_onPacketAckOrLoss)
         (newStaticCwnd 5000) sample_calls = Inr s"
    by (simp add: sample_defs newStaticCwnd_def static_onPacketSent_def static_onRemoveBytesFromInflight_def
        static_onPacketAckOrLoss_def addAndCheckOverflow_def subtractAndCheckUnderflow_def)
  show ?thesis
    using static_flight_accounting [OF s] s by (simp add: sample_defs)
qed


end
