(* ===== verification/Quic_Codec.thy ===== *)
theory Quic_Codec
  imports Prelude
begin

text \<open>
  Variable-length integers (\<open>codec/QuicInteger.{h,cpp}\<close>) and packet numbers
  (\<open>codec/PacketNumber.cpp\<close>).

  Bytes are \<open>8 word\<close>s and a cursor is the list of the bytes it has left. The \<open>BufOp\<close> of the
  encoders appends an integer in network byte order, so an encoder returns the bytes it
  appends. \<open>folly::findLastSet\<close> is a parameter with its documented law.
\<close>

unbundle bit_operations_syntax

type_synonym byte = "8 word"

datatype codec_error =
    Transport_internal_error
  | Packet_number_encoding
  | Frame_encoding_error
  | Check_failure

section \<open>Network byte order\<close>

definition network_bytes :: "nat \<Rightarrow> 'a::len word \<Rightarrow> byte list" where
  "network_bytes n w = map (\<lambda>i. ucast (drop_bit (8 * i) w)) (rev [0..<n])"

definition from_be :: "byte list \<Rightarrow> u64" where
  "from_be bytes = foldl (\<lambda>acc b. push_bit 8 acc OR ucast b) 0 bytes"

section \<open>Variable-length integers\<close>

definition kOneByteLimit :: u64 where "kOneByteLimit = 0x3F"
definition kTwoByteLimit :: u64 where "kTwoByteLimit = 0x3FFF"
definition kFourByteLimit :: u64 where "kFourByteLimit = 0x3FFFFFFF"
definition kEightByteLimit :: u64 where "kEightByteLimit = 0x3FFFFFFFFFFFFFFF"

definition encodeOneByte :: "u64 \<Rightarrow> byte list" where
  "encodeOneByte v = network_bytes 1 (ucast v :: u8)"

definition encodeTwoBytes :: "u64 \<Rightarrow> byte list" where
  "encodeTwoBytes v = network_bytes 2 (ucast v OR 0x4000 :: u16)"

definition encodeFourBytes :: "u64 \<Rightarrow> byte list" where
  "encodeFourBytes v = network_bytes 4 (ucast v OR 0x80000000 :: u32)"

definition encodeEightBytes :: "u64 \<Rightarrow> byte list" where
  "encodeEightBytes v = network_bytes 8 (v OR 0xC000000000000000)"

definition encodeQuicInteger :: "u64 \<Rightarrow> codec_error + byte list" where
  "encodeQuicInteger v =
     (if v \<le> kOneByteLimit then Inr (encodeOneByte v)
      else if v \<le> kTwoByteLimit then Inr (encodeTwoBytes v)
      else if v \<le> kFourByteLimit then Inr (encodeFourBytes v)
      else if v \<le> kEightByteLimit then Inr (encodeEightBytes v)
      else Inl Transport_internal_error)"

text \<open>The overload with a fixed output size; \<open>CHECK\<close> aborts the program.\<close>

definition encodeQuicIntegerSized :: "u64 \<Rightarrow> int \<Rightarrow> codec_error + byte list" where
  "encodeQuicIntegerSized v outputSize =
     (if outputSize = 1 then (if v \<le> kOneByteLimit then Inr (encodeOneByte v) else Inl Check_failure)
      else if outputSize = 2 then (if v \<le> kTwoByteLimit then Inr (encodeTwoBytes v) else Inl Check_failure)
      else if outputSize = 4 then (if v \<le> kFourByteLimit then Inr (encodeFourBytes v) else Inl Check_failure)
      else if outputSize = 8 then (if v \<le> kEightByteLimit then Inr (encodeEightBytes v) else Inl Check_failure)
      else Inl Transport_internal_error)"

definition getQuicIntegerSize :: "u64 \<Rightarrow> codec_error + nat" where
  "getQuicIntegerSize v =
     (if v \<le> kOneByteLimit then Inr 1
      else if v \<le> kTwoByteLimit then Inr 2
      else if v \<le> kFourByteLimit then Inr 4
      else if v \<le> kEightByteLimit then Inr 8
      else Inl Transport_internal_error)"

definition decodeQuicIntegerLength :: "u8 \<Rightarrow> u8" where
  "decodeQuicIntegerLength firstByte = push_bit (unat (drop_bit 6 firstByte AND 0x03)) 1"

text \<open>
  \<open>cursor.pull(&result, n)\<close> fills the first \<open>n\<close> bytes in memory of a zeroed \<open>uint64_t\<close>;
  \<open>Endian::big\<close> then reads all eight as a big-endian number. The result carries the
  value, the bytes consumed and the cursor afterwards.
\<close>

definition decodeQuicInteger :: "byte list \<Rightarrow> u64 \<Rightarrow> (u64 \<times> nat \<times> byte list) option" where
  "decodeQuicInteger cursor maxBytes =
     (case cursor of
        [] \<Rightarrow> None
      | firstByte # rest \<Rightarrow>
          if maxBytes = 0 then None
          else
            let varintType = drop_bit 6 firstByte AND 0x03;
                bytesExpected = push_bit (unat varintType) 1 :: u8;
                n = unat bytesExpected
            in if varintType = 0 then Some (ucast (firstByte AND 0x3F), 1, rest)
               else if length cursor < n \<or> maxBytes < ucast bytesExpected then None
               else
                 let msbMask = NOT (push_bit 62 0b11) :: u64;
                     big = from_be (take n cursor @ replicate (8 - n) 0) AND msbMask
                 in Some (drop_bit (8 * (8 - n)) big, n, drop n cursor))"

section \<open>Packet numbers\<close>

record packet_num_encoding_result =
  result_num :: u64
  length_bytes :: nat

definition encodePacketNumber ::
    "(u64 \<Rightarrow> nat) \<Rightarrow> u64 \<Rightarrow> u64 \<Rightarrow> codec_error + packet_num_encoding_result" where
  "encodePacketNumber findLastSet packetNum largestAckedPacketNum =
     (let twiceDistance = (packetNum - largestAckedPacketNum) * 2;
          lengthInBits = findLastSet twiceDistance;
          lengthInBytes = (if lengthInBits = 0 then 1 else (lengthInBits + 7) div 8)
      in if lengthInBytes > 4 then Inl Packet_number_encoding
         else let m = push_bit (lengthInBytes * 8) 1 - 1
              in Inr \<lparr>result_num = packetNum AND m, length_bytes = lengthInBytes\<rparr>)"

definition decodePacketNumber :: "u64 \<Rightarrow> nat \<Rightarrow> u64 \<Rightarrow> codec_error + u64" where
  "decodePacketNumber encodedPacketNum packetNumBytes expectedNextPacketNum =
     (if packetNumBytes > 4 then Inl Check_failure
      else
        let packetNumBits = 8 * packetNumBytes;
            packetNumWin = push_bit packetNumBits 1 :: u64;
            packetNumHalfWin = drop_bit 1 packetNumWin;
            m = packetNumWin - 1;
            candidate = (expectedNextPacketNum AND NOT m) OR encodedPacketNum
        in if expectedNextPacketNum > packetNumHalfWin \<and>
              candidate \<le> expectedNextPacketNum - packetNumHalfWin \<and>
              candidate < push_bit 62 1 - packetNumWin
           then Inr (candidate + packetNumWin)
           else if candidate > expectedNextPacketNum + packetNumHalfWin \<and> candidate \<ge> packetNumWin
           then Inr (candidate - packetNumWin)
           else Inr candidate)"

section \<open>Byte order and limits\<close>

lemmas quic_limits = kOneByteLimit_def kTwoByteLimit_def kFourByteLimit_def kEightByteLimit_def

lemma from_be_snoc: "from_be (bs @ [b]) = push_bit 8 (from_be bs) OR ucast b"
  by (simp add: from_be_def)

text \<open>Bit \<open>k\<close> of the number is a bit of the byte \<open>k div 8\<close> places from the end.\<close>

lemma bit_from_be:
  assumes "length bs \<le> 8"
  shows "bit (from_be bs) k \<longleftrightarrow> k < 8 * length bs \<and> bit (rev bs ! (k div 8)) (k mod 8)"
  using assms
proof (induction bs arbitrary: k rule: rev_induct)
  case Nil
  then show ?case by (simp add: from_be_def)
next
  case (snoc b bs)
  have b: "bit (ucast b :: u64) k \<longleftrightarrow> k < 8 \<and> bit b k" for k
    by (auto simp: bit_simps dest: bit_imp_le_length)
  show ?case
  proof (cases "k < 8")
    case True
    then show ?thesis by (simp add: from_be_snoc bit_or_iff bit_push_bit_iff b)
  next
    case False
    then obtain j where k: "k = j + 8" by (metis add.commute le_add_diff_inverse not_less)
    have "bit (from_be (bs @ [b])) k \<longleftrightarrow> j < 56 \<and> bit (from_be bs) j"
      by (simp add: from_be_snoc bit_or_iff bit_push_bit_iff b k)
    also have "\<dots> \<longleftrightarrow> j < 8 * length bs \<and> bit (rev bs ! (j div 8)) (j mod 8)"
      using snoc.prems snoc.IH [of j] by auto
    also have "\<dots> \<longleftrightarrow> k < 8 * length (bs @ [b]) \<and> bit (rev (bs @ [b]) ! (k div 8)) (k mod 8)"
      by (simp add: k div_add_self2)
    finally show ?thesis .
  qed
qed

lemma length_network_bytes [simp]: "length (network_bytes n w) = n"
  by (simp add: network_bytes_def)

lemma network_bytes_Suc:
  "network_bytes (Suc n) w = ucast (drop_bit (8 * n) w) # network_bytes n w"
  by (simp add: network_bytes_def)

lemma rev_network_bytes:
  "i < n \<Longrightarrow> rev (network_bytes n w) ! i = ucast (drop_bit (8 * i) w)"
  by (simp add: network_bytes_def rev_map)

lemma bit_network_byte:
  "bit (ucast (drop_bit (8 * (k div 8)) w) :: byte) (k mod 8) \<longleftrightarrow> bit w k" for w :: "'a::len word"
  by (auto simp: bit_simps mult.commute dest: bit_imp_le_length)

text \<open>
  What \<open>decodeQuicInteger\<close> computes from the \<open>n\<close> bytes of a number: the number without its
  two highest bits.
\<close>

definition decoded :: "nat \<Rightarrow> byte list \<Rightarrow> u64" where
  "decoded n bytes = drop_bit (8 * (8 - n)) (from_be (bytes @ replicate (8 - n) 0) AND NOT (push_bit 62 0b11))"

lemma msbMask_eq: "NOT (push_bit 62 0b11) = (mask 62 :: u64)"
  by code_simp

lemma bit_decoded_bytes:
  assumes "length bytes = n" "0 < n" "n \<le> 8"
  shows "bit (decoded n bytes) k \<longleftrightarrow> k < 8 * n - 2 \<and> bit (rev bytes ! (k div 8)) (k mod 8)"
proof -
  let ?bs = "bytes @ replicate (8 - n) 0" and ?j = "k + 8 * (8 - n)"
  have len: "length ?bs = 8" using assms by simp
  have idx: "?j div 8 = k div 8 + (8 - n)" "?j mod 8 = k mod 8" by simp_all
  have "bit (decoded n bytes) k \<longleftrightarrow> ?j < 62 \<and> bit (from_be ?bs) ?j"
    unfolding decoded_def msbMask_eq bit_drop_bit_eq comp_def
    by (simp add: bit_and_iff bit_mask_iff add.commute) auto
  also have "\<dots> \<longleftrightarrow> k < 8 * n - 2 \<and> bit (rev ?bs ! (?j div 8)) (k mod 8)"
    using assms by (auto simp: bit_from_be len idx)
  also have "\<dots> \<longleftrightarrow> k < 8 * n - 2 \<and> bit (rev bytes ! (k div 8)) (k mod 8)"
    by (simp add: idx nth_append)
  finally show ?thesis .
qed

lemma bit_decoded:
  assumes "0 < n" "n \<le> 8"
  shows "bit (decoded n (network_bytes n w)) k \<longleftrightarrow> k < 8 * n - 2 \<and> bit w k"
  using assms by (auto simp: bit_decoded_bytes rev_network_bytes bit_network_byte)

lemma tag_bits: "(drop_bit 6 x AND 0x03 :: u8) = of_bool (bit x 6) + 2 * of_bool (bit x 7)"
proof -
  have "(0x03 :: u8) = mask (Suc (Suc 0))" by (simp add: mask_eq_exp_minus_1)
  then have "drop_bit 6 x AND 0x03 = take_bit (Suc (Suc 0)) (drop_bit 6 x)" by (simp only: take_bit_eq_mask)
  also have "\<dots> = of_bool (odd (drop_bit 6 x)) + 2 * of_bool (odd (drop_bit 6 x div 2))"
    by (simp add: take_bit_Suc mod_2_eq_odd)
  also have "drop_bit 6 x div 2 = drop_bit 7 x"
    by (simp add: drop_bit_half drop_bit_Suc numeral_eq_Suc)
  finally show ?thesis by (simp only: bit_iff_odd_drop_bit)
qed

lemma take_bit_word_id: "unat v < 2 ^ n \<Longrightarrow> take_bit n v = v"
  by (simp add: word_unat_eq_iff unsigned_take_bit_eq take_bit_nat_eq_self)

lemma bit_bound: "unat v < 2 ^ n \<Longrightarrow> bit v k \<Longrightarrow> k < n"
  by (metis bit_take_bit_iff take_bit_word_id)

text \<open>The decoder on a first byte of each of the four kinds.\<close>

lemma decodeQuicInteger_eq:
  assumes "bytes = b # bs" and "length bytes = n" and "n \<in> {2, 4, 8}"
    and "bit b 6 = (n = 2 \<or> n = 8)" and "bit b 7 = (n = 4 \<or> n = 8)" and "of_nat n \<le> m" and "m \<noteq> 0"
  shows "decodeQuicInteger (bytes @ rest) m = Some (decoded n bytes, n, rest)"
proof -
  have "n = 2 \<or> n = 4 \<or> n = 8" using assms(3) by blast
  then show ?thesis
    using assms by (elim disjE) (auto simp: decodeQuicInteger_def tag_bits decoded_def Let_def)
qed

lemma decoded_tagged:
  assumes "\<And>k. k < 8 * n - 2 \<Longrightarrow> bit w k = bit v k" and "unat v < 2 ^ (8 * n - 2)" and "0 < n" "n \<le> 8"
  shows "decoded n (network_bytes n w) = v"
  using assms bit_bound [OF assms(2)] by (intro bit_word_eqI) (auto simp: bit_decoded)

text \<open>The numbers with the two tag bits set; \<open>c\<close> is the tag in place.\<close>

lemma tagged_round_trip:
  fixes w :: "'a::len word"
  assumes w: "\<And>k. bit w k \<longleftrightarrow> bit v k \<or> (k = 8 * n - 2 \<and> (n = 2 \<or> n = 8)) \<or> (k = 8 * n - 1 \<and> (n = 4 \<or> n = 8))"
    and v: "unat v < 2 ^ (8 * n - 2)" and n: "n \<in> {2, 4, 8}" and m: "of_nat n \<le> m" "m \<noteq> 0"
  shows "decodeQuicInteger (network_bytes n w @ rest) m = Some (v, n, rest)"
proof -
  obtain n' where n': "n = Suc n'" using n by (cases n) auto
  let ?b = "ucast (drop_bit (8 * n') w) :: byte"
  have "bit ?b 6 = bit w (8 * n - 2)" "bit ?b 7 = bit w (8 * n - 1)"
    by (auto simp: n' bit_simps add.commute dest: bit_imp_le_length)
  then have tag: "bit ?b 6 = (n = 2 \<or> n = 8)" "bit ?b 7 = (n = 4 \<or> n = 8)"
    using n bit_bound [OF v, of "8 * n - 2"] bit_bound [OF v, of "8 * n - 1"] by (auto simp: w)
  have "decoded n (network_bytes n w) = v"
    using n by (intro decoded_tagged [OF _ v]) (auto simp: w)
  then show ?thesis
    using decodeQuicInteger_eq [of "network_bytes n w" ?b "network_bytes n' w" n m rest] n tag m
    by (auto simp: n' network_bytes_Suc)
qed

lemma bit_numeral_power: "bit (2 ^ i :: 'a::len word) k \<longleftrightarrow> k = i \<and> i < LENGTH('a)"
  by (auto simp: bit_exp_iff possible_bit_def)

lemma encode_bits:
  "bit (ucast v OR 0x4000 :: u16) k \<longleftrightarrow> (k < 16 \<and> bit v k) \<or> k = 14"
  "bit (ucast v OR 0x80000000 :: u32) k \<longleftrightarrow> (k < 32 \<and> bit v k) \<or> k = 31"
  "bit (v OR 0xC000000000000000) k \<longleftrightarrow> bit v k \<or> k = 62 \<or> k = 63" for v :: u64
proof -
  have "(0xC000000000000000 :: u64) = 2 ^ 62 OR 2 ^ 63" by simp
  then show "bit (v OR 0xC000000000000000) k \<longleftrightarrow> bit v k \<or> k = 62 \<or> k = 63"
    by (auto simp only: bit_or_iff bit_numeral_power) auto
  show "bit (ucast v OR 0x4000 :: u16) k \<longleftrightarrow> (k < 16 \<and> bit v k) \<or> k = 14"
    using bit_numeral_power [where 'a = 16, of 14 k] by (auto simp: bit_or_iff bit_simps)
  show "bit (ucast v OR 0x80000000 :: u32) k \<longleftrightarrow> (k < 32 \<and> bit v k) \<or> k = 31"
    using bit_numeral_power [where 'a = 32, of 31 k] by (auto simp: bit_or_iff bit_simps)
qed

lemma decode_encode_two: "v \<le> kTwoByteLimit \<Longrightarrow>
    decodeQuicInteger (encodeTwoBytes v @ rest) 8 = Some (v, 2, rest)"
  unfolding encodeTwoBytes_def
  by (rule tagged_round_trip)
    (auto simp: encode_bits quic_limits word_le_nat_alt dest: bit_bound [of v 14, rotated])

lemma decode_encode_four: "v \<le> kFourByteLimit \<Longrightarrow>
    decodeQuicInteger (encodeFourBytes v @ rest) 8 = Some (v, 4, rest)"
  unfolding encodeFourBytes_def
  by (rule tagged_round_trip)
    (auto simp: encode_bits quic_limits word_le_nat_alt dest: bit_bound [of v 30, rotated])

lemma decode_encode_eight: "v \<le> kEightByteLimit \<Longrightarrow>
    decodeQuicInteger (encodeEightBytes v @ rest) 8 = Some (v, 8, rest)"
  unfolding encodeEightBytes_def
  by (rule tagged_round_trip) (auto simp: encode_bits quic_limits word_le_nat_alt)

lemma decode_encode_one: "v \<le> kOneByteLimit \<Longrightarrow>
    decodeQuicInteger (encodeOneByte v @ rest) 8 = Some (v, 1, rest)"
proof -
  assume "v \<le> kOneByteLimit"
  then have v: "unat v < 2 ^ 6" by (simp add: quic_limits word_le_nat_alt)
  have m: "(0x3F :: u8) = mask 6" by (simp add: mask_eq_exp_minus_1)
  have "ucast ((ucast v :: u8) AND 0x3F) = take_bit 6 v"
    unfolding m by (intro bit_word_eqI) (auto simp: bit_simps)
  moreover have "\<not> bit v 6" "\<not> bit v 7" using bit_bound [OF v] by force+
  ultimately show ?thesis
    using take_bit_word_id [OF v]
    by (simp add: encodeOneByte_def network_bytes_def decodeQuicInteger_def tag_bits bit_simps Let_def)
qed

text \<open>Encoding a decoded number at the size it was read with restores the bytes.\<close>

lemma network_bytes_eqI:
  fixes w :: "'a::len word"
  assumes "length bytes = n" and "\<And>k. k < 8 * n \<Longrightarrow> bit w k \<longleftrightarrow> bit (rev bytes ! (k div 8)) (k mod 8)"
  shows "network_bytes n w = bytes"
proof -
  have "rev (network_bytes n w) = rev bytes"
  proof (rule nth_equalityI)
    fix i assume "i < length (rev (network_bytes n w))"
    then have i: "i < n" by simp
    show "rev (network_bytes n w) ! i = rev bytes ! i"
    proof (rule bit_word_eqI)
      fix k assume k: "k < LENGTH(8)"
      then have "8 * i + k < 8 * n" using i by simp
      from assms(2) [OF this] k show "bit (rev (network_bytes n w) ! i) k = bit (rev bytes ! i) k"
        using bit_network_byte [of "8 * i + k" w] i by (simp add: rev_network_bytes)
    qed
  qed (simp add: assms(1))
  then show ?thesis by simp
qed

lemma tagged_bytes:
  fixes w :: "'a::len word"
  assumes "bytes = b # bs" "length bytes = n" "n \<in> {2, 4, 8}"
    and "bit b 6 = (n = 2 \<or> n = 8)" "bit b 7 = (n = 4 \<or> n = 8)"
    and w: "\<And>k. k < 8 * n \<Longrightarrow> bit w k \<longleftrightarrow> bit (decoded n bytes) k \<or>
              (k = 8 * n - 2 \<and> (n = 2 \<or> n = 8)) \<or> (k = 8 * n - 1 \<and> (n = 4 \<or> n = 8))"
  shows "network_bytes n w = bytes"
proof (rule network_bytes_eqI [OF assms(2)])
  fix k assume k: "k < 8 * n"
  have n: "0 < n" "n \<le> 8" using assms(3) by auto
  have top: "rev bytes ! (n - 1) = b" using assms(1,2) by (auto simp: nth_append)
  show "bit w k \<longleftrightarrow> bit (rev bytes ! (k div 8)) (k mod 8)"
  proof (cases "k < 8 * n - 2")
    case True
    then show ?thesis using k n by (auto simp: w bit_decoded_bytes [OF assms(2)])
  next
    case False
    obtain m where m: "n = Suc m" using n by (cases n) auto
    have "k = 8 * m + 6 \<or> k = 8 * m + 7" using False k m by linarith
    then have "k div 8 = n - 1" "k = 8 * n - 2 \<and> k mod 8 = 6 \<or> k = 8 * n - 1 \<and> k mod 8 = 7"
      using m by auto
    then show ?thesis
      using k n assms(3-5) top unfolding w [OF k] bit_decoded_bytes [OF assms(2) n] by auto
  qed
qed

lemma decoded_less:
  assumes "length bytes = n" "n \<in> {2, 4, 8}"
  shows "unat (decoded n bytes) < 2 ^ (8 * n - 2)"
proof -
  have "take_bit (8 * n - 2) (decoded n bytes) = decoded n bytes"
    using assms by (intro bit_word_eqI) (auto simp: bit_take_bit_iff bit_decoded_bytes)
  then have "unat (decoded n bytes) = unat (decoded n bytes) mod 2 ^ (8 * n - 2)"
    by (metis take_bit_eq_mod unsigned_take_bit_eq)
  then show ?thesis by (metis mod_less_divisor zero_less_numeral zero_less_power)
qed

lemma decodeQuicInteger_cases:
  assumes "decodeQuicInteger cursor m = Some (v, n, rest)"
  obtains (one) b where "cursor = b # rest" "n = 1" "v = ucast (b AND 0x3F)" "\<not> bit b 6" "\<not> bit b 7"
  | (more) b bs where "cursor = (b # bs) @ rest" "length (b # bs) = n" "n \<in> {2, 4, 8}"
      "bit b 6 = (n = 2 \<or> n = 8)" "bit b 7 = (n = 4 \<or> n = 8)" "v = decoded n (b # bs)"
proof (cases cursor)
  case Nil
  with assms show ?thesis by (simp add: decodeQuicInteger_def)
next
  case (Cons b cs)
  show ?thesis
  proof (cases "bit b 6 \<or> bit b 7")
    case False
    with assms Cons one show ?thesis
      by (auto simp: decodeQuicInteger_def tag_bits Let_def split: if_splits)
  next
    case True
    then have "n \<in> {2, 4, 8} \<and> n \<le> length cursor \<and> bit b 6 = (n = 2 \<or> n = 8) \<and> bit b 7 = (n = 4 \<or> n = 8) \<and>
        v = decoded n (take n cursor) \<and> rest = drop n cursor"
      using assms Cons
      by (cases "bit b 6"; cases "bit b 7")
        (auto simp: decodeQuicInteger_def tag_bits Let_def decoded_def Suc_le_eq split: if_splits)
    moreover from this have "take n cursor = b # take (n - 1) cs" by (auto simp: Cons take_Cons')
    ultimately show ?thesis
      using more [of b "take (n - 1) cs"] append_take_drop_id [of n cursor]
      by (metis length_take min.absorb2)
  qed
qed

lemma encode_decoded_one:
  assumes "\<not> bit b 6" "\<not> bit b 7"
  shows "encodeQuicIntegerSized (ucast (b AND 0x3F)) 1 = Inr [b]"
proof -
  have m: "(0x3F :: u8) = mask 6" by (simp add: mask_eq_exp_minus_1)
  have "b AND 0x3F = b"
    unfolding m
  proof (rule bit_word_eqI)
    fix k assume "k < LENGTH(8)"
    then have "k < 6 \<or> k = 6 \<or> k = 7" by auto
    then show "bit (b AND mask 6) k = bit b k" using assms by (auto simp: bit_simps)
  qed
  moreover have "ucast (b AND 0x3F) \<le> kOneByteLimit"
  proof -
    have "unat (b AND mask 6) = take_bit 6 (unat b)"
      by (simp only: unsigned_take_bit_eq flip: take_bit_eq_mask)
    moreover have "take_bit 6 (unat b) < 2 ^ 6" by (rule take_bit_nat_less_exp)
    ultimately have "unat (b AND mask 6) < 2 ^ 6" by simp
    moreover have "unat (ucast (b AND mask 6) :: u64) = unat (b AND mask 6)"
      by (simp add: unsigned_ucast_eq take_bit_nat_eq_self_iff less_le_trans [OF unat_bound])
    ultimately show ?thesis unfolding m by (simp add: quic_limits word_le_nat_alt)
  qed
  moreover have "ucast (ucast b :: u64) = b" by (rule bit_word_eqI) (simp add: bit_simps)
  ultimately show ?thesis
    by (simp add: encodeQuicIntegerSized_def encodeOneByte_def network_bytes_def)
qed

lemma encode_decoded_more:
  assumes "bytes = b # bs" "length bytes = n" "n \<in> {2, 4, 8}"
    and "bit b 6 = (n = 2 \<or> n = 8)" "bit b 7 = (n = 4 \<or> n = 8)"
  shows "encodeQuicIntegerSized (decoded n bytes) (int n) = Inr bytes"
proof -
  note tagged = tagged_bytes [OF assms] and less = decoded_less [OF assms(2,3)]
  consider "n = 2" | "n = 4" | "n = 8" using assms(3) by blast
  then show ?thesis
  proof cases
    case 1
    then show ?thesis
      using less tagged [of "ucast (decoded n bytes) OR 0x4000 :: u16"]
      by (simp add: encodeQuicIntegerSized_def encodeTwoBytes_def encode_bits quic_limits word_le_nat_alt)
  next
    case 2
    then show ?thesis
      using less tagged [of "ucast (decoded n bytes) OR 0x80000000 :: u32"]
      by (simp add: encodeQuicIntegerSized_def encodeFourBytes_def encode_bits quic_limits word_le_nat_alt)
  next
    case 3
    then show ?thesis
      using less tagged [of "decoded n bytes OR 0xC000000000000000"]
      by (simp add: encodeQuicIntegerSized_def encodeEightBytes_def encode_bits quic_limits word_le_nat_alt)
  qed
qed

section \<open>Packet-number windows\<close>

text \<open>The law of \<open>folly::findLastSet\<close>: the 1-based index of the highest set bit, 0 for 0.\<close>

definition find_last_set_law :: "(u64 \<Rightarrow> nat) \<Rightarrow> bool" where
  "find_last_set_law f \<longleftrightarrow> f 0 = 0 \<and>
     (\<forall>x. x \<noteq> 0 \<longrightarrow> 0 < f x \<and> 2 ^ (f x - 1) \<le> unat x \<and> unat x < 2 ^ f x)"

lemma unat_power2: "k < LENGTH('a) \<Longrightarrow> unat (2 ^ k :: 'a::len word) = 2 ^ k"
  using unat_of_nat_small [where 'a = 'a, of "2 ^ k"] by simp

lemma window_candidate:
  fixes e pn :: nat
  assumes W: "W = 2 * H" "0 < H" and near: "pn < e + H" "e < pn + H"
    and c: "c = e div W * W + pn mod W"
  shows "c = pn \<or> (c + W = pn \<and> c + H < e) \<or> (c = pn + W \<and> e + H < c)"
proof -
  have e: "e = e div W * W + e mod W" "e mod W < W" and p: "pn = pn div W * W + pn mod W" "pn mod W < W"
    using W by (simp_all only: div_mult_mod_eq mod_less_divisor)
  have step: "(x + W) div W = x div W + 1" for x using W by (simp only: div_add_self2)
  have hi: "pn div W \<le> e div W + 1"
    using W near unfolding step [symmetric] by (intro div_le_mono) simp
  have lo: "e div W \<le> pn div W + 1"
    using W near unfolding step [symmetric] by (intro div_le_mono) simp
  consider "pn div W = e div W" | "pn div W = e div W + 1" | "e div W = pn div W + 1"
    using hi lo by linarith
  then show ?thesis
  proof cases
    case 1 then show ?thesis using c p(1) by simp
  next
    case 2
    then have "pn = e div W * W + W + pn mod W" using p(1) by simp
    then show ?thesis using c W near by linarith
  next
    case 3
    then have "e div W * W = pn div W * W + W" by simp
    then show ?thesis using c p(1) W near by linarith
  qed
qed

lemma candidate_value:
  fixes e pn :: u64
  assumes "n < 62" and "unat e < 2 ^ 63"
  shows "unat ((e AND NOT (mask n)) OR (pn AND mask n)) = unat e div 2 ^ n * 2 ^ n + unat pn mod 2 ^ n"
proof -
  have lowbits: "unat (x AND mask n) = unat x mod 2 ^ n" for x :: u64
    by (metis take_bit_eq_mask take_bit_eq_mod unsigned_take_bit_eq)
  have "e = (e AND NOT (mask n)) + (e AND mask n)"
    by (subst disjunctive_add) (auto simp: bit_simps intro!: bit_word_eqI)
  then have hi: "e AND NOT (mask n) = e - (e AND mask n)" by (metis add_diff_cancel_right')
  have "unat (e AND NOT (mask n)) = unat e - unat e mod 2 ^ n"
    unfolding hi by (subst unat_sub) (simp_all add: lowbits word_le_nat_alt)
  then have a: "unat (e AND NOT (mask n)) = unat e div 2 ^ n * 2 ^ n"
    by (simp add: minus_mod_eq_div_mult)
  have or: "(e AND NOT (mask n)) OR (pn AND mask n) = (e AND NOT (mask n)) + (pn AND mask n)"
    by (subst disjunctive_add) (auto simp: bit_simps)
  have sum: "a \<le> E \<Longrightarrow> b < P \<Longrightarrow> P \<le> 2 ^ 62 \<Longrightarrow> E < 2 ^ 63 \<Longrightarrow> a + b < (2 ^ 64 :: nat)" for a b E P
    by simp
  have "(2 :: nat) ^ n \<le> 2 ^ 62" using assms(1) by (intro power_increasing) auto
  then have "unat (e AND NOT (mask n)) + unat (pn AND mask n) < 2 ^ 64"
    unfolding a lowbits
    using sum [OF div_times_less_eq_dividend [of "unat e" "2 ^ n"], of "unat pn mod 2 ^ n" "2 ^ n"] assms(2) by simp
  then show ?thesis unfolding or by (simp add: unat_add_no_overflow a lowbits)
qed

lemma decodePacketNumber_near:
  assumes L: "0 < L" "L \<le> 4" and pn: "unat pn < 2 ^ 62"
    and near: "unat pn < unat e + 2 ^ (8 * L - 1)" "unat e < unat pn + 2 ^ (8 * L - 1)"
  shows "decodePacketNumber (pn AND mask (8 * L)) L e = Inr pn"
proof -
  define W where "W = (2 :: nat) ^ (8 * L)"
  define H where "H = (2 :: nat) ^ (8 * L - 1)"
  define c where "c = (e AND NOT (mask (8 * L))) OR (pn AND mask (8 * L))"
  have "8 * L = Suc (8 * L - 1)" using L by simp
  then have W: "W = 2 * H" unfolding W_def H_def by (metis power_Suc)
  have "H \<le> 2 ^ 31" unfolding H_def using L by (intro power_increasing) auto
  then have H: "0 < H" "H \<le> 2147483648" by (simp_all add: H_def)
  define w :: u64 where "w = push_bit (8 * L) 1"
  define h where "h = drop_bit 1 w"
  have uW: "unat w = W" using L by (simp add: w_def W_def push_bit_eq_mult unat_power2)
  have uH: "unat h = H" by (simp only: h_def unat_drop_bit_eq uW) (simp add: drop_bit_eq_div W)
  have m: "w - 1 = mask (8 * L)" by (simp add: w_def mask_eq_exp_minus_1 push_bit_eq_mult)
  have e: "unat e < 2 ^ 63" using near(2) pn H(2) unfolding H_def [symmetric] by simp
  have uc: "unat c = unat e div W * W + unat pn mod W"
    unfolding c_def W_def using L e by (intro candidate_value) auto
  have win: "unat c = unat pn \<or> (unat c + W = unat pn \<and> unat c + H < unat e) \<or>
             (unat c = unat pn + W \<and> unat e + H < unat c)"
    using near by (intro window_candidate [OF W H(1) _ _ uc]) (simp_all add: H_def)
  have "unat (push_bit 62 1 - w :: u64) = 2 ^ 62 - W"
    using H by (subst unat_sub) (simp_all add: uW W word_le_nat_alt)
  then have cond1: "h < e \<and> c \<le> e - h \<and> c < push_bit 62 1 - w \<longleftrightarrow>
      H < unat e \<and> unat c \<le> unat e - H \<and> unat c < 2 ^ 62 - W"
    by (auto simp: word_less_nat_alt word_le_nat_alt uH unat_sub)
  have cond2: "e + h < c \<and> w \<le> c \<longleftrightarrow> unat e + H < unat c \<and> W \<le> unat c"
    using e H by (simp add: word_less_nat_alt word_le_nat_alt uH uW unat_add_no_overflow)
  have "decodePacketNumber (pn AND mask (8 * L)) L e =
      (if h < e \<and> c \<le> e - h \<and> c < push_bit 62 1 - w then Inr (c + w)
       else if e + h < c \<and> w \<le> c then Inr (c - w) else Inr c)"
    using L unfolding decodePacketNumber_def Let_def w_def [symmetric] h_def [symmetric] m c_def [symmetric] by simp
  also have "\<dots> = Inr pn"
    using win pn W near unfolding cond1 cond2 H_def [symmetric]
    by (auto simp: word_unat_eq_iff uW unat_add_no_overflow unat_sub word_le_nat_alt)
  finally show ?thesis .
qed

lemma encoding_length:
  assumes "find_last_set_law f" and "unat x < 2 ^ 32"
    and L: "L = (if f x = 0 then 1 else (f x + 7) div 8)"
  shows "0 < L \<and> L \<le> 4 \<and> unat x < 2 ^ (8 * L)"
proof (cases "x = 0")
  case True
  with assms show ?thesis by (simp add: find_last_set_law_def)
next
  case False
  then have b: "0 < f x" "2 ^ (f x - 1) \<le> unat x" "unat x < 2 ^ f x"
    using assms(1) by (auto simp: find_last_set_law_def)
  then have "(2 :: nat) ^ (f x - 1) < 2 ^ 32" using assms(2) by linarith
  then have "f x - 1 < 32" by (simp only: power_strict_increasing_iff)
  then have "0 < L" "L \<le> 4" "f x \<le> 8 * L" using b(1) by (simp_all add: L)
  moreover have "(2 :: nat) ^ f x \<le> 2 ^ (8 * L)" using calculation by (intro power_increasing) auto
  ultimately show ?thesis using b(3) by linarith
qed

lemma encodePacketNumber_near:
  assumes "find_last_set_law f" and "la \<le> pn" and "unat pn - unat la < 2 ^ 31"
  shows "\<exists>L. encodePacketNumber f pn la = Inr \<lparr>result_num = pn AND mask (8 * L), length_bytes = L\<rparr> \<and>
           0 < L \<and> L \<le> 4 \<and> unat pn - unat la < 2 ^ (8 * L - 1)"
proof -
  define x where "x = (pn - la) * 2"
  define L where "L = (if f x = 0 then 1 else (f x + 7) div 8)"
  have d: "unat (pn - la) = unat pn - unat la" using assms(2) by (simp add: unat_sub)
  then have ux: "unat x = 2 * (unat pn - unat la)"
    using assms(3) unat_mult_no_overflow [of "pn - la" 2] unfolding x_def by simp
  then have "unat x < 2 ^ 32" using assms(3) by simp
  from encoding_length [OF assms(1) this L_def] have L: "0 < L" "L \<le> 4" "unat x < 2 ^ (8 * L)" by auto
  have "8 * L = Suc (8 * L - 1)" using L(1) by simp
  then have "(2 :: nat) ^ (8 * L) = 2 * 2 ^ (8 * L - 1)" by (metis power_Suc)
  with L(3) ux have "unat pn - unat la < 2 ^ (8 * L - 1)" by simp
  moreover have "encodePacketNumber f pn la = Inr \<lparr>result_num = pn AND mask (8 * L), length_bytes = L\<rparr>"
    using L(2) unfolding encodePacketNumber_def Let_def x_def [symmetric] L_def [symmetric]
    by (simp add: mask_eq_exp_minus_1 push_bit_eq_mult mult.commute)
  ultimately show ?thesis using L by blast
qed

section \<open>Encoding\<close>

lemma encodeQuicInteger_decodes:
  assumes "encodeQuicInteger v = Inr bytes"
  shows "unat v < 2 ^ 62" "getQuicIntegerSize v = Inr (length bytes)"
    "decodeQuicInteger (bytes @ rest) 8 = Some (v, length bytes, rest)"
  using assms decode_encode_one [of v rest] decode_encode_two [of v rest]
    decode_encode_four [of v rest] decode_encode_eight [of v rest]
  by (auto simp: encodeQuicInteger_def getQuicIntegerSize_def encodeOneByte_def encodeTwoBytes_def
      encodeFourBytes_def encodeEightBytes_def quic_limits word_le_nat_alt split: if_splits)

lemma encodeQuicInteger_fails:
  "encodeQuicInteger v = Inl e \<Longrightarrow> 2 ^ 62 \<le> unat v \<and> getQuicIntegerSize v = Inl e"
  by (auto simp: encodeQuicInteger_def getQuicIntegerSize_def quic_limits word_le_nat_alt split: if_splits)

section \<open>Properties\<close>

text \<open>
  C24. Variable-length integers round-trip: a value is encoded exactly when it is below
  \<open>2 ^ 62\<close>, in the number of bytes \<open>getQuicIntegerSize\<close> announces, and decoding these bytes,
  whatever follows them, gives back the value, the count and the rest of the input.
\<close>

theorem quic_integer_encode_decode:
  "case encodeQuicInteger v of
     Inr bytes \<Rightarrow> unat v < 2 ^ 62 \<and> getQuicIntegerSize v = Inr (length bytes) \<and>
                  decodeQuicInteger (bytes @ rest) 8 = Some (v, length bytes, rest)
   | Inl e \<Rightarrow> 2 ^ 62 \<le> unat v \<and> getQuicIntegerSize v = Inl e"
  using encodeQuicInteger_decodes(1,2) [of v] encodeQuicInteger_decodes(3) [of v _ rest] encodeQuicInteger_fails [of v]
  by (simp split: sum.split)

text \<open>
  C25. Decoding is exact in the other direction: whatever \<open>decodeQuicInteger\<close> reads from a
  cursor, it consumed the bytes before the rest, and encoding its result at the size it
  was read with gives exactly these bytes.
\<close>

theorem quic_integer_decode_encode:
  assumes "decodeQuicInteger cursor m = Some (v, n, rest)"
  shows "\<exists>bytes. cursor = bytes @ rest \<and> length bytes = n \<and> encodeQuicIntegerSized v (int n) = Inr bytes"
  using assms
proof (cases rule: decodeQuicInteger_cases)
  case (one b)
  then show ?thesis using encode_decoded_one [of b] by (intro exI [of _ "[b]"]) simp
next
  case (more b bs)
  then show ?thesis using encode_decoded_more [OF refl more(2-5)] by (intro exI [of _ "b # bs"]) simp
qed

theorem quic_integer_decode_encode_witness:
  "decodeQuicInteger [0x40, 0x25, 0xFF] 8 = Some (37, 2, [0xFF]) \<and>
   encodeQuicIntegerSized 37 2 = Inr [0x40, 0x25]"
proof -
  have d: "decodeQuicInteger [0x40, 0x25, 0xFF] 8 = Some (37, 2, [0xFF])" by code_simp
  from quic_integer_decode_encode [OF this] d show ?thesis by (auto simp: Cons_eq_append_conv)
qed

text \<open>
  C12. Packet numbers round-trip through their truncated encoding: if the number is less
  than \<open>2 ^ 31\<close> ahead of the largest acknowledged one, encoding succeeds with at most four
  bytes, and a receiver that expects any number after the acknowledged one and less than
  half a window ahead of the packet decodes the packet number that was sent.
\<close>

theorem packet_number_round_trip:
  assumes "find_last_set_law findLastSet"
    and "la \<le> pn" and "unat pn - unat la < 2 ^ 31" and "unat pn < 2 ^ 62"
  shows "\<exists>r. encodePacketNumber findLastSet pn la = Inr r \<and> length_bytes r \<le> 4 \<and>
           (\<forall>e. la < e \<and> unat e < unat pn + 2 ^ (8 * length_bytes r - 1) \<longrightarrow>
                decodePacketNumber (result_num r) (length_bytes r) e = Inr pn)"
proof -
  obtain L where L: "encodePacketNumber findLastSet pn la = Inr \<lparr>result_num = pn AND mask (8 * L), length_bytes = L\<rparr>"
      "0 < L" "L \<le> 4" "unat pn - unat la < 2 ^ (8 * L - 1)"
    using encodePacketNumber_near [OF assms(1-3)] by blast
  have "decodePacketNumber (pn AND mask (8 * L)) L e = Inr pn"
    if "la < e" "unat e < unat pn + 2 ^ (8 * L - 1)" for e
  proof (rule decodePacketNumber_near [OF L(2,3) assms(4) _ that(2)])
    show "unat pn < unat e + 2 ^ (8 * L - 1)" using L(4) that(1) by (simp add: word_less_nat_alt)
  qed
  with L show ?thesis by (intro exI [of _ "\<lparr>result_num = pn AND mask (8 * L), length_bytes = L\<rparr>"]) simp
qed

text \<open>An implementation of the bit scan, for the concrete run.\<close>

fun scan_bits :: "nat \<Rightarrow> u64 \<Rightarrow> nat" where
  "scan_bits 0 x = 0"
| "scan_bits (Suc k) x = (if x < 2 ^ k then scan_bits k x else Suc k)"

lemma scan_bits_range:
  assumes "unat x < 2 ^ k" "k \<le> 64"
  shows "if x = 0 then scan_bits k x = 0
         else 0 < scan_bits k x \<and> 2 ^ (scan_bits k x - 1) \<le> unat x \<and> unat x < 2 ^ scan_bits k x"
  using assms
proof (induction k)
  case 0
  then show ?case by (simp add: word_unat_eq_iff)
next
  case (Suc k)
  have "x < 2 ^ k \<longleftrightarrow> unat x < 2 ^ k" using Suc.prems by (simp add: word_less_nat_alt unat_power2)
  then show ?case using Suc by (auto simp: word_unat_eq_iff not_less)
qed

lemma scan_bits_law: "find_last_set_law (scan_bits 64)"
proof -
  have "unat x < 2 ^ 64" for x :: u64 using unat_bound [of x] by simp
  from scan_bits_range [OF this] show ?thesis
    unfolding find_last_set_law_def by (metis order_refl)
qed

theorem packet_number_round_trip_witness:
  "\<exists>r. encodePacketNumber (scan_bits 64) 0xAC5C02 0xABE8B3 = Inr r \<and>
       decodePacketNumber (result_num r) (length_bytes r) 0xABE8B4 = Inr 0xAC5C02"
  using packet_number_round_trip [OF scan_bits_law, of "0xABE8B3" "0xAC5C02"] by auto

end
