(* ===== verification/Interval_Set.thy ===== *)
theory Interval_Set
  imports Prelude
begin

text \<open>
  \<open>IntervalSet\<close> (\<open>common/IntervalSet.h\<close>, \<open>IntervalSet-inl.h\<close>), the sorted disjoint intervals
  in which the transport keeps packet numbers and stream offsets, for \<open>T = uint64_t\<close> and
  \<open>Unit = 1\<close>.

  Bounds are natural numbers: the \<open>Interval\<close> constructor refuses an end above
  \<open>2 ^ 64 - 2\<close>, and the invariant \<open>iset_inv\<close> below carries that bound, so no \<open>+ unitValue()\<close>
  of the code can wrap. The deque is a list. \<open>std::lower_bound\<close> on a list that its
  predicate partitions splits it at the first element that does not satisfy it.
  \<open>insertVersion_\<close> wraps and is a word.
\<close>

record interval =
  iv_start :: nat
  iv_end :: nat

datatype interval_error = Invalid_interval | Interval_bound_too_large

definition newInterval :: "nat \<Rightarrow> nat \<Rightarrow> interval_error + interval" where
  "newInterval s e =
     (if s > e then Inl Invalid_interval
      else if e > 2 ^ 64 - 1 - 1 then Inl Interval_bound_too_large
      else Inr \<lparr>iv_start = s, iv_end = e\<rparr>)"

record interval_set =
  is_intervals :: "interval list"
  is_insertVersion :: u64

definition emptyIntervalSet :: interval_set where
  "emptyIntervalSet = \<lparr>is_intervals = [], is_insertVersion = 0\<rparr>"

text \<open>The intervals before, inside and after the range that touches or overlaps \<open>i\<close>.\<close>

definition intersectingRange ::
    "interval \<Rightarrow> interval list \<Rightarrow> interval list \<times> interval list \<times> interval list" where
  "intersectingRange i xs =
     (let before = takeWhile (\<lambda>a. iv_end a + 1 < iv_start i) xs;
          rest = dropWhile (\<lambda>a. iv_end a + 1 < iv_start i) xs
      in (before, takeWhile (\<lambda>a. iv_start a \<le> iv_end i + 1) rest,
          dropWhile (\<lambda>a. iv_start a \<le> iv_end i + 1) rest))"

definition insertInterval :: "interval \<Rightarrow> interval_set \<Rightarrow> interval_set" where
  "insertInterval i s =
     (case intersectingRange i (is_intervals s) of (before, inside, after) \<Rightarrow>
        case inside of
          [] \<Rightarrow> s\<lparr>is_intervals := before @ [i] @ after, is_insertVersion := is_insertVersion s + 1\<rparr>
        | first # others \<Rightarrow>
            let originalDifference = iv_end first - iv_start first;
                merged = \<lparr>iv_start = min (iv_start i) (iv_start first),
                          iv_end = max (iv_end i) (iv_end (last inside))\<rparr>;
                newDifference = iv_end merged - iv_start merged
            in s\<lparr>is_intervals := before @ [merged] @ after,
                 is_insertVersion := (if newDifference > originalDifference
                                      then is_insertVersion s + 1 else is_insertVersion s)\<rparr>)"

definition insertRange :: "nat \<Rightarrow> nat \<Rightarrow> interval_set \<Rightarrow> interval_error + interval_set" where
  "insertRange s e is =
     (if s > e then Inl Invalid_interval
      else bind_result (newInterval s e) (\<lambda>i. Inr (insertInterval i is)))"

definition insertPoint :: "nat \<Rightarrow> interval_set \<Rightarrow> interval_error + interval_set" where
  "insertPoint p is = bind_result (newInterval p p) (\<lambda>i. Inr (insertInterval i is))"

text \<open>
  \<open>withdraw\<close>. When the range is a single element, \<open>first\<close> and \<open>last\<close> are the same object:
  the second test reads the end the first one may have written.
\<close>

definition withdraw :: "interval \<Rightarrow> interval_set \<Rightarrow> interval_set" where
  "withdraw i s =
     (case intersectingRange i (is_intervals s) of (before, inside, after) \<Rightarrow>
        case inside of
          [] \<Rightarrow> s
        | first # others \<Rightarrow>
            if others = [] \<and> iv_start first + 1 \<le> iv_start i \<and> iv_end first \<ge> iv_end i + 1
            then s\<lparr>is_intervals := before @
                     [\<lparr>iv_start = iv_start first, iv_end = iv_start i - 1\<rparr>,
                      first\<lparr>iv_start := iv_end i + 1\<rparr>] @ after\<rparr>
            else
              let keepFirst = iv_start first + 1 \<le> iv_start i;
                  first1 = (if keepFirst then first\<lparr>iv_end := iv_start i - 1\<rparr> else first);
                  last1 = (if others = [] then first1 else last others);
                  keepLast = iv_end last1 \<ge> iv_end i + 1
              in s\<lparr>is_intervals := before @ (if keepFirst then [first1] else []) @
                     (if keepLast then [last1\<lparr>iv_start := iv_end i + 1\<rparr>] else []) @ after\<rparr>)"

fun contains_loop :: "nat \<Rightarrow> nat \<Rightarrow> interval list \<Rightarrow> bool" where
  "contains_loop s e [] = False"
| "contains_loop s e (x # xs) =
     (if s \<ge> iv_start x \<and> e \<le> iv_end x then True
      else if s < iv_end x then False
      else contains_loop s e xs)"

definition contains :: "nat \<Rightarrow> nat \<Rightarrow> interval_set \<Rightarrow> bool" where
  "contains s e is = contains_loop s e (is_intervals is)"

definition newIntervalSet :: "interval list \<Rightarrow> interval_set" where
  "newIntervalSet intervals = foldl (\<lambda>is i. insertInterval i is) emptyIntervalSet intervals"

section \<open>Abstraction and invariant\<close>

definition iv_points :: "interval \<Rightarrow> nat set" where
  "iv_points i = {iv_start i..iv_end i}"

definition points :: "interval list \<Rightarrow> nat set" where
  "points xs = (\<Union>x \<in> set xs. iv_points x)"

definition iv_ok :: "interval \<Rightarrow> bool" where
  "iv_ok i \<longleftrightarrow> iv_start i \<le> iv_end i \<and> iv_end i \<le> 2 ^ 64 - 2"

text \<open>Sorted, disjoint and not even adjacent.\<close>

definition iset_inv :: "interval list \<Rightarrow> bool" where
  "iset_inv xs \<longleftrightarrow> sorted_wrt (\<lambda>a b. iv_end a + 1 < iv_start b) xs \<and> (\<forall>x \<in> set xs. iv_ok x)"

lemma newInterval_ok: "newInterval s e = Inr i \<longleftrightarrow> i = \<lparr>iv_start = s, iv_end = e\<rparr> \<and> iv_ok i"
  by (auto simp: newInterval_def iv_ok_def)

lemma points_simps [simp]:
  "points [] = {}" "points (x # xs) = iv_points x \<union> points xs" "points (xs @ ys) = points xs \<union> points ys"
  by (auto simp: points_def)

lemma iset_inv_append:
  "iset_inv (xs @ ys) \<longleftrightarrow> iset_inv xs \<and> iset_inv ys \<and>
     (\<forall>x \<in> set xs. \<forall>y \<in> set ys. iv_end x + 1 < iv_start y)"
  by (auto simp: iset_inv_def sorted_wrt_append)

lemma iset_inv_Cons:
  "iset_inv (x # xs) \<longleftrightarrow> iv_ok x \<and> iset_inv xs \<and> (\<forall>y \<in> set xs. iv_end x + 1 < iv_start y)"
  by (auto simp: iset_inv_def)

lemma iset_inv_Nil [simp]: "iset_inv []"
  by (simp add: iset_inv_def)

text \<open>
  The three parts of the list. The last element inside starts no later than one past
  the interval, the first ends no earlier than one before it.
\<close>

lemma takeWhile_dropWhile_sorted:
  assumes "sorted_wrt R xs" and "\<forall>a \<in> set xs. \<forall>b \<in> set xs. R a b \<longrightarrow> P b \<longrightarrow> P a"
  shows "\<forall>x \<in> set (dropWhile P xs). \<not> P x"
  using assms
proof (induction xs)
  case (Cons x xs)
  have "\<forall>y \<in> set xs. \<not> P y" if "\<not> P x"
    using Cons.prems that unfolding sorted_wrt.simps set_simps by blast
  moreover have "\<forall>y \<in> set (dropWhile P xs). \<not> P y" using Cons unfolding sorted_wrt.simps set_simps by blast
  ultimately show ?case unfolding dropWhile.simps by (metis set_ConsD)
qed simp

lemma intersectingRange_split:
  assumes "iset_inv xs" and "iv_ok i" and "intersectingRange i xs = (before, inside, after)"
  shows "xs = before @ inside @ after"
    and "\<forall>a \<in> set before. iv_end a + 1 < iv_start i"
    and "\<forall>a \<in> set inside. iv_start i \<le> iv_end a + 1 \<and> iv_start a \<le> iv_end i + 1"
    and "\<forall>a \<in> set after. iv_end i + 1 < iv_start a"
proof -
  let ?P = "\<lambda>a. iv_end a + 1 < iv_start i" and ?Q = "\<lambda>a. iv_start a \<le> iv_end i + 1"
  let ?rest = "dropWhile ?P xs"
  have b: "before = takeWhile ?P xs" and s: "inside = takeWhile ?Q ?rest" and a: "after = dropWhile ?Q ?rest"
    using assms(3) by (simp_all add: intersectingRange_def Let_def)
  show split: "xs = before @ inside @ after" by (simp add: b s a)
  show "\<forall>a \<in> set before. iv_end a + 1 < iv_start i" using b set_takeWhileD by fastforce
  have ok: "iv_ok x" if "x \<in> set xs" for x using assms(1) that by (simp add: iset_inv_def)
  have sorted: "sorted_wrt (\<lambda>a b. iv_end a + 1 < iv_start b) xs" using assms(1) by (simp add: iset_inv_def)
  have rest: "\<forall>x \<in> set ?rest. \<not> ?P x"
    using ok by (intro takeWhile_dropWhile_sorted [OF sorted]) (auto simp: iv_ok_def dest!: ok)
  show "\<forall>a \<in> set inside. iv_start i \<le> iv_end a + 1 \<and> iv_start a \<le> iv_end i + 1"
  proof
    fix a assume "a \<in> set inside"
    then have "a \<in> set ?rest \<and> ?Q a" unfolding s by (rule set_takeWhileD)
    moreover from this have "\<not> ?P a" using rest by blast
    ultimately show "iv_start i \<le> iv_end a + 1 \<and> iv_start a \<le> iv_end i + 1" by linarith
  qed
  have "sorted_wrt (\<lambda>a b. iv_end a + 1 < iv_start b) (takeWhile ?P xs @ ?rest)"
    unfolding takeWhile_dropWhile_id by (rule sorted)
  then have "sorted_wrt (\<lambda>a b. iv_end a + 1 < iv_start b) ?rest" unfolding sorted_wrt_append by blast
  then have "\<forall>x \<in> set (dropWhile ?Q ?rest). \<not> ?Q x"
  proof (rule takeWhile_dropWhile_sorted, intro ballI impI)
    fix a b assume "a \<in> set ?rest" "iv_end a + 1 < iv_start b" "iv_start b \<le> iv_end i + 1"
    moreover from this have "iv_ok a" using ok set_dropWhileD by fast
    ultimately show "iv_start a \<le> iv_end i + 1" by (simp add: iv_ok_def)
  qed
  then show "\<forall>a \<in> set after. iv_end i + 1 < iv_start a" by (simp only: a not_le)
qed

section \<open>Insertion\<close>

text \<open>What merging produces, for a non-empty inside part.\<close>

lemma inside_order:
  assumes "iset_inv (first # others)"
  shows "\<forall>x \<in> set (first # others). iv_start first \<le> iv_start x \<and> iv_end x \<le> iv_end (last (first # others))"
  using assms
proof (induction others rule: rev_induct)
  case (snoc y ys)
  then show ?case by (auto simp: iset_inv_def iv_ok_def sorted_wrt_append)
qed simp

lemma merged_points:
  assumes "iset_inv (first # others)" and "iv_ok i"
    and "\<forall>a \<in> set (first # others). iv_start i \<le> iv_end a + 1 \<and> iv_start a \<le> iv_end i + 1"
  shows "{min (iv_start i) (iv_start first)..max (iv_end i) (iv_end (last (first # others)))} =
         iv_points i \<union> points (first # others)" (is "?L = ?R")
proof
  have ord: "\<And>x. x \<in> set (first # others) \<Longrightarrow>
      iv_start first \<le> iv_start x \<and> iv_end x \<le> iv_end (last (first # others))"
    using inside_order [OF assms(1)] by blast
  show "?R \<subseteq> ?L" using ord by (fastforce simp: points_def iv_points_def)
  have "last (first # others) \<in> set (first # others)" by (rule last_in_set) simp
  then have l: "iv_points (last (first # others)) \<subseteq> points (first # others)"
      "iv_start (last (first # others)) \<le> iv_end i + 1"
    using assms(3) by (auto simp: points_def)
  have f: "iv_start i \<le> iv_end first + 1" using assms(3) by simp
  show "?L \<subseteq> ?R"
  proof
    fix x assume x: "x \<in> ?L"
    consider "x < iv_start i" | "iv_end i < x" | "x \<in> iv_points i" by (fastforce simp: iv_points_def)
    then show "x \<in> ?R"
    proof cases
      case 1 then show ?thesis using x f by (auto simp: iv_points_def min_def split: if_splits)
    next
      case 2
      then have "x \<in> iv_points (last (first # others))"
        using x l(2) by (auto simp: iv_points_def max_def split: if_splits)
      then show ?thesis using l(1) by blast
    qed simp
  qed
qed

lemma insertInterval_correct:
  assumes "iset_inv (is_intervals s)" and "iv_ok i"
  shows "iset_inv (is_intervals (insertInterval i s)) \<and>
         points (is_intervals (insertInterval i s)) = points (is_intervals s) \<union> iv_points i"
proof -
  obtain before inside after where r: "intersectingRange i (is_intervals s) = (before, inside, after)"
    by (metis prod_cases3)
  note split = intersectingRange_split [OF assms r]
  have inv: "iset_inv (before @ inside @ after)" using assms(1) split(1) by simp
  then have inside: "iset_inv inside" by (simp add: iset_inv_append)
  show ?thesis
  proof (cases inside)
    case Nil
    then have res: "is_intervals (insertInterval i s) = before @ [i] @ after"
      by (simp add: insertInterval_def r)
    show ?thesis
      using inv split assms(2) Nil by (auto simp: res iset_inv_append iset_inv_Cons)
  next
    case (Cons first others)
    define m where "m = \<lparr>iv_start = min (iv_start i) (iv_start first), iv_end = max (iv_end i) (iv_end (last inside))\<rparr>"
    have res: "is_intervals (insertInterval i s) = before @ [m] @ after"
      by (simp add: insertInterval_def r Cons m_def Let_def)
    have ins: "iset_inv (first # others)" using inside Cons by simp
    have pts: "iv_points m = iv_points i \<union> points inside"
      using merged_points [OF ins assms(2)] split(3) by (simp add: m_def iv_points_def Cons)
    have "last inside \<in> set inside" using Cons by simp
    then have "\<forall>y \<in> set after. iv_end (last inside) + 1 < iv_start y" "iv_ok (last inside)"
      using inv by (auto simp: iset_inv_def sorted_wrt_append)
    moreover have "\<forall>x \<in> set before. iv_end x + 1 < iv_start first" "iset_inv before" "iset_inv after"
        "\<forall>x \<in> set before. \<forall>y \<in> set after. iv_end x + 1 < iv_start y"
      using inv by (auto simp: Cons iset_inv_def sorted_wrt_append)
    ultimately have "iset_inv (before @ [m] @ after)"
      using split(2,4) assms(2) by (auto simp: m_def iset_inv_append iset_inv_Cons iv_ok_def min_def max_def)
    then show ?thesis by (auto simp: res split(1) pts)
  qed
qed

text \<open>The version moves exactly when the set of points does.\<close>

lemma insertInterval_version:
  assumes "iset_inv (is_intervals s)" and "iv_ok i"
  shows "is_insertVersion (insertInterval i s) =
         (if iv_points i \<subseteq> points (is_intervals s) then is_insertVersion s else is_insertVersion s + 1)"
proof -
  obtain before inside after where r: "intersectingRange i (is_intervals s) = (before, inside, after)"
    by (metis prod_cases3)
  note split = intersectingRange_split [OF assms r]
  have inv: "iset_inv (before @ inside @ after)" using assms(1) split(1) by simp
  then have inside: "iset_inv inside" by (simp add: iset_inv_append)
  have out: "iv_points i \<inter> (points before \<union> points after) = {}"
    using split(2,4) by (fastforce simp: points_def iv_points_def)
  have ne: "iv_start i \<in> iv_points i" "iv_end i \<in> iv_points i"
    using assms(2) by (simp_all add: iv_points_def iv_ok_def)
  show ?thesis
  proof (cases inside)
    case Nil
    then have "\<not> iv_points i \<subseteq> points (is_intervals s)" using out ne split(1) by auto
    then show ?thesis by (simp add: insertInterval_def r Nil)
  next
    case (Cons first others)
    let ?lo = "min (iv_start i) (iv_start first)" and ?hi = "max (iv_end i) (iv_end (last inside))"
    have ins: "iset_inv (first # others)" using inside Cons by simp
    then have first: "iv_start first \<le> iv_end first" by (simp add: iset_inv_Cons iv_ok_def)
    have hi: "iv_end first \<le> iv_end (last inside)" using inside_order [OF ins] Cons by simp
    have pts: "iv_points i \<subseteq> points (is_intervals s) \<longleftrightarrow> iv_points i \<subseteq> points inside"
      using out split(1) by auto
    have ver: "is_insertVersion (insertInterval i s) =
        (if ?hi - ?lo > iv_end first - iv_start first then is_insertVersion s + 1 else is_insertVersion s)"
      by (simp add: insertInterval_def r Cons Let_def)
    have merged: "{?lo..?hi} = iv_points i \<union> points inside"
      using merged_points [OF ins assms(2)] split(3) Cons by simp
    have "iv_points i \<subseteq> points inside \<longleftrightarrow> ?lo = iv_start first \<and> ?hi = iv_end first"
    proof
      assume "?lo = iv_start first \<and> ?hi = iv_end first"
      then have "iv_points first = iv_points i \<union> points inside" using merged by (simp add: iv_points_def)
      then show "iv_points i \<subseteq> points inside" by (auto simp: Cons)
    next
      assume "iv_points i \<subseteq> points inside"
      then have all: "{?lo..?hi} = points inside" using merged by blast
      have "?lo \<in> points inside" unfolding all [symmetric] using first hi by auto
      then have lo: "iv_start first \<le> ?lo"
        using inside_order [OF ins] by (fastforce simp: points_def iv_points_def Cons)
      have "iv_end first + 1 \<notin> points inside"
        using ins by (auto simp: Cons points_def iv_points_def iset_inv_Cons)
      then have "?hi \<le> iv_end first" unfolding all [symmetric] using first by auto
      with lo hi show "?lo = iv_start first \<and> ?hi = iv_end first" by simp
    qed
    moreover have "?hi - ?lo > iv_end first - iv_start first \<longleftrightarrow> \<not> (?lo = iv_start first \<and> ?hi = iv_end first)"
      using first hi by linarith
    ultimately show ?thesis unfolding ver pts by simp
  qed
qed

section \<open>Withdrawal\<close>

text \<open>What is left of the inside part: a piece before the interval and a piece after it.\<close>

definition left_piece :: "interval \<Rightarrow> interval \<Rightarrow> interval list" where
  "left_piece i first =
     (if iv_start first < iv_start i then [\<lparr>iv_start = iv_start first, iv_end = iv_start i - 1\<rparr>] else [])"

definition right_piece :: "interval \<Rightarrow> interval \<Rightarrow> interval list" where
  "right_piece i final =
     (if iv_end i < iv_end final then [\<lparr>iv_start = iv_end i + 1, iv_end = iv_end final\<rparr>] else [])"

lemma withdraw_pieces:
  assumes "intersectingRange i (is_intervals s) = (before, inside, after)" and "iv_ok i" and "inside \<noteq> []"
  shows "is_intervals (withdraw i s) =
         before @ left_piece i (hd inside) @ right_piece i (last inside) @ after"
proof -
  obtain first others where inside: "inside = first # others" using assms(3) by (cases inside) auto
  have "iv_start i \<le> iv_end i" using assms(2) by (simp add: iv_ok_def)
  then show ?thesis
    by (cases others)
      (auto simp: withdraw_def assms(1) inside left_piece_def right_piece_def Let_def)
qed

lemma pieces_points:
  assumes "iset_inv (first # others)" and "iv_ok i"
    and "\<forall>a \<in> set (first # others). iv_start i \<le> iv_end a + 1 \<and> iv_start a \<le> iv_end i + 1"
  shows "points (left_piece i first @ right_piece i (last (first # others))) =
         points (first # others) - iv_points i" (is "points (?l @ ?r) = ?pts - _")
proof -
  let ?last = "last (first # others)"
  have ord: "iv_start first \<le> iv_start x \<and> iv_end x \<le> iv_end ?last" if "x \<in> set (first # others)" for x
    using inside_order [OF assms(1)] that by blast
  have last: "?last \<in> set (first # others)" by (rule last_in_set) simp
  have i: "iv_start i \<le> iv_end i" using assms(2) by (simp add: iv_ok_def)
  have left: "x \<in> points ?l \<longleftrightarrow> x \<in> ?pts \<and> x < iv_start i" for x
  proof -
    have "iv_start i \<le> iv_end first + 1" using assms(3) by simp
    moreover have "iv_start first \<le> x" if "x \<in> ?pts"
      using that ord by (fastforce simp: points_def iv_points_def)
    ultimately show ?thesis by (auto simp: left_piece_def iv_points_def)
  qed
  have right: "x \<in> points ?r \<longleftrightarrow> x \<in> ?pts \<and> iv_end i < x" for x
  proof -
    have "iv_start ?last \<le> iv_end i + 1" using assms(3) last by blast
    moreover have "x \<le> iv_end ?last" if "x \<in> ?pts"
      using that ord by (fastforce simp: points_def iv_points_def)
    moreover have "x \<in> ?pts" if "iv_start ?last \<le> x" "x \<le> iv_end ?last"
      using last that unfolding points_def iv_points_def by fastforce
    moreover have "x \<in> points ?r \<longleftrightarrow> iv_end i < x \<and> x \<le> iv_end ?last"
      by (auto simp: right_piece_def iv_points_def)
    ultimately show ?thesis by fastforce
  qed
  show ?thesis
  proof (rule set_eqI)
    fix x
    have "x \<in> iv_points i \<longleftrightarrow> \<not> x < iv_start i \<and> \<not> iv_end i < x" by (auto simp: iv_points_def)
    then show "x \<in> points (?l @ ?r) \<longleftrightarrow> x \<in> ?pts - iv_points i"
      unfolding points_simps(3) Un_iff left right Diff_iff using i by linarith
  qed
qed

lemma withdraw_correct:
  assumes "iset_inv (is_intervals s)" and "iv_ok i"
  shows "iset_inv (is_intervals (withdraw i s)) \<and>
         points (is_intervals (withdraw i s)) = points (is_intervals s) - iv_points i"
proof -
  obtain before inside after where r: "intersectingRange i (is_intervals s) = (before, inside, after)"
    by (metis prod_cases3)
  note split = intersectingRange_split [OF assms r]
  have inv: "iset_inv (before @ inside @ after)" using assms(1) split(1) by simp
  have i: "iv_start i \<le> iv_end i" using assms(2) by (simp add: iv_ok_def)
  have out: "points before - iv_points i = points before" "points after - iv_points i = points after"
    using split(2,4) by (fastforce simp: points_def iv_points_def)+
  show ?thesis
  proof (cases inside)
    case Nil
    then have "withdraw i s = s" by (simp add: withdraw_def r)
    then show ?thesis using assms(1) split(1) out Nil by (auto simp: Un_Diff)
  next
    case (Cons first others)
    have ins: "iset_inv (first # others)"
      using inv Cons by (auto simp: iset_inv_def sorted_wrt_append)
    have res: "is_intervals (withdraw i s) = before @ left_piece i first @ right_piece i (last inside) @ after"
      using withdraw_pieces [OF r assms(2)] Cons by simp
    have last: "last inside \<in> set inside" using Cons by simp
    have "points (left_piece i first @ right_piece i (last inside)) = points inside - iv_points i"
      using pieces_points [OF ins assms(2)] split(3) by (simp add: Cons)
    then have "points (is_intervals (withdraw i s)) = points (is_intervals s) - iv_points i"
      using out unfolding res split(1) by (auto simp: Un_Diff)
    moreover have "iset_inv (is_intervals (withdraw i s))"
    proof -
      have "\<forall>y \<in> set after. iv_end (last inside) + 1 < iv_start y" "iv_ok (last inside)"
        using inv last by (auto simp: iset_inv_def sorted_wrt_append)
      moreover have "\<forall>x \<in> set before. iv_end x + 1 < iv_start first" "iset_inv before" "iset_inv after"
          "\<forall>x \<in> set before. \<forall>y \<in> set after. iv_end x + 1 < iv_start y"
        using inv by (auto simp: Cons iset_inv_def sorted_wrt_append)
      ultimately show ?thesis
        using split(2,4) assms(2) unfolding res
        by (auto simp: iset_inv_append iset_inv_Cons iv_ok_def left_piece_def right_piece_def)
    qed
    ultimately show ?thesis by simp
  qed
qed

section \<open>Containment\<close>

lemma contains_loop_correct:
  assumes "iset_inv xs" and "s \<le> e"
  shows "contains_loop s e xs \<longleftrightarrow> {s..e} \<subseteq> points xs"
  using assms(1)
proof (induction xs)
  case Nil
  then show ?case using assms(2) by simp
next
  case (Cons x xs)
  have x: "iv_start x \<le> iv_end x" "iset_inv xs" and sep: "\<forall>y \<in> set xs. iv_end x + 1 < iv_start y"
    using Cons.prems by (auto simp: iset_inv_Cons iv_ok_def)
  have later: "iv_end x + 1 < p" if "p \<in> points xs" for p
    using that sep by (fastforce simp: points_def iv_points_def)
  consider "iv_start x \<le> s" "e \<le> iv_end x" | "\<not> (iv_start x \<le> s \<and> e \<le> iv_end x)" "s < iv_end x"
    | "\<not> (iv_start x \<le> s \<and> e \<le> iv_end x)" "iv_end x \<le> s" by linarith
  then show ?case
  proof cases
    case 1
    then show ?thesis by (auto simp: iv_points_def)
  next
    case 2
    then have "\<not> contains_loop s e (x # xs)" by simp
    moreover have "\<not> {s..e} \<subseteq> points (x # xs)"
    proof (cases "iv_start x \<le> s")
      case True
      then have "iv_end x + 1 \<in> {s..e}" "iv_end x + 1 \<notin> points (x # xs)"
        using 2 later by (auto simp: iv_points_def)
      then show ?thesis by blast
    next
      case False
      then have "s \<notin> points (x # xs)" using 2 later [of s] by (auto simp: iv_points_def)
      then show ?thesis using assms(2) by auto
    qed
    ultimately show ?thesis by simp
  next
    case 3
    have "{s..e} \<subseteq> points xs" if "{s..e} \<subseteq> points (x # xs)"
    proof (cases "iv_end x = s")
      case True
      with 3 x have "iv_end x + 1 \<in> {s..e}" by auto
      with that have "iv_end x + 1 \<in> points (x # xs)" by blast
      then show ?thesis using later by (auto simp: iv_points_def)
    next
      case False
      with 3 have "p \<notin> iv_points x" if "p \<in> {s..e}" for p using that by (simp add: iv_points_def)
      with that show ?thesis by (simp add: subset_iff)
    qed
    then show ?thesis using 3 Cons.IH [OF x(2)] by auto
  qed
qed

section \<open>The interface\<close>

text \<open>
  A set of numbers kept as ranges, as its clients use it: inserting and withdrawing a
  range are union and difference, and containment is inclusion.
\<close>

locale range_set =
  fixes ins :: "'i \<Rightarrow> 's \<Rightarrow> 's"
    and del :: "'i \<Rightarrow> 's \<Rightarrow> 's"
    and has :: "nat \<Rightarrow> nat \<Rightarrow> 's \<Rightarrow> bool"
    and range_of :: "'i \<Rightarrow> nat set"
    and valid :: "'i \<Rightarrow> bool"
    and abs :: "'s \<Rightarrow> nat set"
    and invar :: "'s \<Rightarrow> bool"
  assumes ins_abs: "invar s \<Longrightarrow> valid i \<Longrightarrow> abs (ins i s) = abs s \<union> range_of i"
    and ins_invar: "invar s \<Longrightarrow> valid i \<Longrightarrow> invar (ins i s)"
    and del_abs: "invar s \<Longrightarrow> valid i \<Longrightarrow> abs (del i s) = abs s - range_of i"
    and del_invar: "invar s \<Longrightarrow> valid i \<Longrightarrow> invar (del i s)"
    and has_iff: "invar s \<Longrightarrow> a \<le> b \<Longrightarrow> has a b s \<longleftrightarrow> {a..b} \<subseteq> abs s"
begin

text \<open>Operations in sequence: \<open>Inr i\<close> inserts, \<open>Inl i\<close> withdraws.\<close>

definition step :: "'s \<Rightarrow> 'i + 'i \<Rightarrow> 's" where
  "step s ev = (case ev of Inr i \<Rightarrow> ins i s | Inl i \<Rightarrow> del i s)"

definition spec :: "nat set \<Rightarrow> 'i + 'i \<Rightarrow> nat set" where
  "spec A ev = (case ev of Inr i \<Rightarrow> A \<union> range_of i | Inl i \<Rightarrow> A - range_of i)"

lemma step_refines:
  assumes "invar s" and "case ev of Inr i \<Rightarrow> valid i | Inl i \<Rightarrow> valid i"
  shows "invar (step s ev) \<and> abs (step s ev) = spec (abs s) ev"
  using assms by (cases ev) (auto simp: step_def spec_def ins_abs ins_invar del_abs del_invar)

lemma run_refines:
  assumes "invar s" and "\<forall>ev \<in> set evs. case ev of Inr i \<Rightarrow> valid i | Inl i \<Rightarrow> valid i"
  shows "invar (foldl step s evs) \<and> abs (foldl step s evs) = foldl spec (abs s) evs"
  using assms
proof (induction evs arbitrary: s)
  case (Cons ev evs)
  then have "invar (step s ev)" "abs (step s ev) = spec (abs s) ev" using step_refines [of s ev] by auto
  with Cons show ?case by simp
qed simp

lemma has_after_run:
  assumes "invar s" and "\<forall>ev \<in> set evs. case ev of Inr i \<Rightarrow> valid i | Inl i \<Rightarrow> valid i" and "a \<le> b"
  shows "has a b (foldl step s evs) \<longleftrightarrow> {a..b} \<subseteq> foldl spec (abs s) evs"
  using run_refines [OF assms(1,2)] has_iff assms(3) by metis

end

interpretation iset: range_set insertInterval withdraw contains iv_points iv_ok
    "\<lambda>s. points (is_intervals s)" "\<lambda>s. iset_inv (is_intervals s)"
  by unfold_locales (simp_all add: insertInterval_correct withdraw_correct contains_def contains_loop_correct)

lemma iset_run:
  assumes "iset_inv (is_intervals s)" and "\<forall>ev \<in> set evs. case ev of Inr i \<Rightarrow> iv_ok i | Inl i \<Rightarrow> iv_ok i"
  defines "s' \<equiv> foldl (\<lambda>s ev. case ev of Inr i \<Rightarrow> insertInterval i s | Inl i \<Rightarrow> withdraw i s) s evs"
  shows "iset_inv (is_intervals s') \<and>
         points (is_intervals s') =
           foldl (\<lambda>A ev. case ev of Inr i \<Rightarrow> A \<union> iv_points i | Inl i \<Rightarrow> A - iv_points i)
             (points (is_intervals s)) evs"
  using iset.run_refines [OF assms(1,2)]
  unfolding s'_def iset.step_def [abs_def] iset.spec_def [abs_def] by simp

section \<open>Properties\<close>

text \<open>
  C10. An interval set refines a plain set of numbers: after any sequence of insertions and
  withdrawals of valid intervals, starting from the empty set, the intervals are sorted,
  disjoint and separated by at least one missing number, their points are the ones set
  union and difference give, and \<open>contains\<close> answers inclusion in that set.
\<close>

theorem interval_set_refines_set:
  assumes "\<forall>ev \<in> set evs. case ev of Inr i \<Rightarrow> iv_ok i | Inl i \<Rightarrow> iv_ok i" and "a \<le> b"
  defines "s' \<equiv> foldl (\<lambda>s ev. case ev of Inr i \<Rightarrow> insertInterval i s | Inl i \<Rightarrow> withdraw i s)
                  emptyIntervalSet evs"
    and "A \<equiv> foldl (\<lambda>A ev. case ev of Inr i \<Rightarrow> A \<union> iv_points i | Inl i \<Rightarrow> A - iv_points i) {} evs"
  shows "iset_inv (is_intervals s') \<and> points (is_intervals s') = A \<and> (contains a b s' \<longleftrightarrow> {a..b} \<subseteq> A)"
proof -
  have "iset_inv (is_intervals s') \<and> points (is_intervals s') = A"
    using iset_run [OF _ assms(1), of emptyIntervalSet] by (simp add: s'_def A_def emptyIntervalSet_def)
  moreover from this have "contains a b s' \<longleftrightarrow> {a..b} \<subseteq> points (is_intervals s')"
    using iset.has_iff [OF _ assms(2)] by blast
  ultimately show ?thesis by simp
qed

text \<open>A run that merges, splits and asks.\<close>

definition sample_iv :: "nat \<Rightarrow> nat \<Rightarrow> interval" where
  "sample_iv s e = \<lparr>iv_start = s, iv_end = e\<rparr>"

definition sample_intervals :: "(interval + interval) list" where
  "sample_intervals = [Inr (sample_iv 1 3), Inr (sample_iv 7 9), Inr (sample_iv 4 6), Inl (sample_iv 3 5)]"

lemmas iset_eval = sample_iv_def emptyIntervalSet_def insertInterval_def withdraw_def intersectingRange_def

lemma sample_steps:
  "insertInterval (sample_iv 1 3) emptyIntervalSet = \<lparr>is_intervals = [sample_iv 1 3], is_insertVersion = 1\<rparr>"
  "insertInterval (sample_iv 7 9) \<lparr>is_intervals = [sample_iv 1 3], is_insertVersion = 1\<rparr> =
     \<lparr>is_intervals = [sample_iv 1 3, sample_iv 7 9], is_insertVersion = 2\<rparr>"
  "insertInterval (sample_iv 4 6) \<lparr>is_intervals = [sample_iv 1 3, sample_iv 7 9], is_insertVersion = 2\<rparr> =
     \<lparr>is_intervals = [sample_iv 1 9], is_insertVersion = 3\<rparr>"
  "withdraw (sample_iv 3 5) \<lparr>is_intervals = [sample_iv 1 9], is_insertVersion = 3\<rparr> =
     \<lparr>is_intervals = [sample_iv 1 2, sample_iv 6 9], is_insertVersion = 3\<rparr>"
  "insertInterval (sample_iv 2 5) \<lparr>is_intervals = [sample_iv 1 5], is_insertVersion = 7\<rparr> =
     \<lparr>is_intervals = [sample_iv 1 5], is_insertVersion = 7\<rparr>"
  "is_intervals (insertInterval (sample_iv 2 6) \<lparr>is_intervals = [sample_iv 1 5], is_insertVersion = 7\<rparr>) =
     [sample_iv 1 6]"
  by (simp_all add: iset_eval)

theorem interval_set_refines_set_witness:
  "let s' = foldl (\<lambda>s ev. case ev of Inr i \<Rightarrow> insertInterval i s | Inl i \<Rightarrow> withdraw i s)
              emptyIntervalSet sample_intervals
   in is_intervals s' = [sample_iv 1 2, sample_iv 6 9] \<and> contains 6 8 s' \<and>
      points (is_intervals s') = {1..3} \<union> {7..9} \<union> {4..6} - {3..5}"
proof -
  let ?s = "foldl (\<lambda>s ev. case ev of Inr i \<Rightarrow> insertInterval i s | Inl i \<Rightarrow> withdraw i s)
              emptyIntervalSet sample_intervals"
  have s: "is_intervals ?s = [sample_iv 1 2, sample_iv 6 9]"
    unfolding sample_intervals_def by (simp add: sample_steps del: One_nat_def)
  have "\<forall>ev \<in> set sample_intervals. case ev of Inr i \<Rightarrow> iv_ok i | Inl i \<Rightarrow> iv_ok i" and "6 \<le> (8 :: nat)"
    by (simp_all add: sample_intervals_def sample_iv_def iv_ok_def)
  from interval_set_refines_set [OF this] have "points (is_intervals ?s) =
      foldl (\<lambda>A ev. case ev of Inr i \<Rightarrow> A \<union> iv_points i | Inl i \<Rightarrow> A - iv_points i) {} sample_intervals"
    by blast
  also have "\<dots> = {1..3} \<union> {7..9} \<union> {4..6} - {3..5}"
    by (simp add: sample_intervals_def sample_iv_def iv_points_def)
  finally have pts: "points (is_intervals ?s) = {1..3} \<union> {7..9} \<union> {4..6} - {3..5}" .
  have "contains 6 8 ?s" unfolding contains_def s by (simp add: sample_iv_def)
  then show ?thesis unfolding Let_def by (intro conjI s pts)
qed

text \<open>
  C33. The insertion version tells whether an insertion added anything: it stays when all
  points of the interval were present and moves by one otherwise.
\<close>

theorem insert_version_tracks_change:
  assumes "iset_inv (is_intervals s)" and "iv_ok i"
  shows "is_insertVersion (insertInterval i s) =
         (if points (is_intervals (insertInterval i s)) = points (is_intervals s)
          then is_insertVersion s else is_insertVersion s + 1)"
  using insertInterval_version [OF assms] insertInterval_correct [OF assms] by (auto simp: Un_absorb2)

theorem insert_version_tracks_change_witness:
  "let s = \<lparr>is_intervals = [sample_iv 1 5], is_insertVersion = 7\<rparr>
   in is_insertVersion (insertInterval (sample_iv 2 5) s) = 7 \<and> is_insertVersion (insertInterval (sample_iv 2 6) s) = 8"
proof -
  let ?s = "\<lparr>is_intervals = [sample_iv 1 5], is_insertVersion = 7\<rparr>"
  have ok: "iset_inv (is_intervals ?s)" "iv_ok (sample_iv 2 5)" "iv_ok (sample_iv 2 6)"
    by (simp_all add: iset_inv_def iv_ok_def sample_iv_def)
  have "6 \<in> points [sample_iv 1 6]" "6 \<notin> points [sample_iv 1 5]"
    by (simp_all add: sample_iv_def iv_points_def)
  then have ne: "points [sample_iv 1 6] \<noteq> points [sample_iv 1 5]" by blast
  have "is_insertVersion (insertInterval (sample_iv 2 5) ?s) = 7"
    by (subst insert_version_tracks_change [OF ok(1,2)]) (simp only: sample_steps if_True interval_set.simps simp_thms)
  moreover have "is_insertVersion (insertInterval (sample_iv 2 6) ?s) = 8"
    by (subst insert_version_tracks_change [OF ok(1,3)]) (simp only: sample_steps ne if_False interval_set.simps, simp)
  ultimately show ?thesis unfolding Let_def by (rule conjI)
qed

end
