(* ===== verification/Stream_Reassembly.thy ===== *)
theory Stream_Reassembly
  imports Prelude
begin

text \<open>
  The receive side of a stream: \<open>appendDataToReadBufferCommon\<close> and
  \<open>readDataInOrderFromReadBuffer\<close> of \<open>state/QuicStreamFunctions.cpp\<close>, with \<open>StreamBuffer\<close>
  and the read-side fields of \<open>QuicStreamLike\<close> (\<open>state/StreamData.h\<close>).

  Buffers (\<open>BufQueue\<close>, \<open>IOBuf\<close> chains) are byte lists: \<open>chainLength\<close> is the length,
  \<open>trimStartAtMost n\<close> drops, \<open>splitAtMost n\<close> splits, \<open>move\<close> leaves an empty list. Offsets are
  natural numbers: a frame's offset is a variable-length integer below \<open>2 ^ 62\<close> and its data
  fit a packet, so the sums of the code do not wrap. Deque iterators are indices; the
  pointer \<open>current\<close> is the value it points to and, once it points into the deque, the index.
\<close>

section \<open>Data\<close>

record stream_buffer =
  sb_data :: "u8 list"
  sb_offset :: nat
  sb_eof :: bool

record read_side =
  readBuffer :: "stream_buffer list"
  currentReadOffset :: nat
  maxOffsetObserved :: nat
  finalReadOffset :: "nat option"

datatype stream_error =
    Final_size_error
  | Flow_control_error
  | Stream_state_error
  | Stream_limit_error
  | Flow_state_overflow
  | Stream_check_failure
  | Stream_invalid_argument
  | Transport_error_internal
  | Local_error_internal

definition sb_end :: "stream_buffer \<Rightarrow> nat" where
  "sb_end b = sb_offset b + length (sb_data b)"

section \<open>Merging a buffer into the read buffer\<close>

record merge_state =
  ms_rb :: "stream_buffer list"
  ms_current :: stream_buffer
  ms_at :: "nat option"
  ms_start :: "nat option"
  ms_end :: "nat option"

text \<open>Writing through \<open>current\<close>: also into the deque once it points there.\<close>

definition ms_write :: "stream_buffer \<Rightarrow> merge_state \<Rightarrow> merge_state" where
  "ms_write b st = st\<lparr>ms_current := b,
     ms_rb := (case ms_at st of None \<Rightarrow> ms_rb st | Some k \<Rightarrow> (ms_rb st)[k := b])\<rparr>"

definition value_or_self :: "nat option \<Rightarrow> nat \<Rightarrow> nat option" where
  "value_or_self opt i = (case opt of None \<Rightarrow> Some i | Some _ \<Rightarrow> opt)"

text \<open>One iteration at index \<open>i\<close>; the flag is \<open>done\<close>.\<close>

definition merge_step :: "nat \<Rightarrow> merge_state \<Rightarrow> merge_state \<times> bool" where
  "merge_step i st =
     (let cur = ms_current st;
          it = ms_rb st ! i;
          currentEnd = sb_end cur;
          itEnd = sb_end it
      in if sb_offset cur = sb_offset it \<and> currentEnd = itEnd then (st, True)
         else if sb_offset cur \<ge> sb_offset it \<and> currentEnd \<le> itEnd then (st, True)
         else if sb_offset cur \<le> sb_offset it \<and> currentEnd \<ge> sb_offset it \<and> currentEnd \<le> itEnd then
           (let tail = drop (currentEnd - sb_offset it) (sb_data it);
                st1 = st\<lparr>ms_rb := (ms_rb st)[i := it\<lparr>sb_data := []\<rparr>]\<rparr>;
                st2 = ms_write (cur\<lparr>sb_data := sb_data cur @ tail\<rparr>) st1
            in (st2\<lparr>ms_start := value_or_self (ms_start st) i, ms_end := Some (i + 1)\<rparr>, True))
         else if sb_offset cur < sb_offset it \<and> currentEnd < sb_offset it then
           (if ms_start st = None then st\<lparr>ms_start := Some i, ms_end := Some i\<rparr> else st, True)
         else if sb_offset cur \<le> sb_offset it \<and> currentEnd > sb_offset it then
           (st\<lparr>ms_start := value_or_self (ms_start st) i, ms_end := Some (i + 1)\<rparr>, False)
         else if sb_offset cur \<ge> sb_offset it \<and> sb_offset cur \<le> itEnd \<and> currentEnd > itEnd then
           (let glued = it\<lparr>sb_data := sb_data it @ drop (itEnd - sb_offset cur) (sb_data cur)\<rparr>
            in (st\<lparr>ms_rb := (ms_rb st)[i := glued], ms_current := glued, ms_at := Some i,
                   ms_start := Some (i + 1), ms_end := Some (i + 1)\<rparr>, False))
         else (st, False))"

fun merge_loop :: "nat list \<Rightarrow> merge_state \<Rightarrow> merge_state" where
  "merge_loop [] st = st"
| "merge_loop (i # is) st =
     (case merge_step i st of (st', done) \<Rightarrow> if done then st' else merge_loop is st')"

text \<open>After the loop: erase the overlapped range and place \<open>current\<close> if it is not in the deque yet.\<close>

definition merge_finish :: "merge_state \<Rightarrow> stream_buffer list" where
  "merge_finish st =
     (case (ms_start st, ms_end st, ms_at st) of
        (Some s, Some e, None) \<Rightarrow> take s (ms_rb st) @ [ms_current st] @ drop e (ms_rb st)
      | (Some s, Some e, Some k) \<Rightarrow> take s (ms_rb st) @ drop e (ms_rb st)
      | _ \<Rightarrow> if sb_offset (ms_current st) > sb_end (last (ms_rb st))
             then ms_rb st @ [ms_current st] else ms_rb st)"

definition mergeBuffer :: "stream_buffer \<Rightarrow> stream_buffer list \<Rightarrow> stream_buffer list" where
  "mergeBuffer b rb =
     (if rb = [] then [b]
      else
        let i = length (takeWhile (\<lambda>x. sb_end x < sb_offset b) rb)
        in merge_finish (merge_loop [i..<length rb]
             \<lparr>ms_rb = rb, ms_current = b, ms_at = None, ms_start = None, ms_end = None\<rparr>))"

text \<open>
  \<open>appendDataToReadBufferCommon\<close>; the flow-control visitor is its function argument, run on
  a state of its own.
\<close>

definition checkEof :: "stream_buffer \<Rightarrow> 'a read_side_scheme \<Rightarrow> stream_error + 'a read_side_scheme" where
  "checkEof b s =
     (case (finalReadOffset s, sb_eof b) of
        (Some f, True) \<Rightarrow>
          if f \<noteq> sb_end b then Inl Final_size_error
          else if maxOffsetObserved s > sb_end b then Inl Final_size_error
          else Inr (s\<lparr>finalReadOffset := Some (sb_end b)\<rparr>)
      | (None, True) \<Rightarrow>
          if maxOffsetObserved s > sb_end b then Inl Final_size_error
          else Inr (s\<lparr>finalReadOffset := Some (sb_end b)\<rparr>)
      | (Some f, False) \<Rightarrow> if sb_end b > f then Inl Final_size_error else Inr s
      | (None, False) \<Rightarrow> Inr s)"

definition storeBuffer :: "stream_buffer \<Rightarrow> 'a read_side_scheme \<Rightarrow> 'a read_side_scheme" where
  "storeBuffer b s =
     (if sb_data b = [] then s
      else
        let b1 = (if sb_offset b < currentReadOffset s
                  then b\<lparr>sb_data := drop (currentReadOffset s - sb_offset b) (sb_data b),
                         sb_offset := currentReadOffset s\<rparr>
                  else b)
        in if sb_data b1 = [] then s
           else s\<lparr>readBuffer := mergeBuffer b1 (readBuffer s)\<rparr>)"

definition appendDataToReadBufferCommon ::
    "stream_buffer \<Rightarrow> (nat \<Rightarrow> nat \<Rightarrow> 'c \<Rightarrow> stream_error + 'c) \<Rightarrow> 'a read_side_scheme \<Rightarrow> 'c \<Rightarrow>
     stream_error + 'a read_side_scheme \<times> 'c" where
  "appendDataToReadBufferCommon b visitor s c =
     (if \<not> sb_eof b \<and> sb_data b = [] then Inr (s, c)
      else
        bind_result (checkEof b s) (\<lambda>s1.
        bind_result (visitor (maxOffsetObserved s1) (sb_end b) c) (\<lambda>c1.
        let s2 = s1\<lparr>maxOffsetObserved := max (maxOffsetObserved s1) (sb_end b)\<rparr>
        in Inr (storeBuffer b s2, c1))))"

section \<open>Reading in order\<close>

text \<open>
  The loop of \<open>readDataInOrderFromReadBuffer\<close> on the deque and the read offset; \<open>amount\<close> 0
  means everything. The \<open>CHECK_EQ\<close> aborts.
\<close>

function read_loop ::
    "nat \<Rightarrow> nat \<Rightarrow> stream_buffer list \<Rightarrow> nat \<Rightarrow> u8 list \<Rightarrow> bool \<Rightarrow>
     stream_error + stream_buffer list \<times> nat \<times> u8 list \<times> bool" where
  "read_loop amount remaining rb readOffset out eof =
     (if \<not> ((amount = 0 \<or> remaining \<noteq> 0) \<and> rb \<noteq> []) then Inr (rb, readOffset, out, eof)
      else
        let curr = hd rb
        in if sb_offset curr > readOffset then Inr (rb, readOffset, out, eof)
           else if sb_offset curr \<noteq> readOffset then Inl Stream_check_failure
           else
             let currSize = length (sb_data curr);
                 toRead = min currSize (if amount = 0 then currSize else remaining);
                 curr1 = curr\<lparr>sb_data := drop toRead (sb_data curr), sb_offset := sb_offset curr + toRead\<rparr>;
                 out1 = out @ take toRead (sb_data curr);
                 remaining1 = (if amount \<noteq> 0 then remaining - toRead else remaining)
             in if sb_data curr1 = []
                then read_loop amount remaining1 (tl rb) (readOffset + toRead) out1 (sb_eof curr)
                else read_loop amount remaining1 (curr1 # tl rb) (readOffset + toRead) out1 eof)"
  by pat_completeness auto
termination
  by (relation "measure (\<lambda>(amount, remaining, rb, _). length rb + (if amount = 0 then 0 else remaining))")
    (auto simp: min_def neq_Nil_conv split: if_splits)

declare read_loop.simps [simp del]

definition readDataInOrderFromReadBuffer ::
    "nat \<Rightarrow> 'a read_side_scheme \<Rightarrow> stream_error + 'a read_side_scheme \<times> u8 list \<times> bool" where
  "readDataInOrderFromReadBuffer amount s =
     bind_result (read_loop amount amount (readBuffer s) (currentReadOffset s) [] False)
       (\<lambda>(rb, readOffset, out, eof).
          Inr (s\<lparr>readBuffer := rb, currentReadOffset := readOffset\<rparr>, out, eof))"

text \<open>
  The handshake stream: its append has no flow control; \<open>readDataFromCryptoStream\<close> is the
  data of the ordered read. A connection receives buffers and reads in any order.
\<close>

definition appendDataToCryptoReadBuffer :: "stream_buffer \<Rightarrow> read_side \<Rightarrow> stream_error + read_side" where
  "appendDataToCryptoReadBuffer b s =
     bind_result (appendDataToReadBufferCommon b (\<lambda>_ _ c. Inr c) s ()) (\<lambda>(s', _). Inr s')"

definition readDataFromCryptoStream :: "nat \<Rightarrow> read_side \<Rightarrow> stream_error + read_side \<times> u8 list" where
  "readDataFromCryptoStream amount s =
     bind_result (readDataInOrderFromReadBuffer amount s) (\<lambda>(s', out, _). Inr (s', out))"

definition newReadSide :: read_side where
  "newReadSide = \<lparr>readBuffer = [], currentReadOffset = 0, maxOffsetObserved = 0, finalReadOffset = None\<rparr>"

datatype side_event = Receive_buffer stream_buffer | Read_data nat

fun crypto_step :: "read_side \<times> u8 list \<Rightarrow> side_event \<Rightarrow> stream_error + read_side \<times> u8 list" where
  "crypto_step (s, out) (Receive_buffer b) = bind_result (appendDataToCryptoReadBuffer b s) (\<lambda>s'. Inr (s', out))"
| "crypto_step (s, out) (Read_data n) =
     bind_result (readDataFromCryptoStream n s) (\<lambda>(s', d). Inr (s', out @ d))"

section \<open>What the read buffer holds\<close>

text \<open>Sorted, with a gap between neighbours, and no empty buffer.\<close>

definition separated :: "stream_buffer list \<Rightarrow> bool" where
  "separated rb \<longleftrightarrow> sorted_wrt (\<lambda>a b. sb_end a < sb_offset b) rb \<and> (\<forall>b \<in> set rb. sb_data b \<noteq> [])"

definition sb_range :: "stream_buffer \<Rightarrow> nat set" where
  "sb_range b = {sb_offset b..<sb_end b}"

definition covered :: "stream_buffer list \<Rightarrow> nat set" where
  "covered rb = (\<Union>b \<in> set rb. sb_range b)"

text \<open>The buffer holds the bytes of the stream \<open>c\<close>.\<close>

definition holds :: "(nat \<Rightarrow> u8) \<Rightarrow> stream_buffer \<Rightarrow> bool" where
  "holds c b \<longleftrightarrow> sb_data b = map c [sb_offset b..<sb_end b]"

lemma sb_end_less: "sb_data b \<noteq> [] \<longleftrightarrow> sb_offset b < sb_end b"
  by (simp add: sb_end_def)

lemma separated_simps:
  "separated []"
  "separated (x # xs) \<longleftrightarrow> sb_data x \<noteq> [] \<and> separated xs \<and> (\<forall>y \<in> set xs. sb_end x < sb_offset y)"
  "separated (xs @ ys) \<longleftrightarrow> separated xs \<and> separated ys \<and> (\<forall>x \<in> set xs. \<forall>y \<in> set ys. sb_end x < sb_offset y)"
  by (auto simp: separated_def sorted_wrt_append)

lemma covered_simps [simp]:
  "covered [] = {}" "covered (x # xs) = sb_range x \<union> covered xs" "covered (xs @ ys) = covered xs \<union> covered ys"
  by (auto simp: covered_def)

text \<open>The merge as a recursion over the buffers that do not end before the new one.\<close>

fun absorb :: "stream_buffer \<Rightarrow> stream_buffer list \<Rightarrow> stream_buffer list" where
  "absorb cur [] = [cur]"
| "absorb cur (x # xs) =
     (if sb_end cur < sb_offset x then cur # x # xs
      else if sb_offset x \<le> sb_offset cur \<and> sb_end cur \<le> sb_end x then x # xs
      else if sb_offset cur \<le> sb_offset x \<and> sb_end cur \<le> sb_end x
      then cur\<lparr>sb_data := sb_data cur @ drop (sb_end cur - sb_offset x) (sb_data x)\<rparr> # xs
      else if sb_offset cur \<le> sb_offset x then absorb cur xs
      else absorb (x\<lparr>sb_data := sb_data x @ drop (sb_end x - sb_offset cur) (sb_data cur)\<rparr>) xs)"

lemma glue_end:
  assumes "sb_offset a \<le> sb_offset b" "sb_offset b \<le> sb_end a" "sb_end a \<le> sb_end b"
  shows "sb_end (a\<lparr>sb_data := sb_data a @ drop (sb_end a - sb_offset b) (sb_data b)\<rparr>) = sb_end b"
  using assms by (simp add: sb_end_def)

lemma glue_holds:
  assumes "holds c a" "holds c b" "sb_offset a \<le> sb_offset b" "sb_offset b \<le> sb_end a" "sb_end a \<le> sb_end b"
  shows "holds c (a\<lparr>sb_data := sb_data a @ drop (sb_end a - sb_offset b) (sb_data b)\<rparr>)"
proof -
  have "sb_data a @ drop (sb_end a - sb_offset b) (sb_data b) =
      map c [sb_offset a..<sb_end a] @ map c [sb_end a..<sb_end b]"
    using assms by (simp add: holds_def drop_map)
  also have "\<dots> = map c [sb_offset a..<sb_end b]"
    using assms upt_add_eq_append [of "sb_offset a" "sb_end a" "sb_end b - sb_end a"]
    by (simp add: sb_end_def flip: map_append)
  finally show ?thesis unfolding holds_def glue_end [OF assms(3-5)] by simp
qed

lemma absorb_correct:
  assumes "separated xs" and "sb_data cur \<noteq> []" and "\<forall>x \<in> set xs. sb_offset cur \<le> sb_end x"
  shows "separated (absorb cur xs) \<and> covered (absorb cur xs) = sb_range cur \<union> covered xs \<and>
         (holds c cur \<longrightarrow> (\<forall>x \<in> set xs. holds c x) \<longrightarrow> (\<forall>x \<in> set (absorb cur xs). holds c x)) \<and>
         (\<forall>m. m < sb_offset cur \<longrightarrow> (\<forall>x \<in> set xs. m < sb_offset x) \<longrightarrow> (\<forall>x \<in> set (absorb cur xs). m < sb_offset x))"
  using assms
proof (induction xs arbitrary: cur)
  case Nil
  then show ?case by (simp add: separated_simps)
next
  case (Cons x xs)
  have x: "sb_data x \<noteq> []" "separated xs" "\<forall>y \<in> set xs. sb_end x < sb_offset y"
    using Cons.prems(1) by (auto simp: separated_simps)
  have lt: "sb_offset x < sb_end x" "sb_offset cur < sb_end cur" "sb_offset cur \<le> sb_end x"
    using x(1) Cons.prems by (simp_all add: sb_end_less)
  consider (before) "sb_end cur < sb_offset x"
    | (inside) "sb_offset x \<le> sb_offset cur" "sb_end cur \<le> sb_end x"
    | (left) "sb_offset cur < sb_offset x" "sb_offset x \<le> sb_end cur" "sb_end cur \<le> sb_end x"
    | (all) "sb_offset cur \<le> sb_offset x" "sb_end x < sb_end cur"
    | (right) "sb_offset x < sb_offset cur" "sb_end x < sb_end cur" by linarith
  then show ?case
  proof cases
    case before
    then show ?thesis using Cons.prems x lt by (auto simp: separated_simps)
  next
    case inside
    then have "absorb cur (x # xs) = x # xs" using lt by simp
    moreover have "sb_range cur \<subseteq> sb_range x" using inside by (auto simp: sb_range_def)
    ultimately show ?thesis using Cons.prems(1) by auto
  next
    case left
    let ?g = "cur\<lparr>sb_data := sb_data cur @ drop (sb_end cur - sb_offset x) (sb_data x)\<rparr>"
    have res: "absorb cur (x # xs) = ?g # xs" using left by simp
    have "sb_end ?g = sb_end x" using left by (intro glue_end) auto
    moreover have "sb_range ?g = sb_range cur \<union> sb_range x"
      using left calculation by (auto simp: sb_range_def)
    moreover have "holds c cur \<Longrightarrow> holds c x \<Longrightarrow> holds c ?g" using left by (intro glue_holds) auto
    moreover have "separated (?g # xs)"
      using x Cons.prems(2) calculation(1) by (simp add: separated_simps)
    ultimately show ?thesis unfolding res by auto
  next
    case all
    then have res: "absorb cur (x # xs) = absorb cur xs" using lt by simp
    have "sb_range x \<subseteq> sb_range cur" using all by (auto simp: sb_range_def)
    moreover have "\<forall>y \<in> set xs. sb_offset cur \<le> sb_end y" using Cons.prems(3) by simp
    ultimately show ?thesis unfolding res using Cons.IH [OF x(2) Cons.prems(2)] by auto
  next
    case right
    let ?g = "x\<lparr>sb_data := sb_data x @ drop (sb_end x - sb_offset cur) (sb_data cur)\<rparr>"
    have res: "absorb cur (x # xs) = absorb ?g xs" using right lt by simp
    have e: "sb_end ?g = sb_end cur" using right lt by (intro glue_end) auto
    have r: "sb_range ?g = sb_range x \<union> sb_range cur" unfolding sb_range_def e using right lt by auto
    have h: "holds c x \<Longrightarrow> holds c cur \<Longrightarrow> holds c ?g" using right lt by (intro glue_holds) auto
    have "sb_data ?g \<noteq> []" "\<forall>y \<in> set xs. sb_offset ?g \<le> sb_end y"
      using x by (auto simp: sb_end_def)
    note ih = Cons.IH [OF x(2) this]
    have off: "sb_offset ?g = sb_offset x" by simp
    show ?thesis
      unfolding res
    proof (intro conjI)
      show "covered (absorb ?g xs) = sb_range cur \<union> covered (x # xs)"
        using ih unfolding r covered_simps by blast
      show "separated (absorb ?g xs)" using ih by blast
      show "holds c cur \<longrightarrow> (\<forall>y \<in> set (x # xs). holds c y) \<longrightarrow> (\<forall>y \<in> set (absorb ?g xs). holds c y)"
        using ih h unfolding list.set by blast
      show "\<forall>m. m < sb_offset cur \<longrightarrow> (\<forall>y \<in> set (x # xs). m < sb_offset y) \<longrightarrow>
          (\<forall>y \<in> set (absorb ?g xs). m < sb_offset y)"
        using ih unfolding off list.set by blast
    qed
  qed
qed

section \<open>The loop computes the recursion\<close>

abbreviation mk_merge :: "stream_buffer list \<Rightarrow> stream_buffer \<Rightarrow> nat option \<Rightarrow> nat option \<Rightarrow> nat option \<Rightarrow> merge_state" where
  "mk_merge rb cur at s e \<equiv> \<lparr>ms_rb = rb, ms_current = cur, ms_at = at, ms_start = s, ms_end = e\<rparr>"

text \<open>\<open>current\<close> is still outside the deque and starts before everything from index \<open>i\<close> on.\<close>

lemma merge_loop_outside:
  assumes "i \<le> length rb" "s \<le> i" "\<forall>y \<in> set (drop i rb). sb_offset cur < sb_offset y" "sb_data cur \<noteq> []"
    "\<forall>y \<in> set (drop i rb). sb_data y \<noteq> []"
  shows "merge_finish (merge_loop [i..<length rb] (mk_merge rb cur None (Some s) (Some i))) =
         take s rb @ absorb cur (drop i rb)"
  using assms
proof (induction "length rb - i" arbitrary: i)
  case 0
  then show ?case by (simp add: merge_finish_def)
next
  case (Suc n)
  then have i: "i < length rb" by simp
  define x where "x = rb ! i"
  have drop: "drop i rb = x # drop (i + 1) rb" using i by (simp add: x_def Cons_nth_drop_Suc)
  have upt: "[i..<length rb] = i # [i + 1..<length rb]" using i by (simp add: upt_rec)
  have off: "sb_offset cur < sb_offset x" and x: "sb_offset x < sb_end x" and c: "sb_offset cur < sb_end cur"
    using Suc.prems drop by (auto simp: sb_end_less)
  consider "sb_end cur < sb_offset x" | "sb_offset x \<le> sb_end cur" "sb_end cur \<le> sb_end x" | "sb_end x < sb_end cur"
    by linarith
  then show ?case
  proof cases
    case 1
    then have "merge_step i (mk_merge rb cur None (Some s) (Some i)) = (mk_merge rb cur None (Some s) (Some i), True)"
      using off x c by (simp add: merge_step_def Let_def x_def [symmetric])
    then show ?thesis using 1 by (simp add: upt merge_finish_def drop)
  next
    case 2
    let ?cur = "cur\<lparr>sb_data := sb_data cur @ drop (sb_end cur - sb_offset x) (sb_data x)\<rparr>"
    have "merge_step i (mk_merge rb cur None (Some s) (Some i)) =
        (mk_merge (rb[i := x\<lparr>sb_data := []\<rparr>]) ?cur None (Some s) (Some (i + 1)), True)"
      using 2 off x c by (simp add: merge_step_def Let_def x_def [symmetric] ms_write_def value_or_self_def)
    then show ?thesis using 2 off Suc.prems(2) by (simp add: upt merge_finish_def drop)
  next
    case 3
    have "merge_step i (mk_merge rb cur None (Some s) (Some i)) = (mk_merge rb cur None (Some s) (Some (i + 1)), False)"
      using 3 off x c by (simp add: merge_step_def Let_def x_def [symmetric] value_or_self_def)
    moreover have "absorb cur (drop i rb) = absorb cur (drop (i + 1) rb)" using 3 off x by (simp add: drop)
    moreover have "merge_finish (merge_loop [i + 1..<length rb] (mk_merge rb cur None (Some s) (Some (i + 1)))) =
        take s rb @ absorb cur (drop (i + 1) rb)"
      using Suc.hyps(2) Suc.prems i drop by (intro Suc.hyps(1)) auto
    ultimately show ?thesis by (simp add: upt)
  qed
qed

text \<open>\<open>current\<close> is the element at index \<open>k\<close>; everything between \<open>k\<close> and \<open>i\<close> is to be erased.\<close>

lemma merge_loop_inside:
  assumes "i \<le> length rb" "k < i" "rb ! k = cur" "\<forall>y \<in> set (drop i rb). sb_offset cur < sb_offset y" "sb_data cur \<noteq> []"
    "\<forall>y \<in> set (drop i rb). sb_data y \<noteq> []"
  shows "merge_finish (merge_loop [i..<length rb] (mk_merge rb cur (Some k) (Some (k + 1)) (Some i))) =
         take k rb @ absorb cur (drop i rb)"
  using assms
proof (induction "length rb - i" arbitrary: i)
  case 0
  then show ?case by (simp add: merge_finish_def take_Suc_conv_app_nth)
next
  case (Suc n)
  then have i: "i < length rb" "k < length rb" by simp_all
  define x where "x = rb ! i"
  have drop: "drop i rb = x # drop (i + 1) rb" using i by (simp add: x_def Cons_nth_drop_Suc)
  have upt: "[i..<length rb] = i # [i + 1..<length rb]" using i by (simp add: upt_rec)
  have off: "sb_offset cur < sb_offset x" and x: "sb_offset x < sb_end x" and c: "sb_offset cur < sb_end cur"
    using Suc.prems drop by (auto simp: sb_end_less)
  consider "sb_end cur < sb_offset x" | "sb_offset x \<le> sb_end cur" "sb_end cur \<le> sb_end x" | "sb_end x < sb_end cur"
    by linarith
  then show ?case
  proof cases
    case 1
    then have "merge_step i (mk_merge rb cur (Some k) (Some (k + 1)) (Some i)) =
        (mk_merge rb cur (Some k) (Some (k + 1)) (Some i), True)"
      using off x c by (simp add: merge_step_def Let_def x_def [symmetric])
    then show ?thesis
      using 1 i Suc.prems(3) by (simp add: upt merge_finish_def drop take_Suc_conv_app_nth)
  next
    case 2
    let ?cur = "cur\<lparr>sb_data := sb_data cur @ drop (sb_end cur - sb_offset x) (sb_data x)\<rparr>"
    have "merge_step i (mk_merge rb cur (Some k) (Some (k + 1)) (Some i)) =
        (mk_merge (rb[i := x\<lparr>sb_data := []\<rparr>, k := ?cur]) ?cur (Some k) (Some (k + 1)) (Some (i + 1)), True)"
      using 2 off x c by (simp add: merge_step_def Let_def x_def [symmetric] ms_write_def value_or_self_def)
    then show ?thesis
      using 2 off i Suc.prems(2) by (simp add: upt merge_finish_def drop take_Suc_conv_app_nth)
  next
    case 3
    have "merge_step i (mk_merge rb cur (Some k) (Some (k + 1)) (Some i)) =
        (mk_merge rb cur (Some k) (Some (k + 1)) (Some (i + 1)), False)"
      using 3 off x c by (simp add: merge_step_def Let_def x_def [symmetric] value_or_self_def)
    moreover have "absorb cur (drop i rb) = absorb cur (drop (i + 1) rb)" using 3 off x by (simp add: drop)
    moreover have "merge_finish (merge_loop [i + 1..<length rb] (mk_merge rb cur (Some k) (Some (k + 1)) (Some (i + 1)))) =
        take k rb @ absorb cur (drop (i + 1) rb)"
      using Suc.hyps(2) Suc.prems i drop by (intro Suc.hyps(1)) auto
    ultimately show ?thesis by (simp add: upt)
  qed
qed

lemma takeWhile_ends_before:
  assumes "separated rb" and "x \<in> set (dropWhile (\<lambda>x. sb_end x < m) rb)"
  shows "m \<le> sb_end x"
  using assms
proof (induction rb)
  case (Cons y ys)
  show ?case
  proof (cases "sb_end y < m")
    case True
    with Cons show ?thesis by (simp add: separated_simps)
  next
    case False
    moreover have "sb_end y \<le> sb_end x"
      using Cons.prems False by (auto simp: separated_simps sb_end_def)
    ultimately show ?thesis by simp
  qed
qed simp

text \<open>The whole merge: a prefix that ends before the new buffer, and the recursion on the rest.\<close>

lemma mergeBuffer_eq:
  assumes sep: "separated rb" and b: "sb_data b \<noteq> []"
  shows "mergeBuffer b rb =
    takeWhile (\<lambda>x. sb_end x < sb_offset b) rb @ absorb b (dropWhile (\<lambda>x. sb_end x < sb_offset b) rb)"
proof -
  define P where "P = takeWhile (\<lambda>x. sb_end x < sb_offset b) rb"
  define R where "R = dropWhile (\<lambda>x. sb_end x < sb_offset b) rb"
  define i where "i = length P"
  have rb: "rb = P @ R" by (simp add: P_def R_def)
  then have drop: "drop i rb = R" and take: "take i rb = P" by (simp_all add: i_def)
  have merge: "rb \<noteq> [] \<Longrightarrow> mergeBuffer b rb = merge_finish (merge_loop [i..<length rb] (mk_merge rb b None None None))"
    by (simp add: mergeBuffer_def i_def P_def Let_def)
  have "mergeBuffer b rb = P @ absorb b R"
  proof (cases R)
    case Nil
    then have P: "P = rb" using rb by simp
    have "sb_end (last rb) < sb_offset b" if "rb \<noteq> []"
    proof -
      have "last rb \<in> set P" using that P by simp
      then show ?thesis unfolding P_def using set_takeWhileD by fast
    qed
    then show ?thesis
      using Nil P merge by (cases "rb = []") (simp_all add: mergeBuffer_def merge_finish_def i_def)
  next
    case (Cons x xs)
    have x: "rb ! i = x" and xs: "drop (i + 1) rb = xs" and len: "i < length rb" and ne: "rb \<noteq> []"
      using rb Cons by (simp_all add: i_def nth_append)
    have upt: "[i..<length rb] = i # [i + 1..<length rb]" using len by (simp add: upt_rec)
    have "separated (x # xs)" using sep rb Cons by (simp add: separated_simps)
    then have sx: "sb_offset x < sb_end x" "\<forall>y \<in> set xs. sb_end x < sb_offset y" "\<forall>y \<in> set xs. sb_data y \<noteq> []"
      by (auto simp: separated_def sb_end_less)
    have le: "sb_offset b \<le> sb_end x"
      using takeWhile_ends_before [OF sep, of x "sb_offset b"] Cons by (simp add: R_def [symmetric])
    have c: "sb_offset b < sb_end b" using b by (simp add: sb_end_less)
    have lastx: "sb_end x \<le> sb_end (last rb)"
    proof (cases "xs = []")
      case False
      then have "sb_end x < sb_offset (last xs)" using sx(2) by simp
      then show ?thesis using rb Cons False by (simp add: sb_end_def)
    qed (simp add: rb Cons)
    let ?st = "mk_merge rb b None None None"
    consider (before) "sb_end b < sb_offset x"
      | (inside) "sb_offset x \<le> sb_offset b" "sb_end b \<le> sb_end x"
      | (left) "sb_offset b < sb_offset x" "sb_offset x \<le> sb_end b" "sb_end b \<le> sb_end x"
      | (all) "sb_offset b \<le> sb_offset x" "sb_end x < sb_end b"
      | (right) "sb_offset x < sb_offset b" "sb_end x < sb_end b" by linarith
    then have "merge_finish (merge_loop [i..<length rb] ?st) = P @ absorb b R"
    proof cases
      case before
      then have "merge_step i ?st = (mk_merge rb b None (Some i) (Some i), True)"
        using c sx(1) by (simp add: merge_step_def Let_def x)
      then show ?thesis using before by (simp add: upt merge_finish_def drop take Cons)
    next
      case inside
      then have "merge_step i ?st = (?st, True)" using c sx(1) by (simp add: merge_step_def Let_def x)
      moreover have "absorb b R = R" using inside c by (simp add: Cons)
      ultimately show ?thesis using inside c lastx by (simp add: upt merge_finish_def rb [symmetric])
    next
      case left
      then have "merge_step i ?st = (mk_merge (rb[i := x\<lparr>sb_data := []\<rparr>])
          (b\<lparr>sb_data := sb_data b @ drop (sb_end b - sb_offset x) (sb_data x)\<rparr>) None (Some i) (Some (i + 1)), True)"
        using c sx(1) by (simp add: merge_step_def Let_def x ms_write_def value_or_self_def)
      then show ?thesis using left xs by (simp add: upt merge_finish_def take Cons)
    next
      case all
      then have "merge_step i ?st = (mk_merge rb b None (Some i) (Some (i + 1)), False)"
        using c sx(1) by (simp add: merge_step_def Let_def x value_or_self_def)
      moreover have "absorb b R = absorb b xs" using all sx(1) by (simp add: Cons)
      moreover have "\<forall>y \<in> set xs. sb_offset b < sb_offset y" using all sx by auto
      ultimately show ?thesis
        using merge_loop_outside [of "i + 1" rb i b] len b sx xs by (simp add: upt take)
    next
      case right
      let ?g = "x\<lparr>sb_data := sb_data x @ drop (sb_end x - sb_offset b) (sb_data b)\<rparr>"
      have "merge_step i ?st = (mk_merge (rb[i := ?g]) ?g (Some i) (Some (i + 1)) (Some (i + 1)), False)"
        using right c sx(1) le by (simp add: merge_step_def Let_def x)
      moreover have "absorb b R = absorb ?g xs" using right sx(1) le by (simp add: Cons)
      moreover have "merge_finish (merge_loop [i + 1..<length (rb[i := ?g])]
            (mk_merge (rb[i := ?g]) ?g (Some i) (Some (i + 1)) (Some (i + 1)))) =
          take i (rb[i := ?g]) @ absorb ?g (drop (i + 1) (rb[i := ?g]))"
      proof (rule merge_loop_inside)
        show "sb_data ?g \<noteq> []" using sx(1) by (auto simp: sb_end_def)
        show "\<forall>y \<in> set (drop (i + 1) (rb[i := ?g])). sb_offset ?g < sb_offset y" using sx xs by auto
      qed (use len sx xs in simp_all)
      ultimately show ?thesis using xs by (simp add: upt take)
    qed
    with merge [OF ne] show ?thesis by simp
  qed
  then show ?thesis by (simp only: P_def R_def)
qed

lemma mergeBuffer_correct:
  assumes sep: "separated rb" and b: "sb_data b \<noteq> []"
  shows "separated (mergeBuffer b rb)" and "covered (mergeBuffer b rb) = covered rb \<union> sb_range b"
    and "holds c b \<Longrightarrow> \<forall>x \<in> set rb. holds c x \<Longrightarrow> \<forall>x \<in> set (mergeBuffer b rb). holds c x"
    and "m \<le> sb_offset b \<Longrightarrow> \<forall>x \<in> set rb. m \<le> sb_offset x \<Longrightarrow> \<forall>x \<in> set (mergeBuffer b rb). m \<le> sb_offset x"
proof -
  define P where "P = takeWhile (\<lambda>x. sb_end x < sb_offset b) rb"
  define R where "R = dropWhile (\<lambda>x. sb_end x < sb_offset b) rb"
  have rb: "rb = P @ R" by (simp add: P_def R_def)
  have sepR: "separated P" "separated R" "\<forall>p \<in> set P. \<forall>r \<in> set R. sb_end p < sb_offset r"
    using sep unfolding rb by (simp_all add: separated_simps)
  have P: "\<forall>p \<in> set P. sb_end p < sb_offset b" using set_takeWhileD unfolding P_def by fast
  have eq: "mergeBuffer b rb = P @ absorb b R"
    using mergeBuffer_eq [OF sep b] by (simp add: P_def R_def)
  have R: "\<forall>x \<in> set R. sb_offset b \<le> sb_end x" using takeWhile_ends_before [OF sep] by (auto simp: R_def)
  note ab = absorb_correct [OF sepR(2) b R]
  have low: "\<forall>x \<in> set (absorb b R). k < sb_offset x" if "k < sb_offset b" "\<forall>x \<in> set R. k < sb_offset x" for k
    using ab that by blast
  show "separated (mergeBuffer b rb)"
    unfolding eq separated_simps using sepR P ab low by blast
  show "covered (mergeBuffer b rb) = covered rb \<union> sb_range b"
    using ab arg_cong [OF rb, of covered] unfolding eq covered_simps by blast
  show "\<forall>x \<in> set (mergeBuffer b rb). holds c x" if "holds c b" "\<forall>x \<in> set rb. holds c x"
    using that absorb_correct [OF sepR(2) b R, of c] arg_cong [OF rb, of set] unfolding eq set_append by blast
  show "\<forall>x \<in> set (mergeBuffer b rb). m \<le> sb_offset x" if "m \<le> sb_offset b" "\<forall>x \<in> set rb. m \<le> sb_offset x"
  proof (cases m)
    case (Suc k)
    then show ?thesis
      using that low [of k] arg_cong [OF rb, of set] unfolding eq set_append Suc Suc_le_eq by blast
  qed simp
qed

section \<open>Reading\<close>

text \<open>
  What a read returns: the bytes from the read offset on, without a gap, as many as asked
  for or up to the first byte that is missing.
\<close>

definition read_result :: "(nat \<Rightarrow> u8) \<Rightarrow> nat \<Rightarrow> nat \<Rightarrow> stream_buffer list \<Rightarrow> nat \<Rightarrow> stream_buffer list \<Rightarrow> nat \<Rightarrow> bool" where
  "read_result c amount remaining rb ro rb' ro' \<longleftrightarrow>
     ro \<le> ro' \<and> {ro..<ro'} \<subseteq> covered rb \<and> covered rb' = covered rb - {..<ro'} \<and>
     separated rb' \<and> (\<forall>b \<in> set rb'. holds c b \<and> ro' \<le> sb_offset b) \<and>
     (if amount = 0 then ro' \<notin> covered rb
      else ro' \<le> ro + remaining \<and> (ro' = ro + remaining \<or> ro' \<notin> covered rb))"

lemma covered_from:
  assumes "\<forall>b \<in> set rb. m \<le> sb_offset b" shows "covered rb - {..<m} = covered rb"
  using assms by (fastforce simp: covered_def sb_range_def)

lemma holds_take: "holds c b \<Longrightarrow> n \<le> length (sb_data b) \<Longrightarrow>
    take n (sb_data b) = map c [sb_offset b..<sb_offset b + n]"
  unfolding holds_def sb_end_def by (metis add_le_cancel_left take_map take_upt)

lemma holds_drop:
  assumes "holds c b" "n \<le> length (sb_data b)"
  shows "holds c (b\<lparr>sb_data := drop n (sb_data b), sb_offset := sb_offset b + n\<rparr>)"
proof -
  have "drop n (sb_data b) = map c [sb_offset b + n..<sb_end b]"
    using assms(1) unfolding holds_def by (metis drop_map drop_upt)
  then show ?thesis using assms(2) by (simp add: holds_def sb_end_def)
qed

lemma read_loop_stop:
  assumes "\<not> ((amount = 0 \<or> remaining \<noteq> 0) \<and> rb \<noteq> []) \<or> ro < sb_offset (hd rb)"
  shows "read_loop amount remaining rb ro out eof = Inr (rb, ro, out, eof)"
  using assms by (subst read_loop.simps) (auto simp: Let_def)

text \<open>Neighbours in the read buffer have a gap, so a read never needs a second buffer.\<close>

lemma read_loop_front:
  assumes "separated (x # xs)" and "sb_offset x = ro" and "amount = 0 \<or> remaining \<noteq> 0"
    and n: "n = min (length (sb_data x)) (if amount = 0 then length (sb_data x) else remaining)"
  shows "\<exists>eof'. read_loop amount remaining (x # xs) ro out eof =
    Inr (if n = length (sb_data x) then xs
         else x\<lparr>sb_data := drop n (sb_data x), sb_offset := sb_offset x + n\<rparr> # xs,
         ro + n, out @ take n (sb_data x), eof')"
proof (cases "n = length (sb_data x)")
  case True
  have next_gap: "xs = [] \<or> ro + n < sb_offset (hd xs)"
    using assms(1,2) True by (cases xs) (auto simp: separated_simps sb_end_def)
  have "read_loop amount remaining (x # xs) ro out eof =
      read_loop amount (if amount \<noteq> 0 then remaining - n else remaining) xs (ro + n)
        (out @ take n (sb_data x)) (sb_eof x)"
    using assms(2,3) True n by (subst read_loop.simps) (auto simp: Let_def split: if_splits)
  also have "\<dots> = Inr (xs, ro + n, out @ take n (sb_data x), sb_eof x)"
    by (rule read_loop_stop) (use next_gap in auto)
  finally show ?thesis using True by auto
next
  case False
  then have "n < length (sb_data x)" "amount \<noteq> 0" "n = remaining" using n by (auto split: if_splits)
  then have "read_loop amount remaining (x # xs) ro out eof =
      read_loop amount 0 (x\<lparr>sb_data := drop n (sb_data x), sb_offset := sb_offset x + n\<rparr> # xs) (ro + n)
        (out @ take n (sb_data x)) eof"
    using assms(2,3) by (subst read_loop.simps) (simp add: Let_def)
  also have "\<dots> = Inr (x\<lparr>sb_data := drop n (sb_data x), sb_offset := sb_offset x + n\<rparr> # xs, ro + n,
      out @ take n (sb_data x), eof)"
    by (rule read_loop_stop) (simp add: \<open>amount \<noteq> 0\<close>)
  finally show ?thesis using False by auto
qed

lemma read_result_front:
  assumes sep: "separated (x # xs)" and h: "\<forall>b \<in> set (x # xs). holds c b" and "sb_offset x = ro"
    and n: "n = min (length (sb_data x)) (if amount = 0 then length (sb_data x) else remaining)"
  shows "read_result c amount remaining (x # xs) ro
    (if n = length (sb_data x) then xs
     else x\<lparr>sb_data := drop n (sb_data x), sb_offset := sb_offset x + n\<rparr> # xs) (ro + n)"
proof -
  have le: "ro + n \<le> sb_end x" and len: "n \<le> length (sb_data x)" using n assms(3) by (simp_all add: sb_end_def)
  have xs: "\<forall>y \<in> set xs. sb_end x < sb_offset y" "separated xs" using sep by (simp_all add: separated_simps)
  have cov: "covered xs - {..<ro + n} = covered xs"
    using xs(1) le by (intro covered_from) fastforce
  have out: "k \<notin> covered xs" if "k \<le> sb_end x" for k
    using xs(1) that by (fastforce simp: covered_def sb_range_def)
  have sub: "{ro..<ro + n} \<subseteq> sb_range x" using le assms(3) by (auto simp: sb_range_def)
  show ?thesis
  proof (cases "n = length (sb_data x)")
    case True
    then have e: "ro + n = sb_end x" using assms(3) by (simp add: sb_end_def)
    have "sb_range x - {..<ro + n} = {}" "ro + n \<notin> covered (x # xs)"
      using out [of "ro + n"] e by (auto simp: sb_range_def)
    moreover have "\<forall>b \<in> set xs. holds c b \<and> ro + n \<le> sb_offset b" using h xs(1) e by force
    ultimately show ?thesis
      unfolding read_result_def using True sub cov xs(2) n by (auto split: if_splits)
  next
    case False
    let ?x = "x\<lparr>sb_data := drop n (sb_data x), sb_offset := sb_offset x + n\<rparr>"
    have am: "amount \<noteq> 0" "n = remaining" using False n by (auto split: if_splits)
    have e: "sb_end ?x = sb_end x" "sb_offset ?x = ro + n" using len assms(3) by (simp_all add: sb_end_def)
    have "sb_range ?x = sb_range x - {..<ro + n}" unfolding sb_range_def e using assms(3) by auto
    moreover have "separated (?x # xs)" using False len xs e(1) by (simp add: separated_simps)
    moreover have "holds c ?x" using h len by (intro holds_drop) auto
    moreover have "\<forall>b \<in> set xs. holds c b \<and> ro + n \<le> sb_offset b" using h xs(1) le by force
    ultimately show ?thesis
      unfolding read_result_def using False sub cov am e(2) assms(3) by (auto simp: Un_Diff)
  qed
qed

lemma read_loop_correct:
  assumes "separated rb" and "\<forall>b \<in> set rb. holds c b \<and> ro \<le> sb_offset b"
  shows "\<exists>rb' ro' eof'. read_loop amount remaining rb ro out eof = Inr (rb', ro', out @ map c [ro..<ro'], eof') \<and>
           read_result c amount remaining rb ro rb' ro'"
proof (cases "(amount = 0 \<or> remaining \<noteq> 0) \<and> rb \<noteq> [] \<and> sb_offset (hd rb) = ro")
  case False
  then have "\<not> ((amount = 0 \<or> remaining \<noteq> 0) \<and> rb \<noteq> []) \<or> ro < sb_offset (hd rb)"
    using assms(2) by (cases rb) auto
  moreover from this have "read_result c amount remaining rb ro rb ro"
  proof -
    have "ro \<notin> covered rb" if "rb = [] \<or> ro < sb_offset (hd rb)"
      using that assms(1) by (cases rb) (fastforce simp: separated_simps covered_def sb_range_def sb_end_def)+
    then show ?thesis
      using calculation assms covered_from [of rb ro] unfolding read_result_def by auto
  qed
  ultimately show ?thesis using read_loop_stop [of amount remaining rb ro out eof] by auto
next
  case True
  then obtain x xs where rb: "rb = x # xs" and ro: "sb_offset x = ro" by (cases rb) auto
  define n where "n = min (length (sb_data x)) (if amount = 0 then length (sb_data x) else remaining)"
  have "take n (sb_data x) = map c [ro..<ro + n]"
    using assms(2) rb holds_take [of c x n] ro by (simp add: n_def)
  then show ?thesis
    using read_loop_front [of x xs ro amount remaining n out eof]
      read_result_front [of x xs c ro n amount remaining] assms True rb ro n_def by fastforce
qed

section \<open>The stream from end to end\<close>

text \<open>The bytes that arrived and how the stream stands to them and to the bytes read so far.\<close>

definition side_ok :: "(nat \<Rightarrow> u8) \<Rightarrow> nat set \<Rightarrow> 'a read_side_scheme \<Rightarrow> u8 list \<Rightarrow> bool" where
  "side_ok c got s out \<longleftrightarrow>
     separated (readBuffer s) \<and> (\<forall>b \<in> set (readBuffer s). holds c b \<and> currentReadOffset s \<le> sb_offset b) \<and>
     covered (readBuffer s) = got - {..<currentReadOffset s} \<and> {..<currentReadOffset s} \<subseteq> got \<and>
     out = map c [0..<currentReadOffset s]"

primrec received :: "side_event list \<Rightarrow> nat set" where
  "received [] = {}"
| "received (v # vs) = (case v of Receive_buffer b \<Rightarrow> sb_range b | Read_data n \<Rightarrow> {}) \<union> received vs"

lemma storeBuffer_ok:
  assumes ok: "side_ok c got s out" and h: "holds c b"
  shows "side_ok c (got \<union> sb_range b) (storeBuffer b s) out"
proof -
  define n where "n = currentReadOffset s - sb_offset b"
  define b1 where "b1 = (if sb_offset b < currentReadOffset s
    then b\<lparr>sb_data := drop n (sb_data b), sb_offset := currentReadOffset s\<rparr> else b)"
  have st: "storeBuffer b s =
      (if sb_data b = [] \<or> sb_data b1 = [] then s else s\<lparr>readBuffer := mergeBuffer b1 (readBuffer s)\<rparr>)"
    by (simp add: storeBuffer_def b1_def n_def Let_def)
  have range: "sb_range b1 = sb_range b - {..<currentReadOffset s}"
    by (auto simp: b1_def n_def sb_range_def sb_end_def)
  have low: "currentReadOffset s \<le> sb_offset b1" by (simp add: b1_def)
  have hb: "holds c b1" if "sb_data b1 \<noteq> []"
    using that h holds_drop [OF h, of n] by (auto simp: b1_def n_def split: if_splits)
  show ?thesis
  proof (cases "sb_data b = [] \<or> sb_data b1 = []")
    case True
    then have "sb_range b - {..<currentReadOffset s} = {}"
      using range by (auto simp: sb_range_def sb_end_def)
    then show ?thesis using ok True by (auto simp: st side_ok_def)
  next
    case False
    then have ne: "sb_data b1 \<noteq> []" by simp
    have sep: "separated (readBuffer s)" and hs: "\<forall>x \<in> set (readBuffer s). holds c x"
      and lows: "\<forall>x \<in> set (readBuffer s). currentReadOffset s \<le> sb_offset x"
      and cov: "covered (readBuffer s) = got - {..<currentReadOffset s}"
      using ok by (simp_all add: side_ok_def)
    note m = mergeBuffer_correct [OF sep ne]
    have "covered (mergeBuffer b1 (readBuffer s)) = (got \<union> sb_range b) - {..<currentReadOffset s}"
      unfolding m(2) cov range by blast
    moreover have "\<forall>x \<in> set (mergeBuffer b1 (readBuffer s)). holds c x \<and> currentReadOffset s \<le> sb_offset x"
      using m(3) [OF hb [OF ne] hs] m(4) [OF low lows] by blast
    moreover have "storeBuffer b s = s\<lparr>readBuffer := mergeBuffer b1 (readBuffer s)\<rparr>" using False st by simp
    moreover have "{..<currentReadOffset s} \<subseteq> got \<union> sb_range b" "out = map c [0..<currentReadOffset s]"
      using ok by (auto simp: side_ok_def)
    ultimately show ?thesis using m(1) by (simp add: side_ok_def)
  qed
qed

lemma append_ok:
  assumes ok: "side_ok c got s out" and h: "holds c b"
  shows "(case appendDataToCryptoReadBuffer b s of
      Inl e \<Rightarrow> e = Final_size_error \<and> (finalReadOffset s \<noteq> None \<or> sb_eof b)
    | Inr s' \<Rightarrow> side_ok c (got \<union> sb_range b) s' out \<and> (finalReadOffset s' \<noteq> None \<longrightarrow> finalReadOffset s \<noteq> None \<or> sb_eof b))"
proof (cases "\<not> sb_eof b \<and> sb_data b = []")
  case True
  then have "sb_range b = {}" by (simp add: sb_range_def sb_end_def)
  then show ?thesis
    using True ok by (simp add: appendDataToCryptoReadBuffer_def appendDataToReadBufferCommon_def)
next
  case False
  have unchanged: "finalReadOffset (storeBuffer b t) = finalReadOffset t" for t :: read_side
    by (simp add: storeBuffer_def Let_def)
  have eof: "readBuffer t = readBuffer s \<and> currentReadOffset t = currentReadOffset s \<and>
      (finalReadOffset t \<noteq> None \<longrightarrow> finalReadOffset s \<noteq> None \<or> sb_eof b)" if "checkEof b s = Inr t" for t
    using that by (auto simp: checkEof_def split: option.splits bool.splits if_splits)
  have err: "e = Final_size_error \<and> (finalReadOffset s \<noteq> None \<or> sb_eof b)" if "checkEof b s = Inl e" for e
    using that by (auto simp: checkEof_def split: option.splits bool.splits if_splits)
  show ?thesis
  proof (cases "checkEof b s")
    case (Inl e)
    then show ?thesis
      using False err by (auto simp: appendDataToCryptoReadBuffer_def appendDataToReadBufferCommon_def)
  next
    case (Inr t)
    define u where "u = t\<lparr>maxOffsetObserved := max (maxOffsetObserved t) (sb_end b)\<rparr>"
    have "side_ok c got u out" using ok eof [OF Inr] by (simp add: side_ok_def u_def)
    then have "side_ok c (got \<union> sb_range b) (storeBuffer b u) out" using h by (rule storeBuffer_ok)
    moreover have "appendDataToCryptoReadBuffer b s = Inr (storeBuffer b u)"
      using False Inr by (auto simp: appendDataToCryptoReadBuffer_def appendDataToReadBufferCommon_def u_def Let_def)
    ultimately show ?thesis using eof [OF Inr] by (simp add: unchanged u_def)
  qed
qed

lemma read_ok:
  assumes ok: "side_ok c got s out"
  shows "\<exists>s' d. readDataFromCryptoStream n s = Inr (s', d) \<and> side_ok c got s' (out @ d) \<and>
    finalReadOffset s' = finalReadOffset s \<and> currentReadOffset s \<le> currentReadOffset s' \<and>
    (if n = 0 then currentReadOffset s' \<notin> got
     else currentReadOffset s' = currentReadOffset s + n \<or> currentReadOffset s' \<notin> got)"
proof -
  have "separated (readBuffer s)" "\<forall>b \<in> set (readBuffer s). holds c b \<and> currentReadOffset s \<le> sb_offset b"
    using ok by (simp_all add: side_ok_def)
  from read_loop_correct [OF this, of n n "[]" False] obtain rb' ro' eof' where
    run: "read_loop n n (readBuffer s) (currentReadOffset s) [] False =
      Inr (rb', ro', map c [currentReadOffset s..<ro'], eof')"
    and res: "read_result c n n (readBuffer s) (currentReadOffset s) rb' ro'" by auto
  have le: "currentReadOffset s \<le> ro'" and sub: "{currentReadOffset s..<ro'} \<subseteq> covered (readBuffer s)"
    using res by (simp_all add: read_result_def)
  have "map c [0..<currentReadOffset s] @ map c [currentReadOffset s..<ro'] = map c [0..<ro']"
    using le upt_add_eq_append [of 0 "currentReadOffset s" "ro' - currentReadOffset s"] by (simp flip: map_append)
  moreover have "{..<ro'} \<subseteq> got"
  proof
    fix k assume "k \<in> {..<ro'}"
    then have "k < currentReadOffset s \<or> k \<in> covered (readBuffer s)"
      using sub by (meson atLeastLessThan_iff lessThan_iff not_le subsetD)
    then show "k \<in> got" using ok by (auto simp: side_ok_def)
  qed
  moreover have cov: "covered (readBuffer s) = got - {..<currentReadOffset s}" using ok by (simp add: side_ok_def)
  moreover have "got - {..<currentReadOffset s} - {..<ro'} = got - {..<ro'}" using le by auto
  ultimately have "side_ok c got (s\<lparr>readBuffer := rb', currentReadOffset := ro'\<rparr>)
      (out @ map c [currentReadOffset s..<ro'])"
    using ok res by (simp add: side_ok_def read_result_def)
  moreover have "if n = 0 then ro' \<notin> got else ro' = currentReadOffset s + n \<or> ro' \<notin> got"
    using res le unfolding read_result_def cov by (auto split: if_splits)
  ultimately show ?thesis
    using le by (simp add: readDataFromCryptoStream_def readDataInOrderFromReadBuffer_def run)
qed

lemma crypto_run_ok:
  assumes "side_ok c got s out" and "\<forall>b. Receive_buffer b \<in> set vs \<longrightarrow> holds c b"
  shows "case run_events crypto_step (s, out) vs of
      Inl e \<Rightarrow> e = Final_size_error \<and> (finalReadOffset s \<noteq> None \<or> (\<exists>b. Receive_buffer b \<in> set vs \<and> sb_eof b))
    | Inr (s', out') \<Rightarrow> side_ok c (got \<union> received vs) s' out'"
  using assms
proof (induction vs arbitrary: got s out)
  case Nil
  then show ?case by simp
next
  case (Cons v vs)
  have rest: "\<forall>b. Receive_buffer b \<in> set vs \<longrightarrow> holds c b" using Cons.prems(2) by simp
  show ?case
  proof (cases v)
    case (Receive_buffer b)
    then have h: "holds c b" using Cons.prems(2) by simp
    show ?thesis
    proof (cases "appendDataToCryptoReadBuffer b s")
      case (Inl e)
      then show ?thesis using append_ok [OF Cons.prems(1) h] Receive_buffer by auto
    next
      case (Inr s1)
      then have "side_ok c (got \<union> sb_range b) s1 out"
          "finalReadOffset s1 \<noteq> None \<longrightarrow> finalReadOffset s \<noteq> None \<or> sb_eof b"
        using append_ok [OF Cons.prems(1) h] by simp_all
      with Cons.IH [OF this(1) rest] Inr Receive_buffer show ?thesis
        by (auto simp: Un_assoc split: sum.splits)
    qed
  next
    case (Read_data n)
    obtain s1 d where "readDataFromCryptoStream n s = Inr (s1, d)" "side_ok c got s1 (out @ d)"
      "finalReadOffset s1 = finalReadOffset s"
      using read_ok [OF Cons.prems(1)] by blast
    with Cons.IH [OF this(2) rest] Read_data show ?thesis by (auto split: sum.splits)
  qed
qed

lemma side_ok_new [simp]: "side_ok c {} newReadSide []"
  by (simp add: side_ok_def newReadSide_def separated_simps)

text \<open>
  C5. In-order delivery: whatever order the buffers of a stream \<open>c\<close> arrive in, overlapping,
  repeated or with gaps, and however reads of any size are interleaved with them, the bytes
  read so far are exactly the bytes of \<open>c\<close> before the read offset, all of which arrived, and
  a read of everything then stops precisely at the first byte that has not arrived. No read
  aborts, and the only error is a violated final size, which needs a buffer with \<open>eof\<close>.
\<close>

theorem reassembly_delivers_in_order:
  assumes "\<And>b. Receive_buffer b \<in> set vs \<Longrightarrow> holds c b"
  shows "case run_events crypto_step (newReadSide, []) vs of
      Inl e \<Rightarrow> e = Final_size_error \<and> (\<exists>b. Receive_buffer b \<in> set vs \<and> sb_eof b)
    | Inr (s, out) \<Rightarrow> out = map c [0..<currentReadOffset s] \<and> {..<currentReadOffset s} \<subseteq> received vs \<and>
        (\<exists>s' d. readDataFromCryptoStream 0 s = Inr (s', d) \<and> out @ d = map c [0..<currentReadOffset s'] \<and>
           {..<currentReadOffset s'} \<subseteq> received vs \<and> currentReadOffset s' \<notin> received vs)"
proof (cases "run_events crypto_step (newReadSide, []) vs")
  case (Inl e)
  then show ?thesis using crypto_run_ok [OF side_ok_new, of vs c] assms by (simp add: newReadSide_def)
next
  case (Inr so)
  obtain s out where so: "so = (s, out)" by (cases so)
  have ok: "side_ok c (received vs) s out"
    using crypto_run_ok [OF side_ok_new, of vs c] assms Inr so by simp
  obtain s' d where "readDataFromCryptoStream 0 s = Inr (s', d)" "side_ok c (received vs) s' (out @ d)"
    "currentReadOffset s' \<notin> received vs"
    using read_ok [OF ok, of 0] by auto
  then show ?thesis using ok unfolding side_ok_def by (simp add: Inr so)
qed

definition sample_stream :: "nat \<Rightarrow> u8" where
  "sample_stream k = of_nat (k * 3 + 1)"

definition sample_arrivals :: "side_event list" where
  "sample_arrivals =
     [Receive_buffer \<lparr>sb_data = [7, 10], sb_offset = 2, sb_eof = False\<rparr>,
      Receive_buffer \<lparr>sb_data = [1, 4], sb_offset = 0, sb_eof = False\<rparr>, Read_data 3]"

theorem reassembly_delivers_in_order_witness:
  "(case run_events crypto_step (newReadSide, []) sample_arrivals of
      Inl e \<Rightarrow> e = Final_size_error \<and> (\<exists>b. Receive_buffer b \<in> set sample_arrivals \<and> sb_eof b)
    | Inr (s, out) \<Rightarrow> out = map sample_stream [0..<currentReadOffset s] \<and>
        {..<currentReadOffset s} \<subseteq> received sample_arrivals \<and>
        (\<exists>s' d. readDataFromCryptoStream 0 s = Inr (s', d) \<and> out @ d = map sample_stream [0..<currentReadOffset s'] \<and>
           {..<currentReadOffset s'} \<subseteq> received sample_arrivals \<and> currentReadOffset s' \<notin> received sample_arrivals)) \<and>
   holds sample_stream \<lparr>sb_data = [7, 10], sb_offset = 2, sb_eof = False\<rparr> \<and>
   holds sample_stream \<lparr>sb_data = [1, 4], sb_offset = 0, sb_eof = False\<rparr>"
proof -
  have h: "holds sample_stream \<lparr>sb_data = [7, 10], sb_offset = 2, sb_eof = False\<rparr>"
    "holds sample_stream \<lparr>sb_data = [1, 4], sb_offset = 0, sb_eof = False\<rparr>" by code_simp+
  then show ?thesis
    using reassembly_delivers_in_order [of sample_arrivals sample_stream] by (auto simp: sample_arrivals_def)
qed

end
