(* ===== verification/Stream_Ids.thy ===== *)
theory Stream_Ids
  imports Interval_Set Stream_Reassembly
begin

text \<open>
  Stream identifiers: the classification of \<open>state/QuicStreamUtilities.cpp\<close> and the class
  \<open>StreamIdSet\<close> of \<open>state/QuicStreamManager.h\<close>, which keeps the identifiers of one type of
  stream in an \<open>IntervalSet\<close> of their indices.

  A \<open>StreamId\<close> is a \<open>uint64_t\<close>; it is a natural number here and the 64-bit wrap of a sum, a
  difference or a product is written out with \<open>add64\<close>, \<open>sub64\<close> and \<open>mul64\<close>. A failed
  \<open>CHECK\<close> aborts and is the result \<open>Stream_check_failure\<close>.
\<close>

definition add64 :: "nat \<Rightarrow> nat \<Rightarrow> nat" where
  "add64 a b = (a + b) mod 2 ^ 64"

definition sub64 :: "nat \<Rightarrow> nat \<Rightarrow> nat" where
  "sub64 a b = (a + 2 ^ 64 - b) mod 2 ^ 64"

definition mul64 :: "nat \<Rightarrow> nat \<Rightarrow> nat" where
  "mul64 a b = (a * b) mod 2 ^ 64"

lemma add64_eq: "a + b < 2 ^ 64 \<Longrightarrow> add64 a b = a + b"
  by (simp add: add64_def)

lemma sub64_eq: "b \<le> a \<Longrightarrow> a < 2 ^ 64 \<Longrightarrow> sub64 a b = a - b"
  unfolding sub64_def by (metis Nat.add_diff_assoc2 less_imp_diff_less mod_add_self2 mod_less)

lemma mul64_eq: "a * b < 2 ^ 64 \<Longrightarrow> mul64 a b = a * b"
  by (simp add: mul64_def)

section \<open>Classification\<close>

datatype node_type = Client | Server

datatype stream_initiator = Local | Remote

datatype stream_directionality = Unidirectional | Bidirectional

definition isServerStream :: "nat \<Rightarrow> bool" where
  "isServerStream stream \<longleftrightarrow> stream mod 2 \<noteq> 0"

definition isClientStream :: "nat \<Rightarrow> bool" where
  "isClientStream stream \<longleftrightarrow> stream mod 2 = 0"

definition isClientStreamGroup :: "nat \<Rightarrow> bool" where
  "isClientStreamGroup g \<longleftrightarrow> g mod 2 = 0"

definition isServerStreamGroup :: "nat \<Rightarrow> bool" where
  "isServerStreamGroup g \<longleftrightarrow> g mod 2 \<noteq> 0"

definition isUnidirectionalStream :: "nat \<Rightarrow> bool" where
  "isUnidirectionalStream stream \<longleftrightarrow> stream div 2 mod 2 \<noteq> 0"

definition isBidirectionalStream :: "nat \<Rightarrow> bool" where
  "isBidirectionalStream stream \<longleftrightarrow> \<not> isUnidirectionalStream stream"

definition isClientBidirectionalStream :: "nat \<Rightarrow> bool" where
  "isClientBidirectionalStream s \<longleftrightarrow> isClientStream s \<and> isBidirectionalStream s"

definition isServerUnidirectionalStream :: "nat \<Rightarrow> bool" where
  "isServerUnidirectionalStream s \<longleftrightarrow> isServerStream s \<and> isUnidirectionalStream s"

definition getStreamDirectionality :: "nat \<Rightarrow> stream_directionality" where
  "getStreamDirectionality s = (if isUnidirectionalStream s then Unidirectional else Bidirectional)"

definition isSendingStream :: "node_type \<Rightarrow> nat \<Rightarrow> bool" where
  "isSendingStream node s \<longleftrightarrow>
     isUnidirectionalStream s \<and> (node = Client \<and> isClientStream s \<or> node = Server \<and> isServerStream s)"

definition isReceivingStream :: "node_type \<Rightarrow> nat \<Rightarrow> bool" where
  "isReceivingStream node s \<longleftrightarrow>
     isUnidirectionalStream s \<and> (node = Client \<and> isServerStream s \<or> node = Server \<and> isClientStream s)"

definition isLocalStream :: "node_type \<Rightarrow> nat \<Rightarrow> bool" where
  "isLocalStream node s \<longleftrightarrow> node = Client \<and> isClientStream s \<or> node = Server \<and> isServerStream s"

definition isRemoteStream :: "node_type \<Rightarrow> nat \<Rightarrow> bool" where
  "isRemoteStream node s \<longleftrightarrow> node = Client \<and> isServerStream s \<or> node = Server \<and> isClientStream s"

definition getStreamInitiator :: "node_type \<Rightarrow> nat \<Rightarrow> stream_initiator" where
  "getStreamInitiator node s = (if isLocalStream node s then Local else Remote)"

fun other_node :: "node_type \<Rightarrow> node_type" where
  "other_node Client = Server"
| "other_node Server = Client"

lemmas stream_kinds = isServerStream_def isClientStream_def isUnidirectionalStream_def isBidirectionalStream_def
  isSendingStream_def isReceivingStream_def isLocalStream_def isRemoteStream_def

text \<open>Both ends classify a stream consistently.\<close>

lemma isRemoteStream_iff: "isRemoteStream node s \<longleftrightarrow> \<not> isLocalStream node s"
  by (cases node) (simp_all add: stream_kinds)

lemma other_end:
  "isLocalStream (other_node node) s \<longleftrightarrow> isRemoteStream node s"
  "isSendingStream (other_node node) s \<longleftrightarrow> isReceivingStream node s"
  by (cases node; simp add: stream_kinds)+

section \<open>Sets of identifiers\<close>

definition kStreamIncrement :: nat where
  "kStreamIncrement = 4"

record stream_id_set =
  ss_streams :: interval_set
  ss_base :: nat

definition newStreamIdSet :: "nat \<Rightarrow> stream_id_set" where
  "newStreamIdSet b = \<lparr>ss_streams = emptyIntervalSet, ss_base = b mod 256\<rparr>"

definition ss_add_range :: "nat \<Rightarrow> nat \<Rightarrow> stream_id_set \<Rightarrow> stream_error + stream_id_set" where
  "ss_add_range lo hi s =
     (let first1 = sub64 lo (ss_base s); last1 = sub64 hi (ss_base s)
      in if first1 mod kStreamIncrement \<noteq> 0 \<or> last1 mod kStreamIncrement \<noteq> 0 then Inl Stream_check_failure
         else case insertRange (first1 div kStreamIncrement) (last1 div kStreamIncrement) (ss_streams s) of
                Inl e \<Rightarrow> Inl Stream_invalid_argument
              | Inr is \<Rightarrow> Inr (s\<lparr>ss_streams := is\<rparr>))"

definition ss_add :: "nat \<Rightarrow> stream_id_set \<Rightarrow> stream_error + stream_id_set" where
  "ss_add sid s = ss_add_range sid sid s"

definition ss_remove :: "nat \<Rightarrow> stream_id_set \<Rightarrow> stream_error + stream_id_set" where
  "ss_remove sid s =
     (let id1 = sub64 sid (ss_base s)
      in if id1 mod kStreamIncrement \<noteq> 0 then Inl Stream_check_failure
         else case newInterval (id1 div kStreamIncrement) (id1 div kStreamIncrement) of
                Inl e \<Rightarrow> Inl Stream_invalid_argument
              | Inr i \<Rightarrow> Inr (s\<lparr>ss_streams := withdraw i (ss_streams s)\<rparr>))"

definition ss_contains :: "nat \<Rightarrow> stream_id_set \<Rightarrow> bool" where
  "ss_contains sid s =
     (let id1 = sub64 sid (ss_base s) div kStreamIncrement in contains id1 id1 (ss_streams s))"

definition ss_size :: "stream_id_set \<Rightarrow> nat" where
  "ss_size s = fold (\<lambda>i ret. add64 ret (iv_end i - iv_start i + 1)) (is_intervals (ss_streams s)) 0"

definition ss_clear :: "stream_id_set \<Rightarrow> stream_id_set" where
  "ss_clear s = s\<lparr>ss_streams := (ss_streams s)\<lparr>is_intervals := []\<rparr>\<rparr>"

text \<open>The identifiers a set stands for.\<close>

definition ss_ids :: "stream_id_set \<Rightarrow> nat set" where
  "ss_ids s = (\<lambda>k. ss_base s + kStreamIncrement * k) ` points (is_intervals (ss_streams s))"

definition ss_inv :: "stream_id_set \<Rightarrow> bool" where
  "ss_inv s \<longleftrightarrow> iset_inv (is_intervals (ss_streams s)) \<and> ss_base s < kStreamIncrement"

text \<open>Identifiers of the set's type, as they occur on the wire: below \<open>2 ^ 62\<close>.\<close>

definition ss_typed :: "stream_id_set \<Rightarrow> nat \<Rightarrow> bool" where
  "ss_typed s sid \<longleftrightarrow> sid mod kStreamIncrement = ss_base s \<and> sid < 2 ^ 63"

lemma ss_index:
  assumes "ss_typed s sid" and "ss_inv s"
  shows "sub64 sid (ss_base s) = kStreamIncrement * (sid div kStreamIncrement)"
    and "sid = ss_base s + kStreamIncrement * (sid div kStreamIncrement)"
proof -
  have "ss_base s \<le> sid" "sid < 2 ^ 64"
    using assms(1) mod_less_eq_dividend [of sid kStreamIncrement] by (simp_all add: ss_typed_def)
  then show "sub64 sid (ss_base s) = kStreamIncrement * (sid div kStreamIncrement)"
    using assms(1) minus_mod_eq_mult_div [of sid kStreamIncrement] by (simp add: sub64_eq ss_typed_def)
  show "sid = ss_base s + kStreamIncrement * (sid div kStreamIncrement)"
    using assms by (metis mod_mult_div_eq ss_typed_def)
qed

lemma kStreamIncrement_pos [simp]: "0 < kStreamIncrement"
  by (simp add: kStreamIncrement_def)

lemma ss_ids_iff:
  assumes "ss_typed s sid" and "ss_inv s"
  shows "sid \<in> ss_ids s \<longleftrightarrow> sid div kStreamIncrement \<in> points (is_intervals (ss_streams s))"
proof
  assume "sid \<in> ss_ids s"
  then obtain k where "k \<in> points (is_intervals (ss_streams s))" "sid = ss_base s + kStreamIncrement * k"
    by (auto simp: ss_ids_def)
  moreover from this have "sid div kStreamIncrement = k" using assms(2) by (simp add: ss_inv_def)
  ultimately show "sid div kStreamIncrement \<in> points (is_intervals (ss_streams s))" by simp
next
  assume "sid div kStreamIncrement \<in> points (is_intervals (ss_streams s))"
  then show "sid \<in> ss_ids s" using ss_index(2) [OF assms] by (auto simp: ss_ids_def)
qed

lemma ss_contains_iff:
  assumes "ss_typed s sid" and "ss_inv s"
  shows "ss_contains sid s \<longleftrightarrow> sid \<in> ss_ids s"
  using assms iset.has_iff [of "ss_streams s" "sid div kStreamIncrement" "sid div kStreamIncrement"]
  by (simp add: ss_contains_def ss_index ss_ids_iff ss_inv_def)

lemma typed_index_bound: "ss_typed s sid \<Longrightarrow> sid div kStreamIncrement \<le> 2 ^ 64 - 2"
  unfolding ss_typed_def
  by (rule order.trans [OF div_le_dividend]) simp

lemma ss_add_range_ok:
  assumes inv: "ss_inv s" and t: "ss_typed s lo" "ss_typed s hi" and "lo \<le> hi"
  shows "\<exists>s'. ss_add_range lo hi s = Inr s' \<and> ss_inv s' \<and> ss_base s' = ss_base s \<and>
    ss_ids s' = ss_ids s \<union> {i. lo \<le> i \<and> i \<le> hi \<and> i mod kStreamIncrement = ss_base s}"
proof -
  define l h where "l = lo div kStreamIncrement" and "h = hi div kStreamIncrement"
  define i where "i = \<lparr>iv_start = l, iv_end = h\<rparr>"
  have lh: "l \<le> h" using assms(4) by (simp add: l_def h_def div_le_mono)
  have ok: "iv_ok i" using lh typed_index_bound [OF t(2)] by (simp add: iv_ok_def i_def h_def)
  have ins: "insertRange l h (ss_streams s) = Inr (insertInterval i (ss_streams s))"
    using lh ok newInterval_ok [of l h i] by (simp add: insertRange_def i_def)
  let ?s = "s\<lparr>ss_streams := insertInterval i (ss_streams s)\<rparr>"
  have iset: "iset_inv (is_intervals (ss_streams s))" using inv by (simp add: ss_inv_def)
  note m = insertInterval_correct [OF iset ok]
  have "(\<lambda>k. ss_base s + kStreamIncrement * k) ` iv_points i =
      {j. lo \<le> j \<and> j \<le> hi \<and> j mod kStreamIncrement = ss_base s}" (is "?A = ?B")
  proof (intro equalityI subsetI)
    fix j assume "j \<in> ?A"
    then obtain k where k: "l \<le> k" "k \<le> h" "j = ss_base s + kStreamIncrement * k"
      by (auto simp: iv_points_def i_def)
    have "lo \<le> j" "j \<le> hi"
      using ss_index(2) [OF t(1) inv] ss_index(2) [OF t(2) inv] k mult_le_mono2 [OF k(1), of kStreamIncrement]
        mult_le_mono2 [OF k(2), of kStreamIncrement] unfolding l_def h_def by linarith+
    then show "j \<in> ?B" using k(3) inv by (simp add: ss_inv_def)
  next
    fix j assume "j \<in> ?B"
    then have "l \<le> j div kStreamIncrement" "j div kStreamIncrement \<le> h"
        "j = ss_base s + kStreamIncrement * (j div kStreamIncrement)"
      using mod_mult_div_eq [of j kStreamIncrement] by (auto simp: l_def h_def div_le_mono)
    then show "j \<in> ?A" by (auto simp: iv_points_def i_def)
  qed
  then have "ss_ids ?s = ss_ids s \<union> ?B" using m by (simp add: ss_ids_def image_Un)
  moreover have "ss_inv ?s" using m inv by (simp add: ss_inv_def)
  moreover have "ss_add_range lo hi s = Inr ?s"
    unfolding ss_add_range_def ss_index(1) [OF t(1) inv] ss_index(1) [OF t(2) inv]
    using ins by (simp add: l_def h_def Let_def)
  ultimately show ?thesis by auto
qed

lemma ss_remove_ok:
  assumes inv: "ss_inv s" and t: "ss_typed s sid"
  shows "\<exists>s'. ss_remove sid s = Inr s' \<and> ss_inv s' \<and> ss_base s' = ss_base s \<and> ss_ids s' = ss_ids s - {sid}"
proof -
  define k where "k = sid div kStreamIncrement"
  define i where "i = \<lparr>iv_start = k, iv_end = k\<rparr>"
  have ok: "iv_ok i" using typed_index_bound [OF t] by (simp add: iv_ok_def i_def k_def)
  let ?s = "s\<lparr>ss_streams := withdraw i (ss_streams s)\<rparr>"
  have iset: "iset_inv (is_intervals (ss_streams s))" using inv by (simp add: ss_inv_def)
  note m = withdraw_correct [OF iset ok]
  have "inj (\<lambda>k. ss_base s + kStreamIncrement * k)" by (auto intro!: injI simp: kStreamIncrement_def)
  then have "ss_ids ?s = ss_ids s - (\<lambda>k. ss_base s + kStreamIncrement * k) ` iv_points i"
    using m by (simp add: ss_ids_def image_set_diff)
  also have "(\<lambda>k. ss_base s + kStreamIncrement * k) ` iv_points i = {sid}"
    using ss_index(2) [OF t inv] by (auto simp: iv_points_def i_def k_def)
  finally have "ss_ids ?s = ss_ids s - {sid}" .
  moreover have "ss_inv ?s" using m inv by (simp add: ss_inv_def)
  moreover have "ss_remove sid s = Inr ?s"
    using ok newInterval_ok [of k k i] unfolding ss_remove_def ss_index(1) [OF t inv]
    by (simp add: k_def i_def Let_def)
  ultimately show ?thesis by auto
qed

lemma ss_size_fold:
  assumes "iset_inv xs" and "n < 2 ^ 64"
  shows "fold (\<lambda>i ret. add64 ret (iv_end i - iv_start i + 1)) xs n = (n + card (points xs)) mod 2 ^ 64"
  using assms
proof (induction xs arbitrary: n)
  case Nil
  then show ?case by simp
next
  case (Cons x xs)
  have x: "iv_ok x" "iset_inv xs" "\<forall>y \<in> set xs. iv_end x + 1 < iv_start y"
    using Cons.prems(1) by (simp_all add: iset_inv_Cons)
  have "iv_points x \<inter> points xs = {}" using x(3) by (fastforce simp: iv_points_def points_def)
  moreover have "finite (points xs)" by (simp add: points_def iv_points_def)
  ultimately have "card (points (x # xs)) = iv_end x - iv_start x + 1 + card (points xs)"
    using x(1) by (simp add: card_Un_disjoint iv_points_def iv_ok_def Suc_diff_le)
  moreover have "add64 n k < 2 ^ 64" "(add64 n k + c) mod 2 ^ 64 = (n + (k + c)) mod 2 ^ 64" for k c
    by (simp_all add: add64_def mod_simps add.assoc)
  ultimately show ?case using Cons.IH [OF x(2)] by simp
qed

lemma ss_size_card:
  assumes "ss_inv s" shows "ss_size s = card (ss_ids s)"
proof -
  let ?xs = "is_intervals (ss_streams s)"
  have "points ?xs \<subseteq> {..<2 ^ 64 - 1}"
    using assms by (fastforce simp: ss_inv_def iset_inv_def iv_ok_def points_def iv_points_def)
  then have "card (points ?xs) \<le> card {..<(2 ^ 64 - 1 :: nat)}" by (intro card_mono) simp_all
  then have "card (points ?xs) < 2 ^ 64" by simp
  moreover have "card (ss_ids s) = card (points ?xs)"
    unfolding ss_ids_def by (intro card_image) (auto intro!: inj_onI simp: kStreamIncrement_def)
  ultimately show ?thesis
    using ss_size_fold [of ?xs 0] assms by (simp add: ss_size_def ss_inv_def)
qed

lemma ss_new [simp]: "b < kStreamIncrement \<Longrightarrow> ss_inv (newStreamIdSet b)" "ss_ids (newStreamIdSet b) = {}"
    "b < kStreamIncrement \<Longrightarrow> ss_base (newStreamIdSet b) = b"
  by (simp_all add: newStreamIdSet_def ss_inv_def ss_ids_def emptyIntervalSet_def iset_inv_def kStreamIncrement_def)

end
