(* ===== verification/Priority_Queue.thy ===== *)
theory Priority_Queue
  imports Stream_Ids "HOL-Library.Mapping"
begin

text \<open>
  The write queue of a connection: \<open>state/QuicPriorityQueue.h\<close>. Sixteen levels, a
  sequential and an incremental one for each urgency, hold streams ordered by order id and
  stream id; a map records the level of every queued stream.

  A \<open>std::set\<close> is its sorted list, an iterator into it the element it points to, and
  \<open>end()\<close> is \<open>None\<close>. Advancing or dereferencing \<open>end()\<close> is undefined behaviour
  (\<open>Queue_undefined\<close>), a failed \<open>CHECK\<close> aborts (\<open>Queue_check_failure\<close>), \<open>LOG(DFATAL)\<close> logs
  and goes on. The virtual methods of the two iterators are cases on \<open>incremental\<close>, which the
  constructor sets together with them.
\<close>

section \<open>Ordered streams\<close>

datatype ordered_stream = OrderedStream (os_streamId: nat) (os_orderId: nat)

lemma ordered_stream_eq: "x = y \<longleftrightarrow> os_streamId x = os_streamId y \<and> os_orderId x = os_orderId y"
  by (cases x; cases y) auto

instantiation ordered_stream :: linorder
begin

definition less_ordered_stream :: "ordered_stream \<Rightarrow> ordered_stream \<Rightarrow> bool" where
  "lhs < rhs \<longleftrightarrow>
     (if os_orderId lhs = os_orderId rhs then os_streamId lhs < os_streamId rhs
      else os_orderId lhs < os_orderId rhs)"

definition less_eq_ordered_stream :: "ordered_stream \<Rightarrow> ordered_stream \<Rightarrow> bool" where
  "lhs \<le> rhs \<longleftrightarrow> lhs < rhs \<or> lhs = (rhs :: ordered_stream)"

instance
  by standard
    (auto simp: less_ordered_stream_def less_eq_ordered_stream_def ordered_stream_eq split: if_splits)

end

section \<open>Levels and their iterators\<close>

record priority =
  pr_level :: nat
  pr_incremental :: bool
  pr_orderId :: nat

text \<open>The bit fields of \<open>Priority\<close> keep 3 and 58 bits.\<close>

definition newPriority :: "nat \<Rightarrow> bool \<Rightarrow> nat \<Rightarrow> priority" where
  "newPriority l i ord = \<lparr>pr_level = l mod 2 ^ 3, pr_incremental = i, pr_orderId = ord mod 2 ^ 58\<rparr>"

definition kDefaultPriority :: priority where
  "kDefaultPriority = newPriority 3 True 0"

datatype queue_error = Queue_check_failure | Queue_undefined

record level =
  lv_streams :: "ordered_stream list"
  lv_incremental :: bool
  lv_nextsSoFar :: nat
  lv_maxNextsPerStream :: nat
  lv_nextStreamIt :: "ordered_stream option"
  lv_startStreamIt :: "ordered_stream option"
  lv_streamToOrderId :: "(nat, nat) mapping"

fun set_begin :: "ordered_stream list \<Rightarrow> ordered_stream option" where
  "set_begin [] = None"
| "set_begin (x # xs) = Some x"

definition set_next :: "ordered_stream \<Rightarrow> ordered_stream list \<Rightarrow> ordered_stream option" where
  "set_next x xs = find (\<lambda>y. x < y) xs"

definition lv_begin :: "level \<Rightarrow> level" where
  "lv_begin l =
     (if lv_incremental l
      then let it = (case lv_nextStreamIt l of None \<Rightarrow> set_begin (lv_streams l) | Some s \<Rightarrow> Some s)
           in l\<lparr>lv_nextStreamIt := it, lv_startStreamIt := it\<rparr>
      else l\<lparr>lv_nextStreamIt := set_begin (lv_streams l)\<rparr>)"

definition lv_end :: "level \<Rightarrow> bool" where
  "lv_end l = (if lv_incremental l then lv_nextStreamIt l = lv_startStreamIt l else lv_nextStreamIt l = None)"

definition lv_current :: "level \<Rightarrow> queue_error + nat" where
  "lv_current l = (case lv_nextStreamIt l of None \<Rightarrow> Inl Queue_undefined | Some s \<Rightarrow> Inr (os_streamId s))"

definition lv_next :: "bool \<Rightarrow> level \<Rightarrow> queue_error + level" where
  "lv_next force l =
     (if lv_streams l = [] then Inl Queue_check_failure
      else if lv_incremental l \<and> \<not> force \<and> add64 (lv_nextsSoFar l) 1 < lv_maxNextsPerStream l
      then Inr (l\<lparr>lv_nextsSoFar := add64 (lv_nextsSoFar l) 1\<rparr>)
      else case lv_nextStreamIt l of
             None \<Rightarrow> Inl Queue_undefined
           | Some s \<Rightarrow>
               let it = set_next s (lv_streams l)
               in if lv_incremental l
                  then Inr (l\<lparr>lv_nextStreamIt := (if it = None then set_begin (lv_streams l) else it),
                              lv_nextsSoFar := 0\<rparr>)
                  else Inr (l\<lparr>lv_nextStreamIt := it\<rparr>))"

definition lv_override :: "ordered_stream option \<Rightarrow> level \<Rightarrow> level" where
  "lv_override it l = l\<lparr>lv_nextStreamIt := it\<rparr>"

definition getOrderedStream :: "nat \<Rightarrow> level \<Rightarrow> ordered_stream" where
  "getOrderedStream sid l =
     (case Mapping.lookup (lv_streamToOrderId l) sid of
        None \<Rightarrow> OrderedStream sid 0
      | Some ord \<Rightarrow> OrderedStream sid ord)"

definition lv_insert :: "nat \<Rightarrow> nat \<Rightarrow> level \<Rightarrow> level" where
  "lv_insert sid ord l =
     (let l1 = (if ord > 0 then l\<lparr>lv_streamToOrderId := Mapping.update sid ord (lv_streamToOrderId l)\<rparr> else l)
      in l1\<lparr>lv_streams := insort_insert (OrderedStream sid ord) (lv_streams l1)\<rparr>)"

section \<open>The queue\<close>

definition kDefaultMaxPriority :: nat where
  "kDefaultMaxPriority = 7"

definition kDefaultPriorityLevels :: nat where
  "kDefaultPriorityLevels = kDefaultMaxPriority + 1"

definition kDefaultPriorityLevelsSize :: nat where
  "kDefaultPriorityLevelsSize = 2 * kDefaultPriorityLevels"

record priority_queue =
  pq_levels :: "level list"
  pq_maxNextsPerStream :: nat
  writableStreamsToLevel :: "(nat, nat) mapping"

definition newLevel :: "nat \<Rightarrow> level" where
  "newLevel index =
     \<lparr>lv_streams = [], lv_incremental = (index mod 2 = 1), lv_nextsSoFar = 0, lv_maxNextsPerStream = 1,
      lv_nextStreamIt = None, lv_startStreamIt = None, lv_streamToOrderId = Mapping.empty\<rparr>"

definition newPriorityQueue :: priority_queue where
  "newPriorityQueue =
     \<lparr>pq_levels = map newLevel [0..<kDefaultPriorityLevelsSize], pq_maxNextsPerStream = 1,
      writableStreamsToLevel = Mapping.empty\<rparr>"

definition setMaxNextsPerStream :: "nat \<Rightarrow> priority_queue \<Rightarrow> priority_queue" where
  "setMaxNextsPerStream maxNexts q =
     q\<lparr>pq_maxNextsPerStream := maxNexts,
       pq_levels := map (\<lambda>l. l\<lparr>lv_maxNextsPerStream := maxNexts\<rparr>) (pq_levels q)\<rparr>"

definition priority2index :: "priority \<Rightarrow> nat" where
  "priority2index pri = pr_level pri * 2 + of_bool (pr_incremental pri)"

definition set_level :: "nat \<Rightarrow> level \<Rightarrow> priority_queue \<Rightarrow> priority_queue" where
  "set_level i l q = q\<lparr>pq_levels := (pq_levels q)[i := l]\<rparr>"

definition eraseFromLevel :: "nat \<Rightarrow> nat \<Rightarrow> priority_queue \<Rightarrow> priority_queue" where
  "eraseFromLevel levelIndex sid q =
     (let l = pq_levels q ! levelIndex;
          s = getOrderedStream sid l
      in if s \<notin> set (lv_streams l) then q
         else if lv_nextStreamIt l = Some s
         then set_level levelIndex
                (l\<lparr>lv_nextStreamIt := set_next s (lv_streams l), lv_streams := remove1 s (lv_streams l),
                   lv_nextsSoFar := 0\<rparr>) q
         else set_level levelIndex (l\<lparr>lv_streams := remove1 s (lv_streams l)\<rparr>) q)"

definition insertIntoLevel :: "nat \<Rightarrow> nat \<Rightarrow> nat \<Rightarrow> priority_queue \<Rightarrow> priority_queue" where
  "insertIntoLevel index sid ord q = set_level index (lv_insert sid ord (pq_levels q ! index)) q"

definition updateExistingStreamPriority :: "nat \<Rightarrow> nat \<Rightarrow> priority \<Rightarrow> priority_queue \<Rightarrow> priority_queue" where
  "updateExistingStreamPriority sid oldIndex pri q =
     (let index = priority2index pri
      in if oldIndex = index then q
         else let q1 = eraseFromLevel oldIndex sid q;
                  q2 = q1\<lparr>writableStreamsToLevel := Mapping.update sid index (writableStreamsToLevel q1)\<rparr>
              in insertIntoLevel index sid (pr_orderId pri) q2)"

definition updateIfExist :: "nat \<Rightarrow> priority \<Rightarrow> priority_queue \<Rightarrow> priority_queue" where
  "updateIfExist sid pri q =
     (case Mapping.lookup (writableStreamsToLevel q) sid of
        None \<Rightarrow> q
      | Some i \<Rightarrow> updateExistingStreamPriority sid i pri q)"

definition insertOrUpdate :: "nat \<Rightarrow> priority \<Rightarrow> priority_queue \<Rightarrow> priority_queue" where
  "insertOrUpdate sid pri q =
     (case Mapping.lookup (writableStreamsToLevel q) sid of
        Some i \<Rightarrow> updateExistingStreamPriority sid i pri q
      | None \<Rightarrow>
          let index = priority2index pri
          in insertIntoLevel index sid (pr_orderId pri)
               (q\<lparr>writableStreamsToLevel := Mapping.update sid index (writableStreamsToLevel q)\<rparr>))"

definition pq_erase :: "nat \<Rightarrow> priority_queue \<Rightarrow> priority_queue" where
  "pq_erase sid q =
     (case Mapping.lookup (writableStreamsToLevel q) sid of
        None \<Rightarrow> q
      | Some i \<Rightarrow>
          let q1 = eraseFromLevel i sid q
          in q1\<lparr>writableStreamsToLevel := Mapping.delete sid (writableStreamsToLevel q1)\<rparr>)"

definition pq_clear :: "priority_queue \<Rightarrow> priority_queue" where
  "pq_clear q =
     q\<lparr>writableStreamsToLevel := Mapping.empty,
       pq_levels := map (\<lambda>l. l\<lparr>lv_streams := [], lv_nextStreamIt := None\<rparr>) (pq_levels q)\<rparr>"

definition pq_count :: "nat \<Rightarrow> priority_queue \<Rightarrow> nat" where
  "pq_count sid q = (if Mapping.lookup (writableStreamsToLevel q) sid = None then 0 else 1)"

definition pq_empty :: "priority_queue \<Rightarrow> bool" where
  "pq_empty q = Mapping.is_empty (writableStreamsToLevel q)"

definition setNextScheduledStream :: "nat \<Rightarrow> priority_queue \<Rightarrow> queue_error + priority_queue" where
  "setNextScheduledStream sid q =
     (case Mapping.lookup (writableStreamsToLevel q) sid of
        None \<Rightarrow> Inl Queue_check_failure
      | Some i \<Rightarrow>
          let l = pq_levels q ! i; s = getOrderedStream sid l
          in if s \<notin> set (lv_streams l) then Inl Queue_check_failure
             else Inr (set_level i (lv_override (Some s) l) q))"

definition prepareIterator :: "priority \<Rightarrow> priority_queue \<Rightarrow> priority_queue" where
  "prepareIterator pri q = set_level (priority2index pri) (lv_begin (pq_levels q ! priority2index pri)) q"

definition getNextScheduledStreamAt :: "priority \<Rightarrow> priority_queue \<Rightarrow> queue_error + nat" where
  "getNextScheduledStreamAt pri q =
     (let l = pq_levels q ! priority2index pri
      in if \<not> lv_incremental l \<or> lv_nextStreamIt l = None
         then (case lv_streams l of [] \<Rightarrow> Inl Queue_check_failure | s # _ \<Rightarrow> Inr (os_streamId s))
         else lv_current l)"

text \<open>\<open>begin\<close> is \<open>const\<close> on mutable members: the queue changes too.\<close>

definition getNextScheduledStream :: "priority_queue \<Rightarrow> queue_error + nat \<times> priority_queue" where
  "getNextScheduledStream q =
     (let i = length (takeWhile (\<lambda>l. lv_streams l = []) (pq_levels q))
      in if i = length (pq_levels q) then Inl Queue_check_failure
         else let l = lv_begin (pq_levels q ! i)
              in bind_result (lv_current l) (\<lambda>sid. Inr (sid, set_level i l q)))"

section \<open>Invariant\<close>

text \<open>
  A level holds exactly the streams the map sends to it, under the order id on record. The
  record of a stream that has left the level stays, so the invariant holds for queues in
  which a stream either always or never (\<open>ordered\<close>) comes with an order id.
\<close>

definition lv_ok :: "(nat \<Rightarrow> bool) \<Rightarrow> level \<Rightarrow> nat set \<Rightarrow> bool" where
  "lv_ok ordered l ids \<longleftrightarrow>
     sorted (lv_streams l) \<and> distinct (lv_streams l) \<and>
     set (lv_streams l) = (\<lambda>sid. getOrderedStream sid l) ` ids \<and>
     (\<forall>sid. Mapping.lookup (lv_streamToOrderId l) sid \<noteq> None \<longrightarrow> ordered sid) \<and>
     (\<forall>s. lv_nextStreamIt l = Some s \<longrightarrow> s \<in> set (lv_streams l))"

definition pq_abs :: "priority_queue \<Rightarrow> nat \<Rightarrow> nat option" where
  "pq_abs q = Mapping.lookup (writableStreamsToLevel q)"

definition pq_inv :: "(nat \<Rightarrow> bool) \<Rightarrow> priority_queue \<Rightarrow> bool" where
  "pq_inv ordered q \<longleftrightarrow>
     length (pq_levels q) = kDefaultPriorityLevelsSize \<and>
     (\<forall>sid i. pq_abs q sid = Some i \<longrightarrow> i < kDefaultPriorityLevelsSize) \<and>
     (\<forall>i < kDefaultPriorityLevelsSize. lv_ok ordered (pq_levels q ! i) {sid. pq_abs q sid = Some i})"

text \<open>A priority the levels provide for, with an order id exactly for the ordered streams.\<close>

definition pq_valid :: "(nat \<Rightarrow> bool) \<Rightarrow> nat \<Rightarrow> priority \<Rightarrow> bool" where
  "pq_valid ordered sid pri \<longleftrightarrow> pr_level pri \<le> kDefaultMaxPriority \<and> (pr_orderId pri > 0) = ordered sid"

lemma mapping_lookup_delete: "Mapping.lookup (Mapping.delete k m) x = (if x = k then None else Mapping.lookup m x)"
  by (cases "x = k") (simp_all add: lookup_delete lookup_delete_neq)

lemma os_streamId_getOrderedStream [simp]: "os_streamId (getOrderedStream sid l) = sid"
  by (simp add: getOrderedStream_def split: option.split)

lemma getOrderedStream_eq_iff [simp]: "getOrderedStream a l = getOrderedStream b l \<longleftrightarrow> a = b"
  by (metis os_streamId_getOrderedStream)

lemma priority2index_less: "pr_level pri \<le> kDefaultMaxPriority \<Longrightarrow> priority2index pri < kDefaultPriorityLevelsSize"
  by (simp add: priority2index_def kDefaultPriorityLevelsSize_def kDefaultPriorityLevels_def)

lemma lv_insert_ok:
  assumes ok: "lv_ok ordered l ids" and new: "sid \<notin> ids" and ord: "(ord > 0) = ordered sid"
  shows "lv_ok ordered (lv_insert sid ord l) (insert sid ids)"
proof -
  let ?l = "lv_insert sid ord l"
  have look: "ord > 0 \<or> Mapping.lookup (lv_streamToOrderId l) sid = None"
    using ok ord by (auto simp: lv_ok_def)
  have old: "getOrderedStream k ?l = getOrderedStream k l" if "k \<noteq> sid" for k
    using that by (simp add: getOrderedStream_def lv_insert_def Let_def lookup_update_neq)
  have self: "getOrderedStream sid ?l = OrderedStream sid ord"
    using look by (auto simp: getOrderedStream_def lv_insert_def Let_def lookup_update)
  have "set (lv_streams ?l) = insert (OrderedStream sid ord) (set (lv_streams l))"
    by (simp add: lv_insert_def Let_def set_insort_insert)
  also have "set (lv_streams l) = (\<lambda>k. getOrderedStream k l) ` ids" using ok by (simp add: lv_ok_def)
  also have "\<dots> = (\<lambda>k. getOrderedStream k ?l) ` ids" using new by (intro image_cong refl old [symmetric]) blast
  also have "insert (OrderedStream sid ord) \<dots> = (\<lambda>k. getOrderedStream k ?l) ` insert sid ids"
    using self by simp
  finally have set: "set (lv_streams ?l) = (\<lambda>k. getOrderedStream k ?l) ` insert sid ids" .
  have "\<forall>k. Mapping.lookup (lv_streamToOrderId ?l) k \<noteq> None \<longrightarrow> ordered k"
    using ok ord by (auto simp: lv_ok_def lv_insert_def Let_def lookup_update')
  moreover have "sorted (lv_streams ?l)" "distinct (lv_streams ?l)"
    using ok by (auto simp: lv_ok_def lv_insert_def Let_def distinct_insort sorted_insort insort_insert_key_def)
  moreover have "\<forall>s. lv_nextStreamIt ?l = Some s \<longrightarrow> s \<in> set (lv_streams ?l)"
    using ok by (auto simp: lv_ok_def lv_insert_def Let_def set_insort_insert)
  ultimately show ?thesis using set by (simp add: lv_ok_def)
qed

lemma set_next_in: "set_next s xs = Some t \<Longrightarrow> t \<in> set xs \<and> s < t"
  by (auto simp: set_next_def find_Some_iff in_set_conv_nth)

text \<open>The level part of \<open>eraseFromLevel\<close>.\<close>

definition lv_drop :: "nat \<Rightarrow> level \<Rightarrow> level" where
  "lv_drop sid l =
     (let s = getOrderedStream sid l
      in if lv_nextStreamIt l = Some s
         then l\<lparr>lv_nextStreamIt := set_next s (lv_streams l), lv_streams := remove1 s (lv_streams l), lv_nextsSoFar := 0\<rparr>
         else l\<lparr>lv_streams := remove1 s (lv_streams l)\<rparr>)"

lemma lv_drop_ok:
  assumes ok: "lv_ok ordered l ids"
  shows "lv_ok ordered (lv_drop sid l) (ids - {sid})"
proof -
  let ?s = "getOrderedStream sid l"
  have same: "getOrderedStream k (lv_drop sid l) = getOrderedStream k l" for k
    by (simp add: lv_drop_def getOrderedStream_def Let_def)
  have "set (lv_streams (lv_drop sid l)) = set (lv_streams l) - {?s}"
    using ok by (auto simp: lv_drop_def Let_def lv_ok_def)
  also have "\<dots> = (\<lambda>k. getOrderedStream k (lv_drop sid l)) ` (ids - {sid})"
    using ok unfolding same by (auto simp: lv_ok_def)
  finally have set: "set (lv_streams (lv_drop sid l)) = (\<lambda>k. getOrderedStream k (lv_drop sid l)) ` (ids - {sid})" .
  moreover have "sorted (lv_streams (lv_drop sid l))" "distinct (lv_streams (lv_drop sid l))"
    using ok by (simp_all add: lv_drop_def Let_def lv_ok_def sorted_remove1)
  moreover have "t \<in> set (lv_streams (lv_drop sid l))" if t: "lv_nextStreamIt (lv_drop sid l) = Some t" for t
  proof -
    have "t \<in> set (lv_streams l) \<and> t \<noteq> ?s"
    proof (cases "lv_nextStreamIt l = Some ?s")
      case True
      then have "set_next ?s (lv_streams l) = Some t" using t by (simp add: lv_drop_def Let_def)
      then show ?thesis using set_next_in by blast
    next
      case False
      then show ?thesis using t ok by (auto simp: lv_drop_def Let_def lv_ok_def)
    qed
    then show ?thesis using ok by (simp add: lv_drop_def Let_def lv_ok_def)
  qed
  ultimately show ?thesis using ok by (simp add: lv_ok_def lv_drop_def Let_def)
qed

lemma eraseFromLevel_eq:
  assumes "pq_inv ordered q" and "pq_abs q sid = Some i"
  shows "eraseFromLevel i sid q = set_level i (lv_drop sid (pq_levels q ! i)) q"
  using assms by (auto simp: eraseFromLevel_def lv_drop_def Let_def pq_inv_def lv_ok_def)

text \<open>Changing one level and the map together.\<close>

lemma pq_inv_replace:
  assumes inv: "pq_inv ordered q" and i: "i < kDefaultPriorityLevelsSize"
    and ok: "lv_ok ordered l {sid. M sid = Some i}"
    and same: "\<And>j. j \<noteq> i \<Longrightarrow> j < kDefaultPriorityLevelsSize \<Longrightarrow> {sid. M sid = Some j} = {sid. pq_abs q sid = Some j}"
    and range: "\<And>sid j. M sid = Some j \<Longrightarrow> j < kDefaultPriorityLevelsSize"
    and M: "M = pq_abs q'" and q': "pq_levels q' = (pq_levels q)[i := l]"
  shows "pq_inv ordered q'"
proof -
  have len: "length (pq_levels q) = kDefaultPriorityLevelsSize" using inv by (simp add: pq_inv_def)
  have "lv_ok ordered (pq_levels q' ! j) {sid. pq_abs q' sid = Some j}" if j: "j < kDefaultPriorityLevelsSize" for j
  proof (cases "j = i")
    case True
    then show ?thesis using ok M i len by (simp add: q')
  next
    case False
    then show ?thesis using same [OF False j] inv j M by (simp add: q' pq_inv_def)
  qed
  then show ?thesis using range len M by (simp add: pq_inv_def q')
qed

lemma pq_erase_ok:
  assumes inv: "pq_inv ordered q"
  shows "pq_inv ordered (pq_erase sid q) \<and> pq_abs (pq_erase sid q) = (pq_abs q)(sid := None)"
proof (cases "pq_abs q sid")
  case None
  then show ?thesis using inv by (simp add: pq_erase_def pq_abs_def fun_upd_idem)
next
  case (Some i)
  let ?q = "pq_erase sid q"
  have i: "i < kDefaultPriorityLevelsSize" and ok: "lv_ok ordered (pq_levels q ! i) {k. pq_abs q k = Some i}"
    using inv Some by (auto simp: pq_inv_def)
  have lev: "pq_levels ?q = (pq_levels q)[i := lv_drop sid (pq_levels q ! i)]"
    and map: "pq_abs ?q = (pq_abs q)(sid := None)"
    using Some eraseFromLevel_eq [OF inv Some]
    by (simp_all add: pq_erase_def pq_abs_def set_level_def Let_def mapping_lookup_delete fun_eq_iff)
  have ids: "{k. ((pq_abs q)(sid := None)) k = Some i} = {k. pq_abs q k = Some i} - {sid}"
    by auto
  have "pq_inv ordered ?q"
  proof (rule pq_inv_replace [OF inv i _ _ _ map [symmetric] lev])
    show "lv_ok ordered (lv_drop sid (pq_levels q ! i)) {k. ((pq_abs q)(sid := None)) k = Some i}"
      unfolding ids using ok by (rule lv_drop_ok)
  qed (use inv Some in \<open>auto simp: pq_inv_def split: if_splits\<close>)
  then show ?thesis using map by simp
qed

lemma insertIntoLevel_ok:
  assumes inv: "pq_inv ordered q" and new: "pq_abs q sid = None"
    and v: "pq_valid ordered sid pri"
  defines "i \<equiv> priority2index pri"
  defines "q' \<equiv> insertIntoLevel i sid (pr_orderId pri)
                  (q\<lparr>writableStreamsToLevel := Mapping.update sid i (writableStreamsToLevel q)\<rparr>)"
  shows "pq_inv ordered q' \<and> pq_abs q' = (pq_abs q)(sid \<mapsto> i)"
proof -
  have i: "i < kDefaultPriorityLevelsSize" using v priority2index_less by (simp add: pq_valid_def i_def)
  have ok: "lv_ok ordered (pq_levels q ! i) {k. pq_abs q k = Some i}" using inv i by (simp add: pq_inv_def)
  have lev: "pq_levels q' = (pq_levels q)[i := lv_insert sid (pr_orderId pri) (pq_levels q ! i)]"
    by (simp add: q'_def insertIntoLevel_def set_level_def)
  have map: "pq_abs q' = (pq_abs q)(sid \<mapsto> i)"
    by (simp add: q'_def insertIntoLevel_def set_level_def pq_abs_def lookup_update' fun_eq_iff)
  have ids: "{k. ((pq_abs q)(sid \<mapsto> i)) k = Some i} = insert sid {k. pq_abs q k = Some i}" by auto
  have "pq_inv ordered q'"
  proof (rule pq_inv_replace [OF inv i _ _ _ map [symmetric] lev])
    show "lv_ok ordered (lv_insert sid (pr_orderId pri) (pq_levels q ! i)) {k. ((pq_abs q)(sid \<mapsto> i)) k = Some i}"
      unfolding ids using ok new v by (intro lv_insert_ok) (simp_all add: pq_valid_def)
  qed (use inv new i in \<open>auto simp: pq_inv_def split: if_splits\<close>)
  then show ?thesis using map by simp
qed

lemma updateExisting_ok:
  assumes inv: "pq_inv ordered q" and old: "pq_abs q sid = Some i" and v: "pq_valid ordered sid pri"
  shows "pq_inv ordered (updateExistingStreamPriority sid i pri q) \<and>
         pq_abs (updateExistingStreamPriority sid i pri q) = (pq_abs q)(sid \<mapsto> priority2index pri)"
proof (cases "i = priority2index pri")
  case True
  then show ?thesis using inv old by (simp add: updateExistingStreamPriority_def fun_upd_idem)
next
  case False
  let ?q = "pq_erase sid q"
  note e = pq_erase_ok [OF inv, of sid]
  have del: "Mapping.update sid k (Mapping.delete sid m) = Mapping.update sid k m" for k and m :: "(nat, nat) mapping"
    by (rule mapping_eqI) (simp add: lookup_update' mapping_lookup_delete)
  have "updateExistingStreamPriority sid i pri q = insertIntoLevel (priority2index pri) sid (pr_orderId pri)
      (?q\<lparr>writableStreamsToLevel := Mapping.update sid (priority2index pri) (writableStreamsToLevel ?q)\<rparr>)"
    using False old by (simp add: updateExistingStreamPriority_def pq_erase_def pq_abs_def Let_def del)
  then show ?thesis using insertIntoLevel_ok [of ordered ?q sid pri] e v by simp
qed

lemma insertOrUpdate_ok:
  assumes "pq_inv ordered q" and "pq_valid ordered sid pri"
  shows "pq_inv ordered (insertOrUpdate sid pri q) \<and>
         pq_abs (insertOrUpdate sid pri q) = (pq_abs q)(sid \<mapsto> priority2index pri)"
  using updateExisting_ok [OF assms(1) _ assms(2)] insertIntoLevel_ok [OF assms(1) _ assms(2)]
  by (cases "pq_abs q sid") (simp_all add: insertOrUpdate_def pq_abs_def Let_def)

lemma updateIfExist_ok:
  assumes "pq_inv ordered q" and "pq_valid ordered sid pri"
  shows "pq_inv ordered (updateIfExist sid pri q) \<and>
         pq_abs (updateIfExist sid pri q) =
           (if pq_abs q sid = None then pq_abs q else (pq_abs q)(sid \<mapsto> priority2index pri))"
  using updateExisting_ok [OF assms(1) _ assms(2)] assms(1)
  by (cases "pq_abs q sid") (simp_all add: updateIfExist_def pq_abs_def)

lemma newPriorityQueue_ok: "pq_inv ordered newPriorityQueue" "pq_abs newPriorityQueue = Map.empty"
  by (simp_all add: pq_inv_def pq_abs_def newPriorityQueue_def lv_ok_def newLevel_def lookup_empty fun_eq_iff)

lemma lv_begin_ok: "lv_ok ordered l ids \<Longrightarrow> lv_ok ordered (lv_begin l) ids"
  by (cases "lv_streams l")
    (auto simp: lv_begin_def lv_ok_def getOrderedStream_def Let_def split: option.splits)

lemma lv_begin_current:
  assumes "lv_ok ordered l ids" and "lv_streams l \<noteq> []"
  shows "\<exists>sid \<in> ids. lv_current (lv_begin l) = Inr sid"
proof -
  obtain s where it: "lv_nextStreamIt (lv_begin l) = Some s" and s: "s \<in> set (lv_streams l)"
    using assms
    by (cases "lv_streams l"; cases "lv_incremental l"; cases "lv_nextStreamIt l")
      (simp_all add: lv_begin_def lv_ok_def Let_def)
  then obtain sid where "sid \<in> ids" "s = getOrderedStream sid l" using assms(1) by (auto simp: lv_ok_def)
  then show ?thesis using it by (auto simp: lv_current_def)
qed

lemma first_nonempty_level:
  assumes inv: "pq_inv ordered q"
  defines "i \<equiv> length (takeWhile (\<lambda>l. lv_streams l = []) (pq_levels q))"
  shows "i = length (pq_levels q) \<Longrightarrow> pq_abs q = Map.empty"
    and "i \<noteq> length (pq_levels q) \<Longrightarrow> i < kDefaultPriorityLevelsSize \<and> lv_streams (pq_levels q ! i) \<noteq> []"
    and "pq_abs q sid = Some j \<Longrightarrow> i \<le> j"
proof -
  have len: "length (pq_levels q) = kDefaultPriorityLevelsSize" using inv by (simp add: pq_inv_def)
  have le: "i \<le> length (pq_levels q)" unfolding i_def by (rule length_takeWhile_le)
  have below: "pq_abs q sid \<noteq> Some j" if "j < i" for sid j
  proof -
    let ?T = "takeWhile (\<lambda>l. lv_streams l = []) (pq_levels q)"
    have "?T ! j \<in> set ?T" using that by (simp add: i_def)
    then have "lv_streams (?T ! j) = []" using set_takeWhileD by fast
    then have "lv_streams (pq_levels q ! j) = []" using that by (simp add: i_def takeWhile_nth)
    moreover have "lv_ok ordered (pq_levels q ! j) {k. pq_abs q k = Some j}"
      using inv that le len by (simp add: pq_inv_def)
    ultimately have "{k. pq_abs q k = Some j} = {}" by (simp add: lv_ok_def)
    then show ?thesis by blast
  qed
  show "pq_abs q = Map.empty" if "i = length (pq_levels q)"
  proof
    fix k
    show "pq_abs q k = None"
      using below [of _ k] inv that len by (cases "pq_abs q k") (auto simp: pq_inv_def)
  qed
  show "i < kDefaultPriorityLevelsSize \<and> lv_streams (pq_levels q ! i) \<noteq> []" if "i \<noteq> length (pq_levels q)"
    using that le len nth_length_takeWhile [of "\<lambda>l. lv_streams l = []" "pq_levels q"] unfolding i_def by simp
  show "i \<le> j" if "pq_abs q sid = Some j" using below that by (meson not_le)
qed

lemma getNextScheduledStream_ok:
  assumes inv: "pq_inv ordered q"
  shows "case getNextScheduledStream q of
      Inl e \<Rightarrow> e = Queue_check_failure \<and> pq_abs q = Map.empty
    | Inr (sid, q') \<Rightarrow> pq_inv ordered q' \<and> pq_abs q' = pq_abs q \<and>
        (\<exists>i. pq_abs q sid = Some i \<and> (\<forall>k j. pq_abs q k = Some j \<longrightarrow> i \<le> j))"
proof -
  define i where "i = length (takeWhile (\<lambda>l. lv_streams l = []) (pq_levels q))"
  note f = first_nonempty_level [OF inv, folded i_def]
  show ?thesis
  proof (cases "i = length (pq_levels q)")
    case True
    then show ?thesis using f(1) by (simp add: getNextScheduledStream_def i_def [symmetric])
  next
    case False
    let ?l = "pq_levels q ! i"
    have i: "i < kDefaultPriorityLevelsSize" and ok: "lv_ok ordered ?l {sid. pq_abs q sid = Some i}"
      using f(2) [OF False] inv by (auto simp: pq_inv_def)
    obtain sid where sid: "pq_abs q sid = Some i" "lv_current (lv_begin ?l) = Inr sid"
      using lv_begin_current [OF ok] f(2) [OF False] by auto
    have "pq_inv ordered (set_level i (lv_begin ?l) q)"
      by (rule pq_inv_replace [OF inv i, of "lv_begin ?l" "pq_abs q"])
        (use lv_begin_ok [OF ok] inv in \<open>auto simp: set_level_def pq_abs_def pq_inv_def\<close>)
    moreover have "pq_abs (set_level i (lv_begin ?l) q) = pq_abs q" by (simp add: set_level_def pq_abs_def)
    ultimately show ?thesis
      using False sid f(3) by (auto simp: getNextScheduledStream_def i_def [symmetric] Let_def)
  qed
qed

section \<open>The interface of the scheduler\<close>

datatype 'p queue_op = Put nat 'p | Retune nat 'p | Drop nat | Ask

text \<open>What the queue promises: a map from streams to levels, asked for a stream at the least one.\<close>

fun queue_spec :: "('p \<Rightarrow> nat) \<Rightarrow> (nat \<Rightarrow> nat option) \<Rightarrow> 'p queue_op \<Rightarrow> (nat \<Rightarrow> nat option)" where
  "queue_spec lev M (Put sid p) = M(sid \<mapsto> lev p)"
| "queue_spec lev M (Retune sid p) = (if M sid = None then M else M(sid \<mapsto> lev p))"
| "queue_spec lev M (Drop sid) = M(sid := None)"
| "queue_spec lev M Ask = M"

fun op_valid :: "(nat \<Rightarrow> 'p \<Rightarrow> bool) \<Rightarrow> 'p queue_op \<Rightarrow> bool" where
  "op_valid valid (Put sid p) = valid sid p"
| "op_valid valid (Retune sid p) = valid sid p"
| "op_valid valid (Drop sid) = True"
| "op_valid valid Ask = True"

locale stream_scheduler =
  fixes put :: "nat \<Rightarrow> 'p \<Rightarrow> 'q \<Rightarrow> 'q"
    and retune :: "nat \<Rightarrow> 'p \<Rightarrow> 'q \<Rightarrow> 'q"
    and remove :: "nat \<Rightarrow> 'q \<Rightarrow> 'q"
    and ask :: "'q \<Rightarrow> 'e + nat \<times> 'q"
    and lev :: "'p \<Rightarrow> nat"
    and valid :: "nat \<Rightarrow> 'p \<Rightarrow> bool"
    and abs :: "'q \<Rightarrow> nat \<Rightarrow> nat option"
    and invar :: "'q \<Rightarrow> bool"
  assumes put_law: "invar q \<Longrightarrow> valid sid p \<Longrightarrow> invar (put sid p q) \<and> abs (put sid p q) = (abs q)(sid \<mapsto> lev p)"
    and retune_law: "invar q \<Longrightarrow> valid sid p \<Longrightarrow> invar (retune sid p q) \<and>
      abs (retune sid p q) = (if abs q sid = None then abs q else (abs q)(sid \<mapsto> lev p))"
    and remove_law: "invar q \<Longrightarrow> invar (remove sid q) \<and> abs (remove sid q) = (abs q)(sid := None)"
    and ask_law: "invar q \<Longrightarrow> (case ask q of Inl e \<Rightarrow> abs q = Map.empty
      | Inr (sid, q') \<Rightarrow> invar q' \<and> abs q' = abs q \<and>
          (\<exists>i. abs q sid = Some i \<and> (\<forall>k j. abs q k = Some j \<longrightarrow> i \<le> j)))"
begin

fun step :: "'q \<Rightarrow> 'p queue_op \<Rightarrow> 'q" where
  "step q (Put sid p) = put sid p q"
| "step q (Retune sid p) = retune sid p q"
| "step q (Drop sid) = remove sid q"
| "step q Ask = (case ask q of Inl e \<Rightarrow> q | Inr (sid, q') \<Rightarrow> q')"

lemma step_refines:
  assumes "invar q" and "op_valid valid v"
  shows "invar (step q v) \<and> abs (step q v) = queue_spec lev (abs q) v"
  using assms put_law retune_law remove_law ask_law [OF assms(1)]
  by (cases v) (auto split: sum.splits)

lemma run_refines:
  assumes "invar q" and "\<forall>v \<in> set vs. op_valid valid v"
  shows "invar (foldl step q vs) \<and> abs (foldl step q vs) = foldl (queue_spec lev) (abs q) vs"
  using assms
proof (induction vs arbitrary: q)
  case (Cons v vs)
  then show ?case using step_refines [of q v] Cons.IH [of "step q v"] by simp
qed simp

lemma ask_after_run:
  assumes "invar q" and "\<forall>v \<in> set vs. op_valid valid v"
  defines "M \<equiv> foldl (queue_spec lev) (abs q) vs"
  shows "case ask (foldl step q vs) of
      Inl e \<Rightarrow> M = Map.empty
    | Inr (sid, q') \<Rightarrow> \<exists>i. M sid = Some i \<and> (\<forall>k j. M k = Some j \<longrightarrow> i \<le> j)"
  using run_refines [OF assms(1,2)] ask_law [of "foldl step q vs"] unfolding M_def
  by (auto split: sum.splits)

end

interpretation pq: stream_scheduler insertOrUpdate updateIfExist pq_erase getNextScheduledStream
    priority2index "pq_valid ordered" pq_abs "pq_inv ordered"
  for ordered
proof unfold_locales
  fix q sid pri
  assume inv: "pq_inv ordered q"
  show "pq_inv ordered (pq_erase sid q) \<and> pq_abs (pq_erase sid q) = (pq_abs q)(sid := None)"
    using inv by (rule pq_erase_ok)
  show "case getNextScheduledStream q of Inl e \<Rightarrow> pq_abs q = Map.empty
      | Inr (sid, q') \<Rightarrow> pq_inv ordered q' \<and> pq_abs q' = pq_abs q \<and>
          (\<exists>i. pq_abs q sid = Some i \<and> (\<forall>k j. pq_abs q k = Some j \<longrightarrow> i \<le> j))"
    using getNextScheduledStream_ok [OF inv] by (auto split: sum.splits)
qed (simp_all add: insertOrUpdate_ok updateIfExist_ok)

section \<open>Properties\<close>

text \<open>The queue under a sequence of calls.\<close>

fun pq_step :: "priority_queue \<Rightarrow> priority queue_op \<Rightarrow> priority_queue" where
  "pq_step q (Put sid p) = insertOrUpdate sid p q"
| "pq_step q (Retune sid p) = updateIfExist sid p q"
| "pq_step q (Drop sid) = pq_erase sid q"
| "pq_step q Ask = (case getNextScheduledStream q of Inl e \<Rightarrow> q | Inr (sid, q') \<Rightarrow> q')"

lemma pq_step_eq: "pq.step = pq_step"
proof (intro ext)
  fix q v show "pq.step q v = pq_step q v" by (cases v) simp_all
qed

text \<open>
  C9. The write queue refines a map from streams to levels. After any sequence of
  insertions, priority updates, removals and scheduling decisions in which a stream always
  or never carries an order id, the queue records for each stream the level of the last
  priority it was given and nothing for a removed one, each level holds exactly its
  streams, and the stream scheduled next is one of the most urgent level in use; only an
  empty queue aborts.
\<close>

theorem priority_queue_refines_map:
  assumes "\<forall>v \<in> set vs. op_valid (pq_valid ordered) v"
  defines "q \<equiv> foldl pq_step newPriorityQueue vs"
    and "M \<equiv> foldl (queue_spec priority2index) Map.empty vs"
  shows "pq_abs q = M \<and>
    (\<forall>i < kDefaultPriorityLevelsSize. os_streamId ` set (lv_streams (pq_levels q ! i)) = {sid. M sid = Some i}) \<and>
    (case getNextScheduledStream q of
       Inl e \<Rightarrow> e = Queue_check_failure \<and> M = Map.empty
     | Inr (sid, q') \<Rightarrow> \<exists>i. M sid = Some i \<and> (\<forall>k j. M k = Some j \<longrightarrow> i \<le> j))"
proof -
  have run: "pq_inv ordered q \<and> pq_abs q = M"
    using pq.run_refines [OF newPriorityQueue_ok(1) assms(1)]
    by (simp add: q_def M_def newPriorityQueue_ok pq_step_eq)
  moreover have "\<forall>i < kDefaultPriorityLevelsSize. os_streamId ` set (lv_streams (pq_levels q ! i)) = {sid. M sid = Some i}"
    using run by (simp add: pq_inv_def lv_ok_def image_image)
  moreover have "case getNextScheduledStream q of
        Inl e \<Rightarrow> e = Queue_check_failure \<and> M = Map.empty
      | Inr (sid, q') \<Rightarrow> \<exists>i. M sid = Some i \<and> (\<forall>k j. M k = Some j \<longrightarrow> i \<le> j)"
    using getNextScheduledStream_ok [of ordered q] run by (auto split: sum.splits)
  ultimately show ?thesis by simp
qed

definition sample_ops :: "priority queue_op list" where
  "sample_ops = [Put 4 (newPriority 3 True 0), Put 8 (newPriority 1 False 0), Ask, Retune 4 (newPriority 0 True 0), Drop 8]"

theorem priority_queue_refines_map_witness:
  "list_all (op_valid (pq_valid (\<lambda>_. False))) sample_ops \<and>
   pq_abs (foldl pq_step newPriorityQueue sample_ops) = [4 \<mapsto> 1] \<and>
   os_streamId ` set (lv_streams (pq_levels (foldl pq_step newPriorityQueue sample_ops) ! 1)) = {4}"
proof -
  have v: "\<forall>v \<in> set sample_ops. op_valid (pq_valid (\<lambda>_. False)) v"
    by (simp add: sample_ops_def pq_valid_def newPriority_def kDefaultMaxPriority_def)
  have M: "foldl (queue_spec priority2index) Map.empty sample_ops = [4 \<mapsto> 1]"
    by (auto simp: sample_ops_def priority2index_def newPriority_def)
  have "1 < kDefaultPriorityLevelsSize"
    by (simp add: kDefaultPriorityLevelsSize_def kDefaultPriorityLevels_def)
  then show ?thesis
    using v priority_queue_refines_map [OF v] unfolding M list_all_iff by auto
qed

text \<open>Repeated \<open>next()\<close> on a level.\<close>

fun lv_nexts :: "nat \<Rightarrow> level \<Rightarrow> queue_error + level" where
  "lv_nexts 0 l = Inr l"
| "lv_nexts (Suc k) l = bind_result (lv_next False l) (lv_nexts k)"

lemma set_next_nth:
  assumes "sorted xs" "distinct xs" "i < length xs"
  shows "set_next (xs ! i) xs = (if Suc i < length xs then Some (xs ! Suc i) else None)"
proof -
  have less: "xs ! j < xs ! k \<longleftrightarrow> j < k" if "j < length xs" "k < length xs" for j k
    using assms(1,2) that by (metis nat_neq_iff not_less_iff_gr_or_eq strict_sorted_iff sorted_wrt_nth_less)
  show ?thesis
  proof (cases "Suc i < length xs")
    case True
    have "find (\<lambda>y. xs ! i < y) xs = Some (xs ! Suc i)"
      unfolding find_Some_iff using less assms(3) True by (intro exI [of _ "Suc i"]) auto
    then show ?thesis using True by (simp add: set_next_def)
  next
    case False
    have "\<not> (\<exists>y \<in> set xs. xs ! i < y)"
      using less assms(3) False by (auto simp: in_set_conv_nth)
    then show ?thesis using False by (auto simp: set_next_def find_None_iff)
  qed
qed

text \<open>The state of an incremental level after \<open>t\<close> calls, counted from its first stream.\<close>

definition lv_at :: "nat \<Rightarrow> level \<Rightarrow> level" where
  "lv_at t l = l\<lparr>lv_nextStreamIt := Some (lv_streams l ! (t div lv_maxNextsPerStream l mod length (lv_streams l))),
                 lv_nextsSoFar := t mod lv_maxNextsPerStream l\<rparr>"

definition lv_wf :: "level \<Rightarrow> bool" where
  "lv_wf l \<longleftrightarrow> lv_incremental l \<and> sorted (lv_streams l) \<and> distinct (lv_streams l) \<and> lv_streams l \<noteq> [] \<and>
     0 < lv_maxNextsPerStream l \<and> lv_maxNextsPerStream l < 2 ^ 64"

lemma lv_next_at:
  assumes wf: "lv_wf l"
  shows "lv_next False (lv_at t l) = Inr (lv_at (Suc t) l)"
proof -
  define m n p where "m = lv_maxNextsPerStream l" and "n = length (lv_streams l)" and "p = t div m mod n"
  have m: "0 < m" and n: "0 < n" "p < n" using wf by (simp_all add: lv_wf_def m_def n_def p_def)
  have "t mod m < m" using m by simp
  then have add: "add64 (t mod m) 1 = Suc (t mod m)" using wf by (simp add: add64_eq m_def lv_wf_def)
  show ?thesis
  proof (cases "Suc (t mod m) < m")
    case True
    then have "Suc t mod m = Suc (t mod m)" "Suc t div m = t div m" by (simp_all add: mod_Suc div_Suc)
    then show ?thesis using True wf add by (simp add: lv_next_def lv_at_def lv_wf_def m_def [symmetric])
  next
    case False
    then have eq: "Suc (t mod m) = m" using m \<open>t mod m < m\<close> by simp
    then have s: "Suc t mod m = 0" "Suc t div m = Suc (t div m)" by (simp_all add: mod_Suc div_Suc)
    have "Suc (t div m) mod n = (if Suc p < n then Suc p else 0)"
      using n by (auto simp: p_def mod_Suc)
    moreover have "set_begin (lv_streams l) = Some (lv_streams l ! 0)" using wf by (cases "lv_streams l") (auto simp: lv_wf_def)
    ultimately show ?thesis
      using False wf add s n set_next_nth [of "lv_streams l" p]
      by (simp add: lv_next_def lv_at_def lv_wf_def m_def [symmetric] n_def [symmetric] p_def [symmetric] Let_def)
  qed
qed

lemma lv_nexts_at: "lv_wf l \<Longrightarrow> lv_nexts k (lv_at t l) = Inr (lv_at (t + k) l)"
  by (induction k arbitrary: t) (simp_all add: lv_next_at)

text \<open>
  C22. Incremental levels are scheduled without starvation: from any state of the iterator of
  an incremental level, every stream of the level is reached after at most
  \<open>maxNextsPerStream\<close> calls of \<open>next\<close> for each stream in the level.
\<close>

theorem incremental_level_reaches_every_stream:
  assumes wf: "lv_wf l" and it: "lv_nextStreamIt l = Some s" "s \<in> set (lv_streams l)"
    and c: "lv_nextsSoFar l < lv_maxNextsPerStream l" and y: "y \<in> set (lv_streams l)"
  shows "\<exists>k l'. k \<le> lv_maxNextsPerStream l * length (lv_streams l) \<and>
    lv_nexts k l = Inr l' \<and> lv_current l' = Inr (os_streamId y)"
proof -
  define m n where "m = lv_maxNextsPerStream l" and "n = length (lv_streams l)"
  obtain i where i: "i < n" "s = lv_streams l ! i" using it(2) by (auto simp: in_set_conv_nth n_def)
  obtain j where j: "j < n" "y = lv_streams l ! j" using y by (auto simp: in_set_conv_nth n_def)
  have m: "0 < m" using wf by (simp add: lv_wf_def m_def)
  have l: "l = lv_at (i * m + lv_nextsSoFar l) l" using i it(1) c by (simp add: lv_at_def m_def n_def)
  show ?thesis
  proof (cases "i = j")
    case True
    then show ?thesis using it(1) i j by (intro exI [of _ 0]) (simp add: lv_current_def)
  next
    case False
    define d where "d = (if i < j then j - i else j + n - i)"
    have d: "0 < d" "d \<le> n" "(i + d) mod n = j" using i j False by (auto simp: d_def)
    have "m \<le> d * m" using d(1) by simp
    then have "lv_nextsSoFar l \<le> d * m" using c unfolding m_def by linarith
    then have sum: "i * m + lv_nextsSoFar l + (d * m - lv_nextsSoFar l) = (i + d) * m"
      by (simp add: add_mult_distrib)
    have "lv_nexts (d * m - lv_nextsSoFar l) l = Inr (lv_at ((i + d) * m) l)"
      using lv_nexts_at [OF wf, of "d * m - lv_nextsSoFar l" "i * m + lv_nextsSoFar l"] sum l by simp
    moreover have "lv_current (lv_at ((i + d) * m) l) = Inr (os_streamId y)"
      using d(3) m j by (simp add: lv_at_def lv_current_def m_def n_def)
    moreover have "d * m \<le> m * n" using d(2) by simp
    ultimately show ?thesis
      unfolding m_def [symmetric] n_def [symmetric] by (meson diff_le_self le_trans)
  qed
qed

definition sample_level :: level where
  "sample_level = (newLevel 7)\<lparr>lv_streams := [OrderedStream 0 0, OrderedStream 4 0, OrderedStream 8 0],
     lv_maxNextsPerStream := 2, lv_nextsSoFar := 1, lv_nextStreamIt := Some (OrderedStream 8 0)\<rparr>"

theorem incremental_level_reaches_every_stream_witness:
  "\<exists>k l'. k \<le> 6 \<and> lv_nexts k sample_level = Inr l' \<and> lv_current l' = Inr 4"
proof -
  have "lv_wf sample_level"
    by (simp add: lv_wf_def sample_level_def newLevel_def less_eq_ordered_stream_def less_ordered_stream_def)
  then show ?thesis
    using incremental_level_reaches_every_stream [of sample_level "OrderedStream 8 0" "OrderedStream 4 0"]
    by (simp add: sample_level_def)
qed



end
