(* ===== verification/Stream_State.thy ===== *)
theory Stream_State
  imports Priority_Queue
begin

text \<open>
  The state of a stream and of its connection: \<open>state/StreamData.h\<close>, the constructor of
  \<open>QuicStreamState\<close> (\<open>state/StateData.cpp\<close>) and the fields of \<open>QuicConnectionStateBase\<close>,
  \<open>TransportSettings\<close> and \<open>QuicStreamManager\<close> that the stream layer reads or writes.

  Byte buffers are lists; hash maps are \<open>mapping\<close>s and hash sets are sets. The reference
  \<open>stream.conn\<close> is a second argument: operations take the stream and the connection and
  return both. A failed \<open>CHECK\<close> or \<open>LOG(FATAL)\<close> is \<open>Stream_check_failure\<close>; \<open>DCHECK\<close>s are not
  compiled into release builds. Offsets are natural numbers; sums whose wrap matters use
  \<open>add64\<close>, \<open>sub64\<close>, \<open>mul64\<close>. Time points are integers in nanoseconds.
\<close>

section \<open>Streams\<close>

record write_buffer_meta =
  bm_length :: nat
  bm_offset :: nat
  bm_eof :: bool

definition bm_split :: "nat \<Rightarrow> write_buffer_meta \<Rightarrow> stream_error + write_buffer_meta \<times> write_buffer_meta" where
  "bm_split splitLen b =
     (if bm_length b < splitLen then Inl Stream_check_failure
      else Inr (\<lparr>bm_length = splitLen, bm_offset = bm_offset b, bm_eof = (splitLen = bm_length b \<and> bm_eof b)\<rparr>,
                b\<lparr>bm_offset := bm_offset b + splitLen, bm_length := bm_length b - splitLen\<rparr>))"

record write_stream_buffer =
  wb_data :: "u8 list"
  wb_offset :: nat
  wb_eof :: bool

record write_stream_frame =
  wf_streamId :: nat
  wf_offset :: nat
  wf_len :: nat
  wf_fin :: bool
  wf_fromBufMeta :: bool
  wf_groupId :: "nat option"

datatype stream_send_state = Send_Open | Send_ResetSent | Send_Closed | Send_Invalid

datatype stream_recv_state = Recv_Open | Recv_Closed | Recv_Invalid

record stream_flow_control =
  sf_windowSize :: nat
  sf_advertisedMaxOffset :: nat
  sf_peerAdvertisedMaxOffset :: nat
  sf_timeOfLastFlowControlUpdate :: "int option"
  sf_pendingBlockedFrame :: bool

record quic_stream = read_side +
  stream_id :: nat
  groupId :: "nat option"
  writeBuffer :: "u8 list"
  pendingWrites :: "u8 list"
  retransmissionBuffer :: "(nat, write_stream_buffer) mapping"
  ackedIntervals :: interval_set
  lossBuffer :: "write_stream_buffer list"
  currentWriteOffset :: nat
  finalWriteOffset :: "nat option"
  flowControlState :: stream_flow_control
  streamReadError :: "nat option"
  streamWriteError :: "nat option"
  sendState :: stream_send_state
  recvState :: stream_recv_state
  isControl :: bool
  lastHolbTime :: "int option"
  totalHolbTime :: int
  holbCount :: u32
  stream_priority :: priority
  dsrSender :: bool
  writeBufMeta :: write_buffer_meta
  retransmissionBufMetas :: "(nat, write_buffer_meta) mapping"
  lossBufMetas :: "write_buffer_meta list"
  numPacketsTxWithNewData :: nat
  streamLossCount :: nat

section \<open>Connection\<close>

record transport_settings =
  ts_advertisedInitialConnectionFlowControlWindow :: nat
  ts_advertisedInitialBidiLocalStreamFlowControlWindow :: nat
  ts_advertisedInitialBidiRemoteStreamFlowControlWindow :: nat
  ts_advertisedInitialUniStreamFlowControlWindow :: nat
  ts_advertisedInitialMaxStreamsBidi :: nat
  ts_advertisedInitialMaxStreamsUni :: nat
  ts_flowControlRttFrequency :: nat
  ts_flowControlWindowFrequency :: nat
  ts_disableFlowControlTimeBasedUpdates :: bool
  ts_autotuneReceiveConnFlowControl :: bool
  ts_autotuneReceiveStreamFlowControl :: bool
  ts_useNewStreamBlockedCondition :: bool
  ts_notifyOnNewStreamsExplicitly :: bool
  ts_unidirectionalStreamsReadCallbacksFirst :: bool
  ts_advertisedMaxStreamGroups :: nat
  ts_priorityQueueWritesPerStream :: nat
  ts_defaultPriority :: priority
  ts_removeFromLossBufferOnSpurious :: bool

text \<open>The initialisers of the members.\<close>

definition defaultTransportSettings :: transport_settings where
  "defaultTransportSettings =
     \<lparr>ts_advertisedInitialConnectionFlowControlWindow = 1024 * 1024,
      ts_advertisedInitialBidiLocalStreamFlowControlWindow = (64 + 1) * 1024,
      ts_advertisedInitialBidiRemoteStreamFlowControlWindow = (64 + 1) * 1024,
      ts_advertisedInitialUniStreamFlowControlWindow = (64 + 1) * 1024,
      ts_advertisedInitialMaxStreamsBidi = 2048, ts_advertisedInitialMaxStreamsUni = 2048,
      ts_flowControlRttFrequency = 2, ts_flowControlWindowFrequency = 2,
      ts_disableFlowControlTimeBasedUpdates = False, ts_autotuneReceiveConnFlowControl = False,
      ts_autotuneReceiveStreamFlowControl = False, ts_useNewStreamBlockedCondition = False,
      ts_notifyOnNewStreamsExplicitly = False, ts_unidirectionalStreamsReadCallbacksFirst = False,
      ts_advertisedMaxStreamGroups = 0, ts_priorityQueueWritesPerStream = 1, ts_defaultPriority = kDefaultPriority,
      ts_removeFromLossBufferOnSpurious = False\<rparr>"

record conn_flow_control =
  cf_windowSize :: nat
  cf_advertisedMaxOffset :: nat
  cf_peerAdvertisedMaxOffset :: nat
  cf_sumCurReadOffset :: nat
  cf_sumMaxObservedOffset :: nat
  cf_sumCurWriteOffset :: nat
  cf_sumCurStreamBufferLen :: nat
  cf_peerAdvertisedInitialMaxStreamOffsetBidiLocal :: nat
  cf_peerAdvertisedInitialMaxStreamOffsetBidiRemote :: nat
  cf_peerAdvertisedInitialMaxStreamOffsetUni :: nat
  cf_timeOfLastFlowControlUpdate :: "int option"

text \<open>
  \<open>QuicStreamManager\<close>. \<open>sm_appIdleCalls\<close> records the arguments of the calls
  \<open>congestionController->setAppIdle\<close>, latest first, and \<open>sm_priorityNotifications\<close> counts the
  calls of the priority observer.
\<close>

record stream_manager =
  nextAcceptablePeerBidirectionalStreamId :: nat
  nextAcceptablePeerUnidirectionalStreamId :: nat
  nextAcceptableLocalBidirectionalStreamId :: nat
  nextAcceptableLocalUnidirectionalStreamId :: nat
  nextBidirectionalStreamId :: nat
  nextUnidirectionalStreamId :: nat
  nextBidirectionalStreamGroupId :: nat
  nextUnidirectionalStreamGroupId :: nat
  maxLocalBidirectionalStreamId :: nat
  maxLocalUnidirectionalStreamId :: nat
  maxRemoteBidirectionalStreamId :: nat
  maxRemoteUnidirectionalStreamId :: nat
  initialLocalBidirectionalStreamId :: nat
  initialLocalUnidirectionalStreamId :: nat
  initialRemoteBidirectionalStreamId :: nat
  initialRemoteUnidirectionalStreamId :: nat
  streamLimitWindowingFraction :: nat
  remoteBidirectionalStreamLimitUpdate :: "nat option"
  remoteUnidirectionalStreamLimitUpdate :: "nat option"
  numControlStreams :: nat
  openBidirectionalPeerStreams :: stream_id_set
  openUnidirectionalPeerStreams :: stream_id_set
  openBidirectionalLocalStreams :: stream_id_set
  openUnidirectionalLocalStreams :: stream_id_set
  openBidirectionalLocalStreamGroups :: stream_id_set
  openUnidirectionalLocalStreamGroups :: stream_id_set
  sm_streams :: "(nat, quic_stream) mapping"
  newPeerStreams :: "nat list"
  newGroupedPeerStreams :: "nat list"
  newPeerStreamGroups :: "nat set"
  peerUnidirectionalStreamGroupsSeen :: stream_id_set
  peerBidirectionalStreamGroupsSeen :: stream_id_set
  blockedStreams :: "(nat, nat) mapping"
  stopSendingStreams :: "(nat, nat) mapping"
  streamPriorityLevelsNoCtrl :: "(nat, nat) mapping"
  windowUpdates :: "nat set"
  flowControlUpdated :: "nat set"
  lossStreams :: "nat set"
  lossDSRStreams :: "nat set"
  readableStreams :: "nat set"
  unidirectionalReadableStreams :: "nat set"
  peekableStreams :: "nat set"
  writeQueue :: priority_queue
  controlWriteQueue :: "nat set"
  writableStreams :: "nat set"
  writableDSRStreams :: "nat set"
  txStreams :: "nat set"
  deliverableStreams :: "nat set"
  closedStreams :: "nat set"
  isAppIdle :: bool
  maxLocalBidirectionalStreamIdIncreased :: bool
  maxLocalUnidirectionalStreamIdIncreased :: bool
  sm_hasObserver :: bool
  sm_appIdleCalls :: "bool list"
  sm_priorityNotifications :: nat

record rst_stream_frame =
  rst_streamId :: nat
  rst_errorCode :: nat
  rst_offset :: nat

record quic_conn =
  qc_nodeType :: node_type
  qc_settings :: transport_settings
  qc_flow :: conn_flow_control
  qc_connWindowUpdate :: bool
  qc_sendDataBlocked :: bool
  qc_resets :: "(nat, rst_stream_frame) mapping"
  qc_srtt :: int
  qc_manager :: stream_manager
  qc_totalBytesRetransmitted :: nat
  qc_totalStreamBytesCloned :: nat
  qc_retransmissionPolicies :: "(nat, bool) mapping"

definition upd_manager :: "(stream_manager \<Rightarrow> stream_manager) \<Rightarrow> quic_conn \<Rightarrow> quic_conn" where
  "upd_manager f c = c\<lparr>qc_manager := f (qc_manager c)\<rparr>"

definition upd_flow :: "(conn_flow_control \<Rightarrow> conn_flow_control) \<Rightarrow> quic_conn \<Rightarrow> quic_conn" where
  "upd_flow f c = c\<lparr>qc_flow := f (qc_flow c)\<rparr>"

section \<open>Construction\<close>

definition initialWindow :: "quic_conn \<Rightarrow> nat \<Rightarrow> nat" where
  "initialWindow c sid =
     (if isUnidirectionalStream sid then ts_advertisedInitialUniStreamFlowControlWindow (qc_settings c)
      else if isLocalStream (qc_nodeType c) sid
      then ts_advertisedInitialBidiLocalStreamFlowControlWindow (qc_settings c)
      else ts_advertisedInitialBidiRemoteStreamFlowControlWindow (qc_settings c))"

definition initialPeerOffset :: "quic_conn \<Rightarrow> nat \<Rightarrow> nat" where
  "initialPeerOffset c sid =
     (if isUnidirectionalStream sid then cf_peerAdvertisedInitialMaxStreamOffsetUni (qc_flow c)
      else if isLocalStream (qc_nodeType c) sid
      then cf_peerAdvertisedInitialMaxStreamOffsetBidiRemote (qc_flow c)
      else cf_peerAdvertisedInitialMaxStreamOffsetBidiLocal (qc_flow c))"

definition newQuicStream :: "nat \<Rightarrow> nat option \<Rightarrow> quic_conn \<Rightarrow> quic_stream" where
  "newQuicStream sid grp c =
     \<lparr>readBuffer = [], currentReadOffset = 0, maxOffsetObserved = 0, finalReadOffset = None,
      stream_id = sid, groupId = grp, writeBuffer = [], pendingWrites = [], retransmissionBuffer = Mapping.empty,
      ackedIntervals = emptyIntervalSet, lossBuffer = [], currentWriteOffset = 0, finalWriteOffset = None,
      flowControlState =
        \<lparr>sf_windowSize = initialWindow c sid, sf_advertisedMaxOffset = initialWindow c sid,
         sf_peerAdvertisedMaxOffset = initialPeerOffset c sid, sf_timeOfLastFlowControlUpdate = None,
         sf_pendingBlockedFrame = False\<rparr>,
      streamReadError = None, streamWriteError = None,
      sendState = (if isUnidirectionalStream sid \<and> \<not> isLocalStream (qc_nodeType c) sid then Send_Invalid else Send_Open),
      recvState = (if isUnidirectionalStream sid \<and> isLocalStream (qc_nodeType c) sid then Recv_Invalid else Recv_Open),
      isControl = False, lastHolbTime = None, totalHolbTime = 0, holbCount = 0,
      stream_priority = ts_defaultPriority (qc_settings c), dsrSender = False,
      writeBufMeta = \<lparr>bm_length = 0, bm_offset = 0, bm_eof = False\<rparr>,
      retransmissionBufMetas = Mapping.empty, lossBufMetas = [], numPacketsTxWithNewData = 0, streamLossCount = 0\<rparr>"

section \<open>Stream predicates\<close>

definition inTerminalStates :: "quic_stream \<Rightarrow> bool" where
  "inTerminalStates s \<longleftrightarrow>
     (sendState s = Send_Closed \<or> sendState s = Send_Invalid) \<and> (recvState s = Recv_Closed \<or> recvState s = Recv_Invalid)"

definition stream_writable :: "quic_stream \<Rightarrow> bool" where
  "stream_writable s \<longleftrightarrow> sendState s = Send_Open \<and> finalWriteOffset s = None"

definition shouldSendFlowControl :: "quic_stream \<Rightarrow> bool" where
  "shouldSendFlowControl s \<longleftrightarrow> recvState s = Recv_Open"

definition hasWritableData :: "quic_stream \<Rightarrow> stream_error + bool" where
  "hasWritableData s =
     (if pendingWrites s \<noteq> []
      then if sf_peerAdvertisedMaxOffset (flowControlState s) < currentWriteOffset s then Inl Stream_check_failure
           else Inr (sf_peerAdvertisedMaxOffset (flowControlState s) - currentWriteOffset s > 0)
      else case finalWriteOffset s of
             Some f \<Rightarrow> Inr (bm_offset (writeBufMeta s) = 0 \<and> currentWriteOffset s \<le> f)
           | None \<Rightarrow> Inr False)"

definition hasWritableBufMeta :: "quic_stream \<Rightarrow> stream_error + bool" where
  "hasWritableBufMeta s =
     (let m = writeBufMeta s
      in if bm_offset m = 0 then Inr False
         else if bm_length m > 0
         then if sf_peerAdvertisedMaxOffset (flowControlState s) < bm_offset m then Inl Stream_check_failure
              else Inr (sf_peerAdvertisedMaxOffset (flowControlState s) - bm_offset m > 0)
         else case finalWriteOffset s of
                Some f \<Rightarrow> Inr (bm_offset m \<le> f)
              | None \<Rightarrow> Inr False)"

text \<open>\<open>a || b\<close> evaluates \<open>a\<close> first and \<open>b\<close> only if \<open>a\<close> is false.\<close>

definition hasSchedulableData :: "quic_stream \<Rightarrow> stream_error + bool" where
  "hasSchedulableData s = bind_result (hasWritableData s) (\<lambda>w. Inr (w \<or> lossBuffer s \<noteq> []))"

definition hasSchedulableDsr :: "quic_stream \<Rightarrow> stream_error + bool" where
  "hasSchedulableDsr s = bind_result (hasWritableBufMeta s) (\<lambda>w. Inr (w \<or> lossBufMetas s \<noteq> []))"

definition hasSentFIN :: "quic_stream \<Rightarrow> bool" where
  "hasSentFIN s =
     (case finalWriteOffset s of
        None \<Rightarrow> False
      | Some f \<Rightarrow> currentWriteOffset s > f \<or> bm_offset (writeBufMeta s) > f)"

definition hasLoss :: "quic_stream \<Rightarrow> bool" where
  "hasLoss s \<longleftrightarrow> lossBuffer s \<noteq> [] \<or> lossBufMetas s \<noteq> []"

definition nextOffsetToWrite :: "quic_stream \<Rightarrow> nat" where
  "nextOffsetToWrite s =
     (if bm_offset (writeBufMeta s) = 0 then currentWriteOffset s
      else if pendingWrites s \<noteq> [] then currentWriteOffset s
      else bm_offset (writeBufMeta s))"

definition hasReadableData :: "quic_stream \<Rightarrow> bool" where
  "hasReadableData s \<longleftrightarrow>
     readBuffer s \<noteq> [] \<and> currentReadOffset s = sb_offset (hd (readBuffer s)) \<or>
     finalReadOffset s = Some (currentReadOffset s)"

definition hasPeekableData :: "quic_stream \<Rightarrow> bool" where
  "hasPeekableData s \<longleftrightarrow> readBuffer s \<noteq> []"

section \<open>Acked intervals and the loss buffer\<close>

definition updateAckedIntervals :: "nat \<Rightarrow> nat \<Rightarrow> bool \<Rightarrow> quic_stream \<Rightarrow> stream_error + quic_stream" where
  "updateAckedIntervals off len eof s =
     (let lenAdjustment = (if eof then 0 else 1)
      in if lenAdjustment \<noteq> 0 \<and> len = 0 then Inl Stream_check_failure
         else case insertRange off (off + len - lenAdjustment) (ackedIntervals s) of
                Inl e \<Rightarrow> Inl Stream_invalid_argument
              | Inr is \<Rightarrow> Inr (s\<lparr>ackedIntervals := is\<rparr>))"

text \<open>The loss buffer is sorted by offset; \<open>std::upper_bound\<close> splits it.\<close>

definition wb_end :: "write_stream_buffer \<Rightarrow> nat" where
  "wb_end b = wb_offset b + length (wb_data b)"

definition insertIntoLossBuffer :: "write_stream_buffer \<Rightarrow> write_stream_buffer list \<Rightarrow> write_stream_buffer list" where
  "insertIntoLossBuffer buf lb =
     (let before = takeWhile (\<lambda>b. wb_offset b \<le> wb_offset buf) lb;
          after = dropWhile (\<lambda>b. wb_offset b \<le> wb_offset buf) lb
      in if before \<noteq> [] \<and> wb_end (last before) = wb_offset buf
         then butlast before @
                [(last before)\<lparr>wb_data := wb_data (last before) @ wb_data buf, wb_eof := wb_eof buf\<rparr>] @ after
         else before @ [buf] @ after)"

text \<open>
  The loop of \<open>removeFromLossBuffer\<close>, over the entries not passed yet: the entries passed,
  the split-off front part with its offset, if any, and the remaining entries.
\<close>

fun loss_remove_loop :: "nat \<Rightarrow> nat \<Rightarrow> bool \<Rightarrow> write_stream_buffer list \<Rightarrow> write_stream_buffer list \<times> write_stream_buffer option" where
  "loss_remove_loop off len eof [] = ([], None)"
| "loss_remove_loop off len eof (x # xs) =
     (let lossStart = wb_offset x; lossEnd = wb_end x; removedStart = off; removedEnd = off + len
      in if lossStart > removedEnd then (x # xs, None)
         else if removedStart \<ge> lossStart \<and> removedEnd \<le> lossEnd \<or> lossStart \<ge> removedStart \<and> lossEnd \<le> removedEnd
         then
           let amountToSplit = (if removedStart > lossStart then removedStart - lossStart else 0);
               split = take amountToSplit (wb_data x);
               kept = drop amountToSplit (wb_data x);
               x1 = x\<lparr>wb_data := drop len kept, wb_offset := lossStart + amountToSplit + min len (length kept)\<rparr>;
               rest = (if wb_data x1 = [] \<and> wb_eof x1 = eof then xs else x1 # xs)
           in (rest, if split = [] then None else Some \<lparr>wb_data = split, wb_offset = lossStart, wb_eof = False\<rparr>)
         else (case loss_remove_loop off len eof xs of (ys, front) \<Rightarrow> (x # ys, front)))"

definition removeFromLossBuffer :: "nat \<Rightarrow> nat \<Rightarrow> bool \<Rightarrow> write_stream_buffer list \<Rightarrow> write_stream_buffer list" where
  "removeFromLossBuffer off len eof lb =
     (if lb = [] \<or> len = 0 then lb
      else case loss_remove_loop off len eof lb of
             (lb1, None) \<Rightarrow> lb1
           | (lb1, Some front) \<Rightarrow> insertIntoLossBuffer front lb1)"

definition insertIntoLossBufMeta :: "write_buffer_meta \<Rightarrow> write_buffer_meta list \<Rightarrow> write_buffer_meta list" where
  "insertIntoLossBufMeta m lb =
     (let before = takeWhile (\<lambda>b. bm_offset b \<le> bm_offset m) lb;
          after = dropWhile (\<lambda>b. bm_offset b \<le> bm_offset m) lb
      in if before \<noteq> [] \<and> bm_offset (last before) + bm_length (last before) = bm_offset m
         then butlast before @
                [(last before)\<lparr>bm_length := bm_length (last before) + bm_length m, bm_eof := bm_eof m\<rparr>] @ after
         else before @ [m] @ after)"

end
