(* ===== verification/Stream_Manager.thy ===== *)
theory Stream_Manager
  imports Stream_State
begin

text \<open>
  \<open>QuicStreamManager\<close> (\<open>state/QuicStreamManager.h\<close>, \<open>QuicStreamManager.cpp\<close>): the streams a
  connection has open, the limits on opening more, and the sets of streams with something
  to read, to write or to announce.

  Operations that need the connection (its settings, its role) take it and return it with
  the manager updated; the others act on the manager. Statistics callbacks are left out.
  A thrown \<open>QuicTransportException\<close> is \<open>Inl\<close> of its code; the \<open>folly::Expected\<close> errors of
  \<open>createStream\<close> are the separate type \<open>local_error\<close>.
\<close>

datatype local_error = CREATING_EXISTING_STREAM | STREAM_LIMIT_EXCEEDED | NO_ERROR

definition kMaxMaxStreams :: nat where
  "kMaxMaxStreams = 2 ^ 60"

definition kMaxStreamGroupId :: nat where
  "kMaxStreamGroupId = 128 * kStreamIncrement"

section \<open>Head-of-line blocking\<close>

definition updateHolBlockedTime :: "int \<Rightarrow> quic_stream \<Rightarrow> quic_stream" where
  "updateHolBlockedTime now s =
     (if readBuffer s = [] \<or> currentReadOffset s = sb_offset (hd (readBuffer s))
      then case lastHolbTime s of
             None \<Rightarrow> s
           | Some t \<Rightarrow> s\<lparr>totalHolbTime := totalHolbTime s + (now - t) div 1000, lastHolbTime := None\<rparr>
      else case lastHolbTime s of
             Some t \<Rightarrow> s
           | None \<Rightarrow> s\<lparr>lastHolbTime := Some now, holbCount := holbCount s + 1\<rparr>)"

section \<open>Opening streams\<close>

definition isStreamUnopened :: "nat \<Rightarrow> nat \<Rightarrow> bool" where
  "isStreamUnopened sid nextAcceptable \<longleftrightarrow> sid \<ge> nextAcceptable"

text \<open>The identifiers \<open>start\<close>, \<open>start + 4\<close>, ... up to \<open>sid\<close>.\<close>

function ids_upto :: "nat \<Rightarrow> nat \<Rightarrow> nat list" where
  "ids_upto start sid = (if start \<le> sid then start # ids_upto (start + kStreamIncrement) sid else [])"
  by pat_completeness auto
termination
  by (relation "measure (\<lambda>(start, sid). Suc sid - start)") (auto simp: kStreamIncrement_def)

declare ids_upto.simps [simp del]

text \<open>
  Both take the set of open streams, the next acceptable identifier and the limit, and give
  the updated ones; the peer version also lists the streams opened.
\<close>

definition openPeerStreamIfNotClosed ::
    "nat \<Rightarrow> stream_id_set \<Rightarrow> nat \<Rightarrow> nat \<Rightarrow> stream_error + local_error \<times> stream_id_set \<times> nat \<times> nat list" where
  "openPeerStreamIfNotClosed sid openStreams nextAcceptable maxStreamId =
     (if sid < nextAcceptable then Inr (CREATING_EXISTING_STREAM, openStreams, nextAcceptable, [])
      else if sid \<ge> maxStreamId then Inr (STREAM_LIMIT_EXCEEDED, openStreams, nextAcceptable, [])
      else bind_result (ss_add_range nextAcceptable sid openStreams) (\<lambda>openStreams1.
             Inr (NO_ERROR, openStreams1,
                  if sid \<ge> nextAcceptable then sid + kStreamIncrement else nextAcceptable,
                  ids_upto nextAcceptable sid)))"

definition openLocalStreamIfNotClosed ::
    "nat \<Rightarrow> stream_id_set \<Rightarrow> nat \<Rightarrow> nat \<Rightarrow> stream_error + local_error \<times> stream_id_set \<times> nat" where
  "openLocalStreamIfNotClosed sid openStreams nextAcceptable maxStreamId =
     (if sid < nextAcceptable then Inr (CREATING_EXISTING_STREAM, openStreams, nextAcceptable)
      else if sid \<ge> maxStreamId then Inr (STREAM_LIMIT_EXCEEDED, openStreams, nextAcceptable)
      else bind_result (ss_add_range nextAcceptable sid openStreams) (\<lambda>openStreams1.
             Inr (NO_ERROR, openStreams1,
                  if sid \<ge> nextAcceptable then sid + kStreamIncrement else nextAcceptable)))"

definition streamExists :: "nat \<Rightarrow> quic_conn \<Rightarrow> bool" where
  "streamExists sid c =
     (let m = qc_manager c
      in if isLocalStream (qc_nodeType c) sid
         then if isUnidirectionalStream sid then ss_contains sid (openUnidirectionalLocalStreams m)
              else ss_contains sid (openBidirectionalLocalStreams m)
         else if isUnidirectionalStream sid then ss_contains sid (openUnidirectionalPeerStreams m)
              else ss_contains sid (openBidirectionalPeerStreams m))"

definition findStream :: "nat \<Rightarrow> stream_manager \<Rightarrow> quic_stream option" where
  "findStream sid m = Mapping.lookup (sm_streams m) sid"

section \<open>Limits\<close>

definition streamLimitId :: "nat \<Rightarrow> nat \<Rightarrow> stream_error + nat" where
  "streamLimitId maxStreams initial =
     (if maxStreams > kMaxMaxStreams then Inl Stream_limit_error
      else Inr (add64 (mul64 maxStreams kStreamIncrement) initial))"

definition setMaxLocalBidirectionalStreams :: "nat \<Rightarrow> bool \<Rightarrow> stream_manager \<Rightarrow> stream_error + stream_manager" where
  "setMaxLocalBidirectionalStreams maxStreams force m =
     bind_result (streamLimitId maxStreams (initialLocalBidirectionalStreamId m)) (\<lambda>sid.
       if force \<or> sid > maxLocalBidirectionalStreamId m
       then Inr (m\<lparr>maxLocalBidirectionalStreamId := sid, maxLocalBidirectionalStreamIdIncreased := True\<rparr>)
       else Inr m)"

definition setMaxLocalUnidirectionalStreams :: "nat \<Rightarrow> bool \<Rightarrow> stream_manager \<Rightarrow> stream_error + stream_manager" where
  "setMaxLocalUnidirectionalStreams maxStreams force m =
     bind_result (streamLimitId maxStreams (initialLocalUnidirectionalStreamId m)) (\<lambda>sid.
       if force \<or> sid > maxLocalUnidirectionalStreamId m
       then Inr (m\<lparr>maxLocalUnidirectionalStreamId := sid, maxLocalUnidirectionalStreamIdIncreased := True\<rparr>)
       else Inr m)"

definition setMaxRemoteBidirectionalStreamsInternal :: "nat \<Rightarrow> bool \<Rightarrow> stream_manager \<Rightarrow> stream_error + stream_manager" where
  "setMaxRemoteBidirectionalStreamsInternal maxStreams force m =
     bind_result (streamLimitId maxStreams (initialRemoteBidirectionalStreamId m)) (\<lambda>sid.
       if force \<or> sid > maxRemoteBidirectionalStreamId m
       then Inr (m\<lparr>maxRemoteBidirectionalStreamId := sid\<rparr>) else Inr m)"

definition setMaxRemoteUnidirectionalStreamsInternal :: "nat \<Rightarrow> bool \<Rightarrow> stream_manager \<Rightarrow> stream_error + stream_manager" where
  "setMaxRemoteUnidirectionalStreamsInternal maxStreams force m =
     bind_result (streamLimitId maxStreams (initialRemoteUnidirectionalStreamId m)) (\<lambda>sid.
       if force \<or> sid > maxRemoteUnidirectionalStreamId m
       then Inr (m\<lparr>maxRemoteUnidirectionalStreamId := sid\<rparr>) else Inr m)"

definition setMaxRemoteBidirectionalStreams :: "nat \<Rightarrow> stream_manager \<Rightarrow> stream_error + stream_manager" where
  "setMaxRemoteBidirectionalStreams maxStreams m = setMaxRemoteBidirectionalStreamsInternal maxStreams False m"

definition setMaxRemoteUnidirectionalStreams :: "nat \<Rightarrow> stream_manager \<Rightarrow> stream_error + stream_manager" where
  "setMaxRemoteUnidirectionalStreams maxStreams m = setMaxRemoteUnidirectionalStreamsInternal maxStreams False m"

definition consumeMaxLocalBidirectionalStreamIdIncreased :: "stream_manager \<Rightarrow> bool \<times> stream_manager" where
  "consumeMaxLocalBidirectionalStreamIdIncreased m =
     (maxLocalBidirectionalStreamIdIncreased m, m\<lparr>maxLocalBidirectionalStreamIdIncreased := False\<rparr>)"

definition consumeMaxLocalUnidirectionalStreamIdIncreased :: "stream_manager \<Rightarrow> bool \<times> stream_manager" where
  "consumeMaxLocalUnidirectionalStreamIdIncreased m =
     (maxLocalUnidirectionalStreamIdIncreased m, m\<lparr>maxLocalUnidirectionalStreamIdIncreased := False\<rparr>)"

definition refreshTransportSettings :: "transport_settings \<Rightarrow> stream_manager \<Rightarrow> stream_error + stream_manager" where
  "refreshTransportSettings settings m =
     bind_result (setMaxRemoteBidirectionalStreamsInternal (ts_advertisedInitialMaxStreamsBidi settings) True m) (\<lambda>m1.
     setMaxRemoteUnidirectionalStreamsInternal (ts_advertisedInitialMaxStreamsUni settings) True m1)"

definition setStreamLimitWindowingFraction :: "nat \<Rightarrow> stream_manager \<Rightarrow> stream_manager" where
  "setStreamLimitWindowingFraction fraction m =
     (if fraction > 0 then m\<lparr>streamLimitWindowingFraction := fraction\<rparr> else m)"

definition consumeRemoteBidirectionalStreamLimitUpdate :: "stream_manager \<Rightarrow> nat option \<times> stream_manager" where
  "consumeRemoteBidirectionalStreamLimitUpdate m =
     (remoteBidirectionalStreamLimitUpdate m, m\<lparr>remoteBidirectionalStreamLimitUpdate := None\<rparr>)"

definition consumeRemoteUnidirectionalStreamLimitUpdate :: "stream_manager \<Rightarrow> nat option \<times> stream_manager" where
  "consumeRemoteUnidirectionalStreamLimitUpdate m =
     (remoteUnidirectionalStreamLimitUpdate m, m\<lparr>remoteUnidirectionalStreamLimitUpdate := None\<rparr>)"

text \<open>The four \<open>openable...Streams\<close> and \<open>nextAcceptable...StreamId\<close> on a limit and the next identifier.\<close>

definition openableStreams :: "nat \<Rightarrow> nat \<Rightarrow> stream_error + nat" where
  "openableStreams limit nxt =
     (if limit < nxt then Inl Stream_check_failure else Inr ((limit - nxt) div kStreamIncrement))"

definition nextAcceptableStreamId :: "nat \<Rightarrow> nat \<Rightarrow> stream_error + nat option" where
  "nextAcceptableStreamId limit nxt =
     (if limit < nxt then Inl Stream_check_failure else if limit = nxt then Inr None else Inr (Some nxt))"

section \<open>Sets of streams with work to do\<close>

text \<open>\<open>emplace\<close> keeps an existing entry.\<close>

definition map_emplace :: "nat \<Rightarrow> 'v \<Rightarrow> (nat, 'v) mapping \<Rightarrow> (nat, 'v) mapping" where
  "map_emplace k v mp = (if Mapping.lookup mp k = None then Mapping.update k v mp else mp)"

definition queueBlocked :: "nat \<Rightarrow> nat \<Rightarrow> stream_manager \<Rightarrow> stream_manager" where
  "queueBlocked sid off m = m\<lparr>blockedStreams := map_emplace sid off (blockedStreams m)\<rparr>"

definition removeBlocked :: "nat \<Rightarrow> stream_manager \<Rightarrow> stream_manager" where
  "removeBlocked sid m = m\<lparr>blockedStreams := Mapping.delete sid (blockedStreams m)\<rparr>"

definition pendingWindowUpdate :: "nat \<Rightarrow> stream_manager \<Rightarrow> bool" where
  "pendingWindowUpdate sid m \<longleftrightarrow> sid \<in> windowUpdates m"

definition queueWindowUpdate :: "nat \<Rightarrow> stream_manager \<Rightarrow> stream_manager" where
  "queueWindowUpdate sid m = m\<lparr>windowUpdates := insert sid (windowUpdates m)\<rparr>"

definition removeWindowUpdate :: "nat \<Rightarrow> stream_manager \<Rightarrow> stream_manager" where
  "removeWindowUpdate sid m = m\<lparr>windowUpdates := windowUpdates m - {sid}\<rparr>"

definition addClosed :: "nat \<Rightarrow> stream_manager \<Rightarrow> stream_manager" where
  "addClosed sid m = m\<lparr>closedStreams := insert sid (closedStreams m)\<rparr>"

definition addDeliverable :: "nat \<Rightarrow> stream_manager \<Rightarrow> stream_manager" where
  "addDeliverable sid m = m\<lparr>deliverableStreams := insert sid (deliverableStreams m)\<rparr>"

definition removeDeliverable :: "nat \<Rightarrow> stream_manager \<Rightarrow> stream_manager" where
  "removeDeliverable sid m = m\<lparr>deliverableStreams := deliverableStreams m - {sid}\<rparr>"

definition addTx :: "nat \<Rightarrow> stream_manager \<Rightarrow> stream_manager" where
  "addTx sid m = m\<lparr>txStreams := insert sid (txStreams m)\<rparr>"

definition removeTx :: "nat \<Rightarrow> stream_manager \<Rightarrow> stream_manager" where
  "removeTx sid m = m\<lparr>txStreams := txStreams m - {sid}\<rparr>"

definition queueFlowControlUpdated :: "nat \<Rightarrow> stream_manager \<Rightarrow> stream_manager" where
  "queueFlowControlUpdated sid m = m\<lparr>flowControlUpdated := insert sid (flowControlUpdated m)\<rparr>"

definition removeFlowControlUpdated :: "nat \<Rightarrow> stream_manager \<Rightarrow> stream_manager" where
  "removeFlowControlUpdated sid m = m\<lparr>flowControlUpdated := flowControlUpdated m - {sid}\<rparr>"

definition clearFlowControlUpdated :: "stream_manager \<Rightarrow> stream_manager" where
  "clearFlowControlUpdated m = m\<lparr>flowControlUpdated := {}\<rparr>"

definition addStopSending :: "nat \<Rightarrow> nat \<Rightarrow> stream_manager \<Rightarrow> stream_manager" where
  "addStopSending sid err m = m\<lparr>stopSendingStreams := map_emplace sid err (stopSendingStreams m)\<rparr>"

definition clearStopSending :: "stream_manager \<Rightarrow> stream_manager" where
  "clearStopSending m = m\<lparr>stopSendingStreams := Mapping.empty\<rparr>"

definition consumeNewPeerStreams :: "stream_manager \<Rightarrow> nat list \<times> stream_manager" where
  "consumeNewPeerStreams m = (newPeerStreams m, m\<lparr>newPeerStreams := []\<rparr>)"

definition consumeNewGroupedPeerStreams :: "stream_manager \<Rightarrow> nat list \<times> stream_manager" where
  "consumeNewGroupedPeerStreams m = (newGroupedPeerStreams m, m\<lparr>newGroupedPeerStreams := []\<rparr>)"

definition consumeNewPeerStreamGroups :: "stream_manager \<Rightarrow> nat set \<times> stream_manager" where
  "consumeNewPeerStreamGroups m = (newPeerStreamGroups m, m\<lparr>newPeerStreamGroups := {}\<rparr>)"

definition clearActionable :: "stream_manager \<Rightarrow> stream_manager" where
  "clearActionable m =
     m\<lparr>deliverableStreams := {}, txStreams := {}, readableStreams := {}, unidirectionalReadableStreams := {},
       peekableStreams := {}, flowControlUpdated := {}\<rparr>"

text \<open>The sets are unordered: which element \<open>begin()\<close> is, is the argument \<open>pick\<close>.\<close>

definition popDeliverable :: "(nat set \<Rightarrow> nat) \<Rightarrow> stream_manager \<Rightarrow> nat option \<times> stream_manager" where
  "popDeliverable pick m =
     (if deliverableStreams m = {} then (None, m)
      else (Some (pick (deliverableStreams m)), removeDeliverable (pick (deliverableStreams m)) m))"

definition popTx :: "(nat set \<Rightarrow> nat) \<Rightarrow> stream_manager \<Rightarrow> nat option \<times> stream_manager" where
  "popTx pick m =
     (if txStreams m = {} then (None, m)
      else (Some (pick (txStreams m)), removeTx (pick (txStreams m)) m))"

definition popFlowControlUpdated :: "(nat set \<Rightarrow> nat) \<Rightarrow> stream_manager \<Rightarrow> nat option \<times> stream_manager" where
  "popFlowControlUpdated pick m =
     (if flowControlUpdated m = {} then (None, m)
      else (Some (pick (flowControlUpdated m)), removeFlowControlUpdated (pick (flowControlUpdated m)) m))"

section \<open>Readable, peekable and writable streams\<close>

definition separateUni :: "quic_conn \<Rightarrow> nat \<Rightarrow> bool" where
  "separateUni c sid \<longleftrightarrow> ts_unidirectionalStreamsReadCallbacksFirst (qc_settings c) \<and> isUnidirectionalStream sid"

definition addToReadableStreams :: "nat \<Rightarrow> quic_conn \<Rightarrow> quic_conn" where
  "addToReadableStreams sid c =
     (if separateUni c sid
      then upd_manager (\<lambda>m. m\<lparr>unidirectionalReadableStreams := insert sid (unidirectionalReadableStreams m)\<rparr>) c
      else upd_manager (\<lambda>m. m\<lparr>readableStreams := insert sid (readableStreams m)\<rparr>) c)"

definition removeFromReadableStreams :: "nat \<Rightarrow> quic_conn \<Rightarrow> quic_conn" where
  "removeFromReadableStreams sid c =
     (if separateUni c sid
      then upd_manager (\<lambda>m. m\<lparr>unidirectionalReadableStreams := unidirectionalReadableStreams m - {sid}\<rparr>) c
      else upd_manager (\<lambda>m. m\<lparr>readableStreams := readableStreams m - {sid}\<rparr>) c)"

definition updateReadableStreams :: "int \<Rightarrow> quic_stream \<Rightarrow> quic_conn \<Rightarrow> quic_stream \<times> quic_conn" where
  "updateReadableStreams now s c =
     (let s1 = updateHolBlockedTime now s
      in (s1, if hasReadableData s1 \<or> streamReadError s1 \<noteq> None then addToReadableStreams (stream_id s1) c
              else removeFromReadableStreams (stream_id s1) c))"

definition updatePeekableStreams :: "quic_stream \<Rightarrow> quic_conn \<Rightarrow> quic_conn" where
  "updatePeekableStreams s c =
     upd_manager (\<lambda>m. m\<lparr>peekableStreams :=
       (if hasPeekableData s \<or> streamReadError s \<noteq> None then insert (stream_id s) (peekableStreams m)
        else peekableStreams m - {stream_id s})\<rparr>) c"

definition put_in :: "bool \<Rightarrow> nat \<Rightarrow> nat set \<Rightarrow> nat set" where
  "put_in b sid A = (if b then insert sid A else A - {sid})"

definition addWritable :: "quic_stream \<Rightarrow> stream_manager \<Rightarrow> stream_error + stream_manager" where
  "addWritable s m =
     bind_result (hasSchedulableData s) (\<lambda>sched.
     bind_result (if isControl s \<or> sched then Inr False else hasSchedulableDsr s) (\<lambda>dsr.
     if \<not> (sched \<or> \<not> isControl s \<and> dsr) then Inl Stream_check_failure
     else
       let m1 = (if isControl s then m\<lparr>controlWriteQueue := insert (stream_id s) (controlWriteQueue m)\<rparr>
                 else m\<lparr>writeQueue := insertOrUpdate (stream_id s) (stream_priority s) (writeQueue m)\<rparr>)
       in bind_result (hasWritableData s) (\<lambda>w.
          bind_result (hasWritableBufMeta s) (\<lambda>b.
          Inr (m1\<lparr>writableStreams := (if w then insert (stream_id s) (writableStreams m1) else writableStreams m1),
                  writableDSRStreams := (if b then insert (stream_id s) (writableDSRStreams m1) else writableDSRStreams m1),
                  lossStreams := (if lossBuffer s \<noteq> [] then insert (stream_id s) (lossStreams m1) else lossStreams m1),
                  lossDSRStreams := (if lossBufMetas s \<noteq> [] then insert (stream_id s) (lossDSRStreams m1)
                                     else lossDSRStreams m1)\<rparr>)))))"

definition removeWritable :: "quic_stream \<Rightarrow> stream_manager \<Rightarrow> stream_manager" where
  "removeWritable s m =
     (let m1 = (if isControl s then m\<lparr>controlWriteQueue := controlWriteQueue m - {stream_id s}\<rparr>
                else m\<lparr>writeQueue := pq_erase (stream_id s) (writeQueue m)\<rparr>)
      in m1\<lparr>writableStreams := writableStreams m1 - {stream_id s},
            writableDSRStreams := writableDSRStreams m1 - {stream_id s},
            lossStreams := lossStreams m1 - {stream_id s},
            lossDSRStreams := lossDSRStreams m1 - {stream_id s}\<rparr>)"

definition clearWritable :: "stream_manager \<Rightarrow> stream_manager" where
  "clearWritable m =
     m\<lparr>writableStreams := {}, writableDSRStreams := {}, writeQueue := pq_clear (writeQueue m), controlWriteQueue := {}\<rparr>"

text \<open>After a write error the stream leaves every queue; the erasures after \<open>removeWritable\<close> repeat it.\<close>

definition updateWritableStreams :: "quic_stream \<Rightarrow> stream_manager \<Rightarrow> stream_error + stream_manager" where
  "updateWritableStreams s m =
     (if streamWriteError s \<noteq> None
      then if lossBuffer s \<noteq> [] \<or> lossBufMetas s \<noteq> [] then Inl Stream_check_failure
           else Inr (removeWritable s (removeWritable s m))
      else
        bind_result (hasWritableData s) (\<lambda>w.
        bind_result (hasWritableBufMeta s) (\<lambda>b.
        let m1 = m\<lparr>writableStreams := put_in w (stream_id s) (writableStreams m),
                   writableDSRStreams := put_in b (stream_id s) (writableDSRStreams m),
                   lossStreams := put_in (lossBuffer s \<noteq> []) (stream_id s) (lossStreams m),
                   lossDSRStreams := put_in (lossBufMetas s \<noteq> []) (stream_id s) (lossDSRStreams m)\<rparr>
        in bind_result (hasSchedulableData s) (\<lambda>sched.
           bind_result (if sched then Inr False else hasSchedulableDsr s) (\<lambda>dsr.
           if sched \<or> dsr
           then Inr (if isControl s then m1\<lparr>controlWriteQueue := insert (stream_id s) (controlWriteQueue m1)\<rparr>
                     else m1\<lparr>writeQueue := insertOrUpdate (stream_id s) (stream_priority s) (writeQueue m1)\<rparr>)
           else Inr (if isControl s then m1\<lparr>controlWriteQueue := controlWriteQueue m1 - {stream_id s}\<rparr>
                     else m1\<lparr>writeQueue := pq_erase (stream_id s) (writeQueue m1)\<rparr>))))))"

section \<open>Priorities and idleness\<close>

definition notifyStreamPriorityChanges :: "stream_manager \<Rightarrow> stream_manager" where
  "notifyStreamPriorityChanges m =
     (if sm_hasObserver m then m\<lparr>sm_priorityNotifications := sm_priorityNotifications m + 1\<rparr> else m)"

definition setPriorityChangesObserver :: "stream_manager \<Rightarrow> stream_manager" where
  "setPriorityChangesObserver m = m\<lparr>sm_hasObserver := True\<rparr>"

definition resetPriorityChangesObserver :: "stream_manager \<Rightarrow> stream_manager" where
  "resetPriorityChangesObserver m = m\<lparr>sm_hasObserver := False\<rparr>"

definition addToStreamPriorityMap :: "quic_stream \<Rightarrow> stream_manager \<Rightarrow> stream_error + stream_manager" where
  "addToStreamPriorityMap s m =
     (if isControl s then Inr m
      else if Mapping.lookup (streamPriorityLevelsNoCtrl m) (stream_id s) \<noteq> None then Inl Stream_state_error
      else Inr (notifyStreamPriorityChanges
             (m\<lparr>streamPriorityLevelsNoCtrl :=
                  Mapping.update (stream_id s) (pr_level (stream_priority s)) (streamPriorityLevelsNoCtrl m)\<rparr>)))"

definition setStreamPriority :: "nat \<Rightarrow> priority \<Rightarrow> stream_manager \<Rightarrow> stream_error + bool \<times> stream_manager" where
  "setStreamPriority sid newPri m =
     (case findStream sid m of
        None \<Rightarrow> Inr (False, m)
      | Some s \<Rightarrow>
          if stream_priority s = newPri then Inr (False, m)
          else
            let m1 = m\<lparr>sm_streams := Mapping.update sid (s\<lparr>stream_priority := newPri\<rparr>) (sm_streams m)\<rparr>
            in bind_result
                 (if isControl s then Inr m1
                  else if Mapping.lookup (streamPriorityLevelsNoCtrl m1) sid = None then Inl Stream_state_error
                  else Inr (notifyStreamPriorityChanges
                         (m1\<lparr>streamPriorityLevelsNoCtrl :=
                               Mapping.update sid (pr_level newPri) (streamPriorityLevelsNoCtrl m1)\<rparr>)))
                 (\<lambda>m2. Inr (True, m2\<lparr>writeQueue := updateIfExist sid newPri (writeQueue m2)\<rparr>)))"

text \<open>The minimum over the map, in any order of its entries.\<close>

definition getHighestPriorityLevel :: "stream_manager \<Rightarrow> nat" where
  "getHighestPriorityLevel m =
     Min (insert kDefaultMaxPriority
       ((\<lambda>k. the (Mapping.lookup (streamPriorityLevelsNoCtrl m) k)) ` Mapping.keys (streamPriorityLevelsNoCtrl m)))"

definition hasNonCtrlStreams :: "stream_manager \<Rightarrow> bool" where
  "hasNonCtrlStreams m \<longleftrightarrow> Mapping.size (sm_streams m) \<noteq> numControlStreams m"

definition updateAppIdleState :: "stream_manager \<Rightarrow> stream_manager" where
  "updateAppIdleState m =
     (if isAppIdle m \<and> \<not> hasNonCtrlStreams m then m
      else if \<not> isAppIdle m \<and> hasNonCtrlStreams m then m
      else m\<lparr>isAppIdle := \<not> hasNonCtrlStreams m, sm_appIdleCalls := (\<not> hasNonCtrlStreams m) # sm_appIdleCalls m\<rparr>)"

definition setStreamAsControl :: "quic_stream \<Rightarrow> stream_manager \<Rightarrow> quic_stream \<times> stream_manager" where
  "setStreamAsControl s m =
     (if isControl s then (s, updateAppIdleState m)
      else (s\<lparr>isControl := True\<rparr>,
            updateAppIdleState
              (m\<lparr>numControlStreams := add64 (numControlStreams m) 1,
                 streamPriorityLevelsNoCtrl := Mapping.delete (stream_id s) (streamPriorityLevelsNoCtrl m)\<rparr>)))"

section \<open>Creating and finding streams\<close>

text \<open>A returned pointer is the identifier of the stream, which is in the map.\<close>

definition emplaceStream :: "nat \<Rightarrow> nat option \<Rightarrow> quic_conn \<Rightarrow> quic_conn" where
  "emplaceStream sid grp c =
     upd_manager (\<lambda>m. m\<lparr>sm_streams := map_emplace sid (newQuicStream sid grp c) (sm_streams m)\<rparr>) c"

definition lift_manager :: "(stream_manager \<Rightarrow> stream_error + stream_manager) \<Rightarrow> quic_conn \<Rightarrow> stream_error + quic_conn" where
  "lift_manager f c = bind_result (f (qc_manager c)) (\<lambda>m. Inr (c\<lparr>qc_manager := m\<rparr>))"

definition getOrCreateOpenedLocalStream :: "nat \<Rightarrow> quic_conn \<Rightarrow> stream_error + nat option \<times> quic_conn" where
  "getOrCreateOpenedLocalStream sid c =
     (let m = qc_manager c;
          openLocal = (if isUnidirectionalStream sid then openUnidirectionalLocalStreams m
                       else openBidirectionalLocalStreams m)
      in if ss_contains sid openLocal
         then if findStream sid m \<noteq> None then Inl Stream_state_error
              else bind_result (lift_manager (addToStreamPriorityMap (newQuicStream sid None c)) (emplaceStream sid None c))
                     (\<lambda>c1. Inr (Some sid, c1))
         else Inr (None, c))"

text \<open>\<open>instantiatePeerStream\<close>: remember the group, list the stream if asked to, create its state.\<close>

definition notePeerStreamGroup :: "nat \<Rightarrow> nat option \<Rightarrow> stream_manager \<Rightarrow> stream_error + stream_manager" where
  "notePeerStreamGroup sid grp m =
     (case grp of
        None \<Rightarrow> Inr m
      | Some g \<Rightarrow>
          let seen = (if isUnidirectionalStream sid then peerUnidirectionalStreamGroupsSeen m
                      else peerBidirectionalStreamGroupsSeen m)
          in if ss_contains g seen then Inr m
             else bind_result (ss_add g seen) (\<lambda>seen1.
               let m1 = m\<lparr>newPeerStreamGroups := insert g (newPeerStreamGroups m)\<rparr>
               in Inr (if isUnidirectionalStream sid then m1\<lparr>peerUnidirectionalStreamGroupsSeen := seen1\<rparr>
                       else m1\<lparr>peerBidirectionalStreamGroupsSeen := seen1\<rparr>)))"

definition noteNewPeerStream :: "nat \<Rightarrow> nat option \<Rightarrow> transport_settings \<Rightarrow> stream_manager \<Rightarrow> stream_manager" where
  "noteNewPeerStream sid grp ts m =
     (if ts_notifyOnNewStreamsExplicitly ts
      then if grp = None then m\<lparr>newPeerStreams := newPeerStreams m @ [sid]\<rparr>
           else m\<lparr>newGroupedPeerStreams := newGroupedPeerStreams m @ [sid]\<rparr>
      else m)"

definition instantiatePeerStream :: "nat \<Rightarrow> nat option \<Rightarrow> quic_conn \<Rightarrow> stream_error + nat option \<times> quic_conn" where
  "instantiatePeerStream sid grp c =
     bind_result (notePeerStreamGroup sid grp (qc_manager c)) (\<lambda>m.
     let c1 = emplaceStream sid grp (c\<lparr>qc_manager := noteNewPeerStream sid grp (qc_settings c) m\<rparr>)
     in bind_result (lift_manager (addToStreamPriorityMap (newQuicStream sid grp c1)) c1)
          (\<lambda>c2. Inr (Some sid, c2)))"

definition peerGroupError :: "node_type \<Rightarrow> transport_settings \<Rightarrow> nat \<Rightarrow> stream_error option" where
  "peerGroupError node ts g =
     (if node = Client \<and> isClientStreamGroup g then Some Stream_state_error
      else if node = Server \<and> isServerStreamGroup g then Some Stream_state_error
      else if g \<ge> min (mul64 (ts_advertisedMaxStreamGroups ts) kStreamIncrement) kMaxStreamGroupId
      then Some Stream_limit_error else None)"

text \<open>\<open>getOrCreatePeerStream\<close>: open the stream and all lower ones, and list them.\<close>

definition openPeerStreams :: "nat \<Rightarrow> nat option \<Rightarrow> quic_conn \<Rightarrow> stream_error + local_error \<times> quic_conn" where
  "openPeerStreams sid grp c =
     (let m = qc_manager c; uni = isUnidirectionalStream sid
      in bind_result
           (openPeerStreamIfNotClosed sid (if uni then openUnidirectionalPeerStreams m else openBidirectionalPeerStreams m)
              (if uni then nextAcceptablePeerUnidirectionalStreamId m else nextAcceptablePeerBidirectionalStreamId m)
              (if uni then maxRemoteUnidirectionalStreamId m else maxRemoteBidirectionalStreamId m))
           (\<lambda>(result, openPeer1, nxt, created).
              let m1 = (if uni then m\<lparr>openUnidirectionalPeerStreams := openPeer1, nextAcceptablePeerUnidirectionalStreamId := nxt\<rparr>
                        else m\<lparr>openBidirectionalPeerStreams := openPeer1, nextAcceptablePeerBidirectionalStreamId := nxt\<rparr>);
                  m2 = (if ts_notifyOnNewStreamsExplicitly (qc_settings c) then m1
                        else if grp = None then m1\<lparr>newPeerStreams := newPeerStreams m1 @ created\<rparr>
                        else m1\<lparr>newGroupedPeerStreams := newGroupedPeerStreams m1 @ created\<rparr>)
              in Inr (result, c\<lparr>qc_manager := m2\<rparr>)))"

definition getOrCreatePeerStream :: "nat \<Rightarrow> nat option \<Rightarrow> quic_conn \<Rightarrow> stream_error + nat option \<times> quic_conn" where
  "getOrCreatePeerStream sid grp c =
     (if qc_nodeType c = Client \<and> isClientStream sid then Inl Stream_state_error
      else if qc_nodeType c = Server \<and> isServerStream sid then Inl Stream_state_error
      else if \<not> isClientStream sid \<and> \<not> isServerStream sid then Inl Stream_state_error
      else case Option.bind grp (peerGroupError (qc_nodeType c) (qc_settings c)) of
        Some e \<Rightarrow> Inl e
      | None \<Rightarrow>
          if findStream sid (qc_manager c) \<noteq> None then Inr (Some sid, c)
          else if ss_contains sid (if isUnidirectionalStream sid then openUnidirectionalPeerStreams (qc_manager c)
                                   else openBidirectionalPeerStreams (qc_manager c))
          then instantiatePeerStream sid grp c
          else bind_result (openPeerStreams sid grp c) (\<lambda>(result, c1).
                 case result of
                   CREATING_EXISTING_STREAM \<Rightarrow> Inr (None, c1)
                 | STREAM_LIMIT_EXCEEDED \<Rightarrow> Inl Stream_limit_error
                 | NO_ERROR \<Rightarrow> instantiatePeerStream sid grp c1))"

definition getStream :: "nat \<Rightarrow> nat option \<Rightarrow> quic_conn \<Rightarrow> stream_error + nat option \<times> quic_conn" where
  "getStream sid grp c =
     (if isRemoteStream (qc_nodeType c) sid
      then bind_result (getOrCreatePeerStream sid grp c) (\<lambda>(r, c1). Inr (r, upd_manager updateAppIdleState c1))
      else if findStream sid (qc_manager c) \<noteq> None then Inr (Some sid, c)
      else
        bind_result (getOrCreateOpenedLocalStream sid c) (\<lambda>(r, c1).
          let m = qc_manager c1;
              nxt = (if isUnidirectionalStream sid then nextAcceptableLocalUnidirectionalStreamId m
                     else nextAcceptableLocalBidirectionalStreamId m)
          in if r = None \<and> isStreamUnopened sid nxt then Inl Stream_state_error
             else Inr (r, upd_manager updateAppIdleState c1)))"

text \<open>\<open>createStream\<close>: the exceptions are the outer \<open>Inl\<close>, the \<open>Expected\<close> error the inner one.\<close>

definition localGroupError :: "quic_conn \<Rightarrow> bool \<Rightarrow> nat \<Rightarrow> stream_error option" where
  "localGroupError c uni g =
     (if \<not> ss_contains g (if uni then openUnidirectionalLocalStreamGroups (qc_manager c)
                          else openBidirectionalLocalStreamGroups (qc_manager c)) then Some Stream_state_error
      else if qc_nodeType c = Client \<and> \<not> isClientStreamGroup g then Some Stream_state_error
      else if qc_nodeType c = Server \<and> \<not> isServerStreamGroup g then Some Stream_state_error
      else None)"

text \<open>The part of \<open>createStream\<close> that opens the identifier.\<close>

definition openLocalStreams :: "nat \<Rightarrow> quic_conn \<Rightarrow> stream_error + local_error \<times> quic_conn" where
  "openLocalStreams sid c =
     (let m = qc_manager c; uni = isUnidirectionalStream sid
      in bind_result
           (openLocalStreamIfNotClosed sid (if uni then openUnidirectionalLocalStreams m else openBidirectionalLocalStreams m)
              (if uni then nextAcceptableLocalUnidirectionalStreamId m else nextAcceptableLocalBidirectionalStreamId m)
              (if uni then maxLocalUnidirectionalStreamId m else maxLocalBidirectionalStreamId m))
           (\<lambda>(result, openLocal1, nxt).
              Inr (result, c\<lparr>qc_manager :=
                (if uni then m\<lparr>openUnidirectionalLocalStreams := openLocal1, nextAcceptableLocalUnidirectionalStreamId := nxt\<rparr>
                 else m\<lparr>openBidirectionalLocalStreams := openLocal1, nextAcceptableLocalBidirectionalStreamId := nxt\<rparr>)\<rparr>)))"

definition createStream :: "nat \<Rightarrow> nat option \<Rightarrow> quic_conn \<Rightarrow> stream_error + (local_error + nat) \<times> quic_conn" where
  "createStream sid grp c =
     (if qc_nodeType c = Client \<and> \<not> isClientStream sid then Inl Stream_state_error
      else if qc_nodeType c = Server \<and> \<not> isServerStream sid then Inl Stream_state_error
      else case Option.bind grp (localGroupError c (isUnidirectionalStream sid)) of
        Some e \<Rightarrow> Inl e
      | None \<Rightarrow>
          bind_result (getOrCreateOpenedLocalStream sid c) (\<lambda>(existing, c1).
            case existing of
              Some k \<Rightarrow> Inr (Inr k, c1)
            | None \<Rightarrow>
                bind_result (openLocalStreams sid c1) (\<lambda>(result, c2).
                  if result \<noteq> NO_ERROR then Inr (Inl result, c2)
                  else bind_result (lift_manager (addToStreamPriorityMap (newQuicStream sid grp c2)) (emplaceStream sid grp c2))
                         (\<lambda>c3. Inr (Inr sid, upd_manager updateAppIdleState c3)))))"

definition createNextBidirectionalStream :: "nat option \<Rightarrow> quic_conn \<Rightarrow> stream_error + (local_error + nat) \<times> quic_conn" where
  "createNextBidirectionalStream grp c =
     bind_result (createStream (nextBidirectionalStreamId (qc_manager c)) grp c) (\<lambda>(r, c1).
       case r of
         Inl e \<Rightarrow> Inr (Inl e, c1)
       | Inr sid \<Rightarrow> Inr (Inr sid, upd_manager (\<lambda>m. m\<lparr>nextBidirectionalStreamId :=
             add64 (nextBidirectionalStreamId m) kStreamIncrement\<rparr>) c1))"

definition createNextUnidirectionalStream :: "nat option \<Rightarrow> quic_conn \<Rightarrow> stream_error + (local_error + nat) \<times> quic_conn" where
  "createNextUnidirectionalStream grp c =
     bind_result (createStream (nextUnidirectionalStreamId (qc_manager c)) grp c) (\<lambda>(r, c1).
       case r of
         Inl e \<Rightarrow> Inr (Inl e, c1)
       | Inr sid \<Rightarrow> Inr (Inr sid, upd_manager (\<lambda>m. m\<lparr>nextUnidirectionalStreamId :=
             add64 (nextUnidirectionalStreamId m) kStreamIncrement\<rparr>) c1))"

definition createNextStreamGroup ::
    "transport_settings \<Rightarrow> nat \<Rightarrow> stream_id_set \<Rightarrow> stream_error + (local_error + nat) \<times> nat \<times> stream_id_set" where
  "createNextStreamGroup ts g groups =
     (if g \<ge> min (mul64 (ts_advertisedMaxStreamGroups ts) kStreamIncrement) kMaxStreamGroupId
      then Inr (Inl STREAM_LIMIT_EXCEEDED, g, groups)
      else bind_result (ss_add g groups) (\<lambda>groups1. Inr (Inr g, g + kStreamIncrement, groups1)))"

definition createNextBidirectionalStreamGroup :: "quic_conn \<Rightarrow> stream_error + (local_error + nat) \<times> quic_conn" where
  "createNextBidirectionalStreamGroup c =
     (let m = qc_manager c
      in bind_result (createNextStreamGroup (qc_settings c) (nextBidirectionalStreamGroupId m) (openBidirectionalLocalStreamGroups m))
           (\<lambda>(r, g, groups). Inr (r, c\<lparr>qc_manager :=
              m\<lparr>nextBidirectionalStreamGroupId := g, openBidirectionalLocalStreamGroups := groups\<rparr>\<rparr>)))"

definition createNextUnidirectionalStreamGroup :: "quic_conn \<Rightarrow> stream_error + (local_error + nat) \<times> quic_conn" where
  "createNextUnidirectionalStreamGroup c =
     (let m = qc_manager c
      in bind_result (createNextStreamGroup (qc_settings c) (nextUnidirectionalStreamGroupId m) (openUnidirectionalLocalStreamGroups m))
           (\<lambda>(r, g, groups). Inr (r, c\<lparr>qc_manager :=
              m\<lparr>nextUnidirectionalStreamGroupId := g, openUnidirectionalLocalStreamGroups := groups\<rparr>\<rparr>)))"

section \<open>Removing streams\<close>

text \<open>The part of \<open>removeClosedStream\<close> that hands a closed peer stream's place back to the peer.\<close>

definition streamCredit :: "nat \<Rightarrow> nat \<Rightarrow> nat \<Rightarrow> nat" where
  "streamCredit initialLimit openable opened = sub64 (sub64 initialLimit openable) opened"

definition returnUniCredit :: "quic_conn \<Rightarrow> stream_manager \<Rightarrow> stream_error + stream_manager" where
  "returnUniCredit c m =
     (let initialLimit = ts_advertisedInitialMaxStreamsUni (qc_settings c);
          streamWindow = initialLimit div streamLimitWindowingFraction m
      in bind_result (openableStreams (maxRemoteUnidirectionalStreamId m) (nextAcceptablePeerUnidirectionalStreamId m))
        (\<lambda>openable.
           let credit = streamCredit initialLimit openable (ss_size (openUnidirectionalPeerStreams m));
               maxStreams = sub64 (maxRemoteUnidirectionalStreamId m) (initialRemoteUnidirectionalStreamId m) div kStreamIncrement
           in if credit \<ge> streamWindow
              then bind_result (setMaxRemoteUnidirectionalStreams (add64 maxStreams credit) m) (\<lambda>m1.
                     Inr (m1\<lparr>remoteUnidirectionalStreamLimitUpdate := Some (add64 maxStreams credit)\<rparr>))
              else Inr m))"

definition returnBidiCredit :: "quic_conn \<Rightarrow> stream_manager \<Rightarrow> stream_error + stream_manager" where
  "returnBidiCredit c m =
     (let initialLimit = ts_advertisedInitialMaxStreamsBidi (qc_settings c);
          streamWindow = initialLimit div streamLimitWindowingFraction m
      in bind_result (openableStreams (maxRemoteBidirectionalStreamId m) (nextAcceptablePeerBidirectionalStreamId m))
        (\<lambda>openable.
           let credit = streamCredit initialLimit openable (ss_size (openBidirectionalPeerStreams m));
               maxStreams = sub64 (maxRemoteBidirectionalStreamId m) (initialRemoteBidirectionalStreamId m) div kStreamIncrement
           in if credit \<ge> streamWindow
              then bind_result (setMaxRemoteBidirectionalStreams (add64 maxStreams credit) m) (\<lambda>m1.
                     Inr (m1\<lparr>remoteBidirectionalStreamLimitUpdate := Some (add64 maxStreams credit)\<rparr>))
              else Inr m))"

definition closeId :: "nat \<Rightarrow> quic_conn \<Rightarrow> stream_manager \<Rightarrow> stream_error + stream_manager" where
  "closeId sid c m =
     (if isRemoteStream (qc_nodeType c) sid
      then if isUnidirectionalStream sid
           then bind_result (ss_remove sid (openUnidirectionalPeerStreams m)) (\<lambda>s1.
                  returnUniCredit c (m\<lparr>openUnidirectionalPeerStreams := s1\<rparr>))
           else bind_result (ss_remove sid (openBidirectionalPeerStreams m)) (\<lambda>s1.
                  returnBidiCredit c (m\<lparr>openBidirectionalPeerStreams := s1\<rparr>))
      else if isUnidirectionalStream sid
           then bind_result (ss_remove sid (openUnidirectionalLocalStreams m)) (\<lambda>s1.
                  Inr (m\<lparr>openUnidirectionalLocalStreams := s1\<rparr>))
           else bind_result (ss_remove sid (openBidirectionalLocalStreams m)) (\<lambda>s1.
                  Inr (m\<lparr>openBidirectionalLocalStreams := s1\<rparr>)))"

text \<open>The part that takes the stream out of the sets of streams with work to do.\<close>

definition forgetStream :: "nat \<Rightarrow> quic_stream \<Rightarrow> quic_conn \<Rightarrow> stream_manager" where
  "forgetStream sid s c =
     (let m = qc_manager (removeFromReadableStreams sid c);
          m1 = removeWritable s (m\<lparr>peekableStreams := peekableStreams m - {sid}\<rparr>)
      in m1\<lparr>blockedStreams := Mapping.delete sid (blockedStreams m1),
            deliverableStreams := deliverableStreams m1 - {sid}, txStreams := txStreams m1 - {sid},
            windowUpdates := windowUpdates m1 - {sid},
            stopSendingStreams := Mapping.delete sid (stopSendingStreams m1),
            flowControlUpdated := flowControlUpdated m1 - {sid}\<rparr>)"

definition removeClosedStream :: "nat \<Rightarrow> quic_conn \<Rightarrow> stream_error + quic_conn" where
  "removeClosedStream sid c =
     (case findStream sid (qc_manager c) of
        None \<Rightarrow> Inr c
      | Some s \<Rightarrow>
          let m = forgetStream sid s c
          in bind_result
               (if isControl s then Inr (m\<lparr>numControlStreams := sub64 (numControlStreams m) 1\<rparr>)
                else if Mapping.lookup (streamPriorityLevelsNoCtrl m) sid = None then Inl Stream_state_error
                else Inr (m\<lparr>streamPriorityLevelsNoCtrl := Mapping.delete sid (streamPriorityLevelsNoCtrl m)\<rparr>))
               (\<lambda>m1. bind_result (closeId sid c (m1\<lparr>sm_streams := Mapping.delete sid (sm_streams m1)\<rparr>))
               (\<lambda>m2. Inr (c\<lparr>qc_manager := notifyStreamPriorityChanges (updateAppIdleState m2)\<rparr>))))"

definition clearOpenStreams :: "stream_manager \<Rightarrow> stream_manager" where
  "clearOpenStreams m =
     m\<lparr>openBidirectionalLocalStreams := ss_clear (openBidirectionalLocalStreams m),
       openUnidirectionalLocalStreams := ss_clear (openUnidirectionalLocalStreams m),
       openBidirectionalPeerStreams := ss_clear (openBidirectionalPeerStreams m),
       openUnidirectionalPeerStreams := ss_clear (openUnidirectionalPeerStreams m),
       openBidirectionalLocalStreamGroups := ss_clear (openBidirectionalLocalStreamGroups m),
       openUnidirectionalLocalStreamGroups := ss_clear (openUnidirectionalLocalStreamGroups m),
       peerUnidirectionalStreamGroupsSeen := ss_clear (peerUnidirectionalStreamGroupsSeen m),
       peerBidirectionalStreamGroupsSeen := ss_clear (peerBidirectionalStreamGroupsSeen m),
       sm_streams := Mapping.empty\<rparr>"

section \<open>Construction and migration\<close>

definition blankManager :: stream_manager where
  "blankManager =
     \<lparr>nextAcceptablePeerBidirectionalStreamId = 0, nextAcceptablePeerUnidirectionalStreamId = 0,
      nextAcceptableLocalBidirectionalStreamId = 0, nextAcceptableLocalUnidirectionalStreamId = 0,
      nextBidirectionalStreamId = 0, nextUnidirectionalStreamId = 0,
      nextBidirectionalStreamGroupId = 0, nextUnidirectionalStreamGroupId = 0,
      maxLocalBidirectionalStreamId = 0, maxLocalUnidirectionalStreamId = 0,
      maxRemoteBidirectionalStreamId = 0, maxRemoteUnidirectionalStreamId = 0,
      initialLocalBidirectionalStreamId = 0, initialLocalUnidirectionalStreamId = 0,
      initialRemoteBidirectionalStreamId = 0, initialRemoteUnidirectionalStreamId = 0,
      streamLimitWindowingFraction = 2,
      remoteBidirectionalStreamLimitUpdate = None, remoteUnidirectionalStreamLimitUpdate = None,
      numControlStreams = 0,
      openBidirectionalPeerStreams = newStreamIdSet 0, openUnidirectionalPeerStreams = newStreamIdSet 0,
      openBidirectionalLocalStreams = newStreamIdSet 0, openUnidirectionalLocalStreams = newStreamIdSet 0,
      openBidirectionalLocalStreamGroups = newStreamIdSet 0, openUnidirectionalLocalStreamGroups = newStreamIdSet 0,
      sm_streams = Mapping.empty, newPeerStreams = [], newGroupedPeerStreams = [], newPeerStreamGroups = {},
      peerUnidirectionalStreamGroupsSeen = newStreamIdSet 0, peerBidirectionalStreamGroupsSeen = newStreamIdSet 0,
      blockedStreams = Mapping.empty, stopSendingStreams = Mapping.empty, streamPriorityLevelsNoCtrl = Mapping.empty,
      windowUpdates = {}, flowControlUpdated = {}, lossStreams = {}, lossDSRStreams = {}, readableStreams = {},
      unidirectionalReadableStreams = {}, peekableStreams = {}, writeQueue = newPriorityQueue, controlWriteQueue = {},
      writableStreams = {}, writableDSRStreams = {}, txStreams = {}, deliverableStreams = {}, closedStreams = {},
      isAppIdle = False, maxLocalBidirectionalStreamIdIncreased = False, maxLocalUnidirectionalStreamIdIncreased = False,
      sm_hasObserver = False, sm_appIdleCalls = [], sm_priorityNotifications = 0\<rparr>"

definition newQuicStreamManager :: "node_type \<Rightarrow> transport_settings \<Rightarrow> stream_error + stream_manager" where
  "newQuicStreamManager node ts =
     (let peerBidi = (if node = Server then 0 else 1); peerUni = (if node = Server then 2 else 3);
          localBidi = (if node = Server then 1 else 0); localUni = (if node = Server then 3 else 2);
          m = blankManager
            \<lparr>nextAcceptablePeerBidirectionalStreamId := peerBidi, nextAcceptablePeerUnidirectionalStreamId := peerUni,
             nextAcceptableLocalBidirectionalStreamId := localBidi, nextAcceptableLocalUnidirectionalStreamId := localUni,
             nextBidirectionalStreamId := localBidi, nextUnidirectionalStreamId := localUni,
             initialLocalBidirectionalStreamId := localBidi, initialLocalUnidirectionalStreamId := localUni,
             initialRemoteBidirectionalStreamId := peerBidi, initialRemoteUnidirectionalStreamId := peerUni,
             peerUnidirectionalStreamGroupsSeen := newStreamIdSet peerUni,
             peerBidirectionalStreamGroupsSeen := newStreamIdSet peerBidi,
             nextBidirectionalStreamGroupId := localBidi, nextUnidirectionalStreamGroupId := localUni,
             openBidirectionalLocalStreams := newStreamIdSet localBidi,
             openUnidirectionalLocalStreams := newStreamIdSet localUni,
             openBidirectionalPeerStreams := newStreamIdSet peerBidi,
             openUnidirectionalPeerStreams := newStreamIdSet peerUni,
             openBidirectionalLocalStreamGroups := newStreamIdSet localBidi,
             openUnidirectionalLocalStreamGroups := newStreamIdSet localUni\<rparr>
      in bind_result (refreshTransportSettings ts m) (\<lambda>m1.
           Inr (m1\<lparr>writeQueue := setMaxNextsPerStream (ts_priorityQueueWritesPerStream ts) (writeQueue m1)\<rparr>)))"

text \<open>
  The constructor that takes another manager's state over. What it does not mention keeps
  its default: the set of bidirectional peer groups seen, and the observer.
\<close>

definition migrateStreamManager :: "stream_manager \<Rightarrow> stream_manager" where
  "migrateStreamManager other =
     other\<lparr>peerBidirectionalStreamGroupsSeen := newStreamIdSet 0, sm_hasObserver := False,
           sm_appIdleCalls := [], sm_priorityNotifications := 0\<rparr>"

text \<open>A connection with the default windows, for examples.\<close>

definition sampleConn :: "node_type \<Rightarrow> transport_settings \<Rightarrow> quic_conn" where
  "sampleConn node ts =
     \<lparr>qc_nodeType = node, qc_settings = ts,
      qc_flow = \<lparr>cf_windowSize = 1048576, cf_advertisedMaxOffset = 1048576, cf_peerAdvertisedMaxOffset = 1048576,
        cf_sumCurReadOffset = 0, cf_sumMaxObservedOffset = 0, cf_sumCurWriteOffset = 0, cf_sumCurStreamBufferLen = 0,
        cf_peerAdvertisedInitialMaxStreamOffsetBidiLocal = 66560, cf_peerAdvertisedInitialMaxStreamOffsetBidiRemote = 66560,
        cf_peerAdvertisedInitialMaxStreamOffsetUni = 66560, cf_timeOfLastFlowControlUpdate = None\<rparr>,
      qc_connWindowUpdate = False, qc_sendDataBlocked = False, qc_resets = Mapping.empty, qc_srtt = 0,
      qc_manager = blankManager, qc_totalBytesRetransmitted = 0, qc_totalStreamBytesCloned = 0,
      qc_retransmissionPolicies = Mapping.empty\<rparr>"

lemma sampleConn_simps [simp]:
  "qc_nodeType (sampleConn node ts) = node" "qc_settings (sampleConn node ts) = ts"
  by (simp_all add: sampleConn_def)

end
