(* ===== verification/Manager_Invariant.thy ===== *)
theory Manager_Invariant
  imports Stream_Manager
begin

text \<open>
  What the stream manager guarantees about identifiers: the streams open at any moment, the
  limits the peer was given and the credit it gets back, over any sequence of operations;
  and what the constructor that takes over another manager's state loses.
\<close>

section \<open>Opening and closing under a limit\<close>

text \<open>
  The invariant of one kind of peer stream: the open identifiers are below the next
  acceptable one, that one is at most the limit, and the streams open or still openable
  never exceed the limit announced at first.
\<close>

definition peer_ok :: "nat \<Rightarrow> nat \<Rightarrow> stream_id_set \<Rightarrow> nat \<Rightarrow> nat \<Rightarrow> bool" where
  "peer_ok b lim os nxt mx \<longleftrightarrow>
     b < kStreamIncrement \<and> ss_inv os \<and> ss_base os = b \<and> nxt mod kStreamIncrement = b \<and> mx mod kStreamIncrement = b \<and>
     nxt \<le> mx \<and> mx \<le> kMaxMaxStreams * kStreamIncrement + b \<and>
     ss_ids os \<subseteq> {i. i < nxt \<and> i mod kStreamIncrement = b} \<and>
     (mx - nxt) div kStreamIncrement + card (ss_ids os) \<le> lim \<and> lim \<le> kMaxMaxStreams"

text \<open>Of one kind of local stream: the same without a count.\<close>

definition local_ok :: "nat \<Rightarrow> stream_id_set \<Rightarrow> nat \<Rightarrow> bool" where
  "local_ok b os nxt \<longleftrightarrow>
     b < kStreamIncrement \<and> ss_inv os \<and> ss_base os = b \<and> nxt mod kStreamIncrement = b \<and>
     nxt \<le> kMaxMaxStreams * kStreamIncrement + b \<and> ss_ids os \<subseteq> {i. i < nxt \<and> i mod kStreamIncrement = b}"

lemma peer_ok_finite: "peer_ok b lim os nxt mx \<Longrightarrow> finite (ss_ids os)"
  by (rule finite_subset [of _ "{..<nxt}"]) (auto simp: peer_ok_def)

lemma limit_small: "b < kStreamIncrement \<Longrightarrow> kMaxMaxStreams * kStreamIncrement + b < 2 ^ 63"
  by (simp add: kMaxMaxStreams_def kStreamIncrement_def)

lemma mod_step_le:
  assumes "sid < mx" "sid mod kStreamIncrement = mx mod kStreamIncrement"
  shows "sid + kStreamIncrement \<le> mx"
proof -
  have "kStreamIncrement dvd mx - sid" using assms by (metis less_imp_le mod_eq_dvd_iff_nat)
  then have "kStreamIncrement \<le> mx - sid" using assms(1) by (intro dvd_imp_le) simp_all
  then show ?thesis using assms(1) by simp
qed

lemma ids_between_card:
  assumes "nxt \<le> sid" "nxt mod kStreamIncrement = b" "sid mod kStreamIncrement = b"
  shows "card {i. nxt \<le> i \<and> i \<le> sid \<and> i mod kStreamIncrement = b} = Suc ((sid - nxt) div kStreamIncrement)"
proof -
  have "{i. nxt \<le> i \<and> i \<le> sid \<and> i mod kStreamIncrement = b} =
      (\<lambda>k. nxt + kStreamIncrement * k) ` {..(sid - nxt) div kStreamIncrement}" (is "?A = ?B")
  proof (intro equalityI subsetI)
    fix i assume "i \<in> ?A"
    then have "nxt \<le> i" "i \<le> sid" "i mod kStreamIncrement = nxt mod kStreamIncrement" using assms(2) by auto
    moreover from this obtain k where k: "i = nxt + kStreamIncrement * k"
      by (metis le_add_diff_inverse mod_eq_dvd_iff_nat dvdE)
    ultimately have "k \<le> (sid - nxt) div kStreamIncrement"
      using div_le_mono [of "i - nxt" "sid - nxt" kStreamIncrement] by simp
    with k show "i \<in> ?B" by auto
  next
    fix i assume "i \<in> ?B"
    then obtain k where k: "k \<le> (sid - nxt) div kStreamIncrement" "i = nxt + kStreamIncrement * k" by auto
    have "kStreamIncrement * k \<le> sid - nxt"
      using mult_le_mono2 [OF k(1), of kStreamIncrement] times_div_less_eq_dividend [of kStreamIncrement "sid - nxt"] by linarith
    then show "i \<in> ?A" using k assms by auto
  qed
  moreover have "inj_on (\<lambda>k. nxt + kStreamIncrement * k) {..(sid - nxt) div kStreamIncrement}"
    by (auto intro!: inj_onI simp: kStreamIncrement_def)
  ultimately show ?thesis by (simp add: card_image)
qed

lemma openable_split:
  fixes nxt sid mx :: nat
  assumes "nxt \<le> sid" "sid + kStreamIncrement \<le> mx" "sid mod kStreamIncrement = nxt mod kStreamIncrement"
    "mx mod kStreamIncrement = nxt mod kStreamIncrement"
  shows "(mx - (sid + kStreamIncrement)) div kStreamIncrement + Suc ((sid - nxt) div kStreamIncrement) =
      (mx - nxt) div kStreamIncrement"
proof -
  obtain k where k: "sid = nxt + kStreamIncrement * k"
    using assms(1,3) by (metis le_add_diff_inverse mod_eq_dvd_iff_nat dvdE)
  have "mx mod kStreamIncrement = (sid + kStreamIncrement) mod kStreamIncrement" using assms by simp
  then obtain j where j: "mx = sid + kStreamIncrement + kStreamIncrement * j"
    using assms(2) by (metis le_add_diff_inverse mod_eq_dvd_iff_nat dvdE)
  have "mx - nxt = kStreamIncrement * (k + 1 + j)" using k j by (simp add: algebra_simps)
  then show ?thesis using k j by (simp del: mult_Suc_right)
qed

lemma open_peer_ok:
  assumes ok: "peer_ok b lim os nxt mx" and sid: "sid mod kStreamIncrement = b"
  shows "\<exists>r os' nxt' created. openPeerStreamIfNotClosed sid os nxt mx = Inr (r, os', nxt', created) \<and>
    (if sid < nxt then r = CREATING_EXISTING_STREAM \<and> os' = os \<and> nxt' = nxt \<and> created = []
     else if mx \<le> sid then r = STREAM_LIMIT_EXCEEDED \<and> os' = os \<and> nxt' = nxt \<and> created = []
     else r = NO_ERROR \<and> peer_ok b lim os' nxt' mx \<and> nxt' = sid + kStreamIncrement \<and>
       ss_ids os' = ss_ids os \<union> {i. nxt \<le> i \<and> i \<le> sid \<and> i mod kStreamIncrement = b} \<and>
       created = ids_upto nxt sid)"
proof (cases "sid < nxt \<or> mx \<le> sid")
  case True
  then show ?thesis using ok by (auto simp: openPeerStreamIfNotClosed_def peer_ok_def)
next
  case False
  then have lt: "nxt \<le> sid" "sid < mx" by simp_all
  have "mx < 2 ^ 63" using ok limit_small by (auto simp: peer_ok_def intro: le_less_trans)
  then have typed: "ss_typed os nxt" "ss_typed os sid" using ok sid lt by (auto simp: ss_typed_def peer_ok_def)
  have inv: "ss_inv os" "ss_base os = b" using ok by (simp_all add: peer_ok_def)
  let ?N = "{i. nxt \<le> i \<and> i \<le> sid \<and> i mod kStreamIncrement = b}"
  obtain os' where os': "ss_add_range nxt sid os = Inr os'" "ss_inv os'" "ss_base os' = b" "ss_ids os' = ss_ids os \<union> ?N"
    using ss_add_range_ok [OF inv(1) typed lt(1)] inv(2) by auto
  have step: "sid + kStreamIncrement \<le> mx" using mod_step_le [OF lt(2)] sid ok by (simp add: peer_ok_def)
  have fin: "finite (ss_ids os)" by (rule peer_ok_finite [OF ok])
  have disj: "ss_ids os \<inter> ?N = {}" using ok by (auto simp: peer_ok_def)
  have "card (ss_ids os') = card (ss_ids os) + Suc ((sid - nxt) div kStreamIncrement)"
    using card_Un_disjoint [OF fin _ disj] ids_between_card [OF lt(1)] ok sid os'(4) by (simp add: peer_ok_def)
  moreover have "(mx - (sid + kStreamIncrement)) div kStreamIncrement + Suc ((sid - nxt) div kStreamIncrement) =
      (mx - nxt) div kStreamIncrement"
    using openable_split [OF lt(1) step] ok sid by (simp add: peer_ok_def)
  ultimately have "(mx - (sid + kStreamIncrement)) div kStreamIncrement + card (ss_ids os') \<le> lim"
    using ok unfolding peer_ok_def by linarith
  moreover have "ss_ids os' \<subseteq> {i. i < sid + kStreamIncrement \<and> i mod kStreamIncrement = b}"
    using ok lt os'(4) by (fastforce simp: peer_ok_def)
  ultimately have "peer_ok b lim os' (sid + kStreamIncrement) mx"
    using ok os'(2,3) step sid by (simp add: peer_ok_def)
  moreover have "openPeerStreamIfNotClosed sid os nxt mx = Inr (NO_ERROR, os', sid + kStreamIncrement, ids_upto nxt sid)"
    using os'(1) lt by (simp add: openPeerStreamIfNotClosed_def)
  ultimately show ?thesis using os'(4) lt by simp
qed

lemma open_local_ok:
  assumes ok: "local_ok b os nxt" and sid: "sid mod kStreamIncrement = b"
    and mx: "mx \<le> kMaxMaxStreams * kStreamIncrement + b" "mx mod kStreamIncrement = b"
  shows "\<exists>r os' nxt'. openLocalStreamIfNotClosed sid os nxt mx = Inr (r, os', nxt') \<and> local_ok b os' nxt' \<and>
    ss_ids os \<subseteq> ss_ids os' \<and> (r = NO_ERROR \<longrightarrow> sid \<in> ss_ids os') \<and>
    (r = NO_ERROR) = (nxt \<le> sid \<and> sid < mx)"
proof (cases "sid < nxt \<or> mx \<le> sid")
  case True
  then show ?thesis using ok by (auto simp: openLocalStreamIfNotClosed_def)
next
  case False
  then have lt: "nxt \<le> sid" "sid < mx" by simp_all
  have "mx < 2 ^ 63" using ok mx(1) limit_small by (auto simp: local_ok_def intro: le_less_trans)
  then have typed: "ss_typed os nxt" "ss_typed os sid" using ok sid lt by (auto simp: ss_typed_def local_ok_def)
  have inv: "ss_inv os" "ss_base os = b" using ok by (simp_all add: local_ok_def)
  obtain os' where os': "ss_add_range nxt sid os = Inr os'" "ss_inv os'" "ss_base os' = b"
      "ss_ids os' = ss_ids os \<union> {i. nxt \<le> i \<and> i \<le> sid \<and> i mod kStreamIncrement = b}"
    using ss_add_range_ok [OF inv(1) typed lt(1)] inv(2) by auto
  have step: "sid + kStreamIncrement \<le> mx" using mod_step_le [OF lt(2)] sid mx by simp
  have "ss_ids os' \<subseteq> {i. i < sid + kStreamIncrement \<and> i mod kStreamIncrement = b}"
    using ok lt os'(4) by (fastforce simp: local_ok_def)
  then have "local_ok b os' (sid + kStreamIncrement)"
    using ok os'(2,3) step mx sid by (simp add: local_ok_def)
  moreover have "openLocalStreamIfNotClosed sid os nxt mx = Inr (NO_ERROR, os', sid + kStreamIncrement)"
    using os'(1) lt by (simp add: openLocalStreamIfNotClosed_def)
  moreover have "sid \<in> ss_ids os'" "ss_ids os \<subseteq> ss_ids os'" using os'(4) lt sid by auto
  ultimately show ?thesis using lt by simp
qed

text \<open>Closing a peer stream and returning the credit.\<close>

lemma peer_ok_remove:
  assumes ok: "peer_ok b lim os nxt mx" and sid: "sid \<in> ss_ids os"
  shows "\<exists>os'. ss_remove sid os = Inr os' \<and> peer_ok b lim os' nxt mx \<and> ss_ids os' = ss_ids os - {sid}"
proof -
  have "mx < 2 ^ 63" using ok limit_small by (auto simp: peer_ok_def intro: le_less_trans)
  then have "ss_typed os sid" using ok sid by (auto simp: ss_typed_def peer_ok_def)
  then obtain os' where os': "ss_remove sid os = Inr os'" "ss_inv os'" "ss_base os' = b" "ss_ids os' = ss_ids os - {sid}"
    using ss_remove_ok [of os sid] ok by (auto simp: peer_ok_def)
  have "finite (ss_ids os)" by (rule peer_ok_finite [OF ok])
  then have "card (ss_ids os') \<le> card (ss_ids os)" using os'(4) by (simp add: card_mono)
  then have "peer_ok b lim os' nxt mx" using ok os' by (auto simp: peer_ok_def)
  then show ?thesis using os' by blast
qed

lemma local_ok_remove:
  assumes ok: "local_ok b os nxt" and sid: "sid \<in> ss_ids os"
  shows "\<exists>os'. ss_remove sid os = Inr os' \<and> local_ok b os' nxt \<and> ss_ids os' = ss_ids os - {sid}"
proof -
  have "nxt < 2 ^ 63" using ok limit_small by (auto simp: local_ok_def intro: le_less_trans)
  then have "ss_typed os sid" using ok sid by (auto simp: ss_typed_def local_ok_def)
  then obtain os' where os': "ss_remove sid os = Inr os'" "ss_inv os'" "ss_base os' = b" "ss_ids os' = ss_ids os - {sid}"
    using ss_remove_ok [of os sid] ok by (auto simp: local_ok_def)
  then have "local_ok b os' nxt" using ok by (auto simp: local_ok_def)
  then show ?thesis using os' by blast
qed

lemma peer_credit:
  assumes ok: "peer_ok b lim os nxt mx"
  defines "openable \<equiv> (mx - nxt) div kStreamIncrement"
  defines "credit \<equiv> lim - openable - card (ss_ids os)"
  defines "maxStreams \<equiv> (mx - b) div kStreamIncrement"
  shows "openableStreams mx nxt = Inr openable"
    and "streamCredit lim openable (ss_size os) = credit"
    and "sub64 mx b div kStreamIncrement = maxStreams"
    and "add64 maxStreams credit = maxStreams + credit"
    and "mx = maxStreams * kStreamIncrement + b"
    and "openable + card (ss_ids os) \<le> lim"
proof -
  have b: "b < kStreamIncrement" "mx mod kStreamIncrement = b" "nxt \<le> mx" "lim \<le> kMaxMaxStreams"
    and mx: "mx \<le> kMaxMaxStreams * kStreamIncrement + b" and inv: "ss_inv os"
    and sum: "openable + card (ss_ids os) \<le> lim"
    using ok by (simp_all add: peer_ok_def openable_def)
  have small: "lim < 2 ^ 62" "mx < 2 ^ 63"
    using b(4) limit_small [OF b(1)] mx by (simp_all add: kMaxMaxStreams_def)
  show "openableStreams mx nxt = Inr openable" using b(3) by (simp add: openableStreams_def openable_def)
  show "openable + card (ss_ids os) \<le> lim" by (rule sum)
  have "sub64 lim openable = lim - openable" using sum small by (intro sub64_eq) simp_all
  moreover have "sub64 (lim - openable) (card (ss_ids os)) = credit"
    using sum small by (simp add: credit_def sub64_eq)
  ultimately show "streamCredit lim openable (ss_size os) = credit"
    using ss_size_card [OF inv] by (simp add: streamCredit_def)
  have "mx - b = mx div kStreamIncrement * kStreamIncrement"
    using b(2) minus_mod_eq_div_mult [of mx kStreamIncrement] by simp
  then have "maxStreams = mx div kStreamIncrement" by (simp add: maxStreams_def)
  then show "mx = maxStreams * kStreamIncrement + b"
    using b(2) div_mult_mod_eq [of mx kStreamIncrement] by simp
  have "b \<le> mx" using b(2) by (metis mod_less_eq_dividend)
  then show "sub64 mx b div kStreamIncrement = maxStreams" using small(2) by (simp add: sub64_eq maxStreams_def)
  have "maxStreams \<le> mx" by (simp add: maxStreams_def kStreamIncrement_def)
  then show "add64 maxStreams credit = maxStreams + credit" using small by (intro add64_eq) (simp add: credit_def)
qed

lemma peer_ok_raise:
  assumes ok: "peer_ok b lim os nxt mx"
    and n: "n = (mx - b) div kStreamIncrement + (lim - (mx - nxt) div kStreamIncrement - card (ss_ids os))" "n \<le> kMaxMaxStreams"
  shows "peer_ok b lim os nxt (max mx (n * kStreamIncrement + b))"
    and "streamLimitId n b = Inr (n * kStreamIncrement + b)"
proof -
  note cr = peer_credit [OF ok]
  have b: "b < kStreamIncrement" "nxt \<le> mx" "nxt mod kStreamIncrement = b" using ok by (simp_all add: peer_ok_def)
  let ?mx = "n * kStreamIncrement + b"
  have le: "mx \<le> ?mx" using cr(5) n(1) by (metis add_le_cancel_right le_add1 mult_le_mono1)
  have "n * kStreamIncrement \<le> kMaxMaxStreams * kStreamIncrement" using n(2) by simp
  moreover have "?mx mod kStreamIncrement = b" using b(1) by simp
  moreover have "(?mx - nxt) div kStreamIncrement + card (ss_ids os) \<le> lim"
  proof -
    define d where "d = lim - (mx - nxt) div kStreamIncrement - card (ss_ids os)"
    have "?mx = mx + d * kStreamIncrement" using cr(5) n(1) by (simp add: d_def add_mult_distrib)
    moreover have "mx + d * kStreamIncrement - nxt = (mx - nxt) + d * kStreamIncrement" using b(2) by simp
    ultimately have "(?mx - nxt) div kStreamIncrement = (mx - nxt) div kStreamIncrement + d" by simp
    then show ?thesis using cr(6) by (simp add: d_def)
  qed
  ultimately show "peer_ok b lim os nxt (max mx ?mx)" using ok le by (simp add: peer_ok_def max_absorb2)
  have "n * 4 < 2 ^ 63" using n(2) by (simp add: kMaxMaxStreams_def)
  then show "streamLimitId n b = Inr ?mx"
    using n(2) b(1) by (simp add: streamLimitId_def mul64_eq add64_eq kStreamIncrement_def)
qed

lemma returnBidiCredit_ok:
  assumes ok: "peer_ok b (ts_advertisedInitialMaxStreamsBidi (qc_settings c)) (openBidirectionalPeerStreams m)
      (nextAcceptablePeerBidirectionalStreamId m) (maxRemoteBidirectionalStreamId m)"
    and b: "initialRemoteBidirectionalStreamId m = b"
  shows "case returnBidiCredit c m of
      Inl e \<Rightarrow> e = Stream_limit_error
    | Inr m' \<Rightarrow> \<exists>mx u. m' = m\<lparr>maxRemoteBidirectionalStreamId := mx, remoteBidirectionalStreamLimitUpdate := u\<rparr> \<and>
        maxRemoteBidirectionalStreamId m \<le> mx \<and>
        peer_ok b (ts_advertisedInitialMaxStreamsBidi (qc_settings c)) (openBidirectionalPeerStreams m)
          (nextAcceptablePeerBidirectionalStreamId m) mx"
proof -
  let ?mx = "maxRemoteBidirectionalStreamId m" and ?lim = "ts_advertisedInitialMaxStreamsBidi (qc_settings c)"
  note cr = peer_credit [OF ok]
  define n where "n = (?mx - b) div kStreamIncrement +
    (?lim - (?mx - nextAcceptablePeerBidirectionalStreamId m) div kStreamIncrement -
     card (ss_ids (openBidirectionalPeerStreams m)))"
  define go where "go \<longleftrightarrow> ?lim - (?mx - nextAcceptablePeerBidirectionalStreamId m) div kStreamIncrement -
     card (ss_ids (openBidirectionalPeerStreams m)) \<ge> ?lim div streamLimitWindowingFraction m"
  have ret: "returnBidiCredit c m = (if go then bind_result (setMaxRemoteBidirectionalStreams n m)
      (\<lambda>m1. Inr (m1\<lparr>remoteBidirectionalStreamLimitUpdate := Some n\<rparr>)) else Inr m)"
    unfolding returnBidiCredit_def Let_def b cr(1) bind_result.simps cr(2-4) n_def go_def by simp
  consider "\<not> go" | "go" "n \<le> kMaxMaxStreams" | "go" "\<not> n \<le> kMaxMaxStreams" by blast
  then show ?thesis
  proof cases
    case 1
    then have "returnBidiCredit c m = Inr m" using ret by simp
    then show ?thesis
      using ok by (simp only: sum.case)
        (intro exI [of _ ?mx] exI [of _ "remoteBidirectionalStreamLimitUpdate m"] conjI, simp_all)
  next
    case 2
    note r = peer_ok_raise [OF ok n_def 2(2)]
    have "setMaxRemoteBidirectionalStreams n m = Inr (m\<lparr>maxRemoteBidirectionalStreamId := max ?mx (n * kStreamIncrement + b)\<rparr>)"
      using r(2) b by (simp add: setMaxRemoteBidirectionalStreams_def setMaxRemoteBidirectionalStreamsInternal_def max_def)
    then have "returnBidiCredit c m = Inr (m\<lparr>maxRemoteBidirectionalStreamId := max ?mx (n * kStreamIncrement + b),
        remoteBidirectionalStreamLimitUpdate := Some n\<rparr>)" using ret 2(1) by simp
    then show ?thesis
      using r(1) by (simp only: sum.case)
        (intro exI [of _ "max ?mx (n * kStreamIncrement + b)"] exI [of _ "Some n"] conjI, simp_all)
  next
    case 3
    then show ?thesis
      using ret by (simp add: setMaxRemoteBidirectionalStreams_def setMaxRemoteBidirectionalStreamsInternal_def streamLimitId_def)
  qed
qed

lemma returnUniCredit_ok:
  assumes ok: "peer_ok b (ts_advertisedInitialMaxStreamsUni (qc_settings c)) (openUnidirectionalPeerStreams m)
      (nextAcceptablePeerUnidirectionalStreamId m) (maxRemoteUnidirectionalStreamId m)"
    and b: "initialRemoteUnidirectionalStreamId m = b"
  shows "case returnUniCredit c m of
      Inl e \<Rightarrow> e = Stream_limit_error
    | Inr m' \<Rightarrow> \<exists>mx u. m' = m\<lparr>maxRemoteUnidirectionalStreamId := mx, remoteUnidirectionalStreamLimitUpdate := u\<rparr> \<and>
        maxRemoteUnidirectionalStreamId m \<le> mx \<and>
        peer_ok b (ts_advertisedInitialMaxStreamsUni (qc_settings c)) (openUnidirectionalPeerStreams m)
          (nextAcceptablePeerUnidirectionalStreamId m) mx"
proof -
  let ?mx = "maxRemoteUnidirectionalStreamId m" and ?lim = "ts_advertisedInitialMaxStreamsUni (qc_settings c)"
  note cr = peer_credit [OF ok]
  define n where "n = (?mx - b) div kStreamIncrement +
    (?lim - (?mx - nextAcceptablePeerUnidirectionalStreamId m) div kStreamIncrement -
     card (ss_ids (openUnidirectionalPeerStreams m)))"
  define go where "go \<longleftrightarrow> ?lim - (?mx - nextAcceptablePeerUnidirectionalStreamId m) div kStreamIncrement -
     card (ss_ids (openUnidirectionalPeerStreams m)) \<ge> ?lim div streamLimitWindowingFraction m"
  have ret: "returnUniCredit c m = (if go then bind_result (setMaxRemoteUnidirectionalStreams n m)
      (\<lambda>m1. Inr (m1\<lparr>remoteUnidirectionalStreamLimitUpdate := Some n\<rparr>)) else Inr m)"
    unfolding returnUniCredit_def Let_def b cr(1) bind_result.simps cr(2-4) n_def go_def by simp
  consider "\<not> go" | "go" "n \<le> kMaxMaxStreams" | "go" "\<not> n \<le> kMaxMaxStreams" by blast
  then show ?thesis
  proof cases
    case 1
    then have "returnUniCredit c m = Inr m" using ret by simp
    then show ?thesis
      using ok by (simp only: sum.case)
        (intro exI [of _ ?mx] exI [of _ "remoteUnidirectionalStreamLimitUpdate m"] conjI, simp_all)
  next
    case 2
    note r = peer_ok_raise [OF ok n_def 2(2)]
    have "setMaxRemoteUnidirectionalStreams n m = Inr (m\<lparr>maxRemoteUnidirectionalStreamId := max ?mx (n * kStreamIncrement + b)\<rparr>)"
      using r(2) b by (simp add: setMaxRemoteUnidirectionalStreams_def setMaxRemoteUnidirectionalStreamsInternal_def max_def)
    then have "returnUniCredit c m = Inr (m\<lparr>maxRemoteUnidirectionalStreamId := max ?mx (n * kStreamIncrement + b),
        remoteUnidirectionalStreamLimitUpdate := Some n\<rparr>)" using ret 2(1) by simp
    then show ?thesis
      using r(1) by (simp only: sum.case)
        (intro exI [of _ "max ?mx (n * kStreamIncrement + b)"] exI [of _ "Some n"] conjI, simp_all)
  next
    case 3
    then show ?thesis
      using ret by (simp add: setMaxRemoteUnidirectionalStreams_def setMaxRemoteUnidirectionalStreamsInternal_def streamLimitId_def)
  qed
qed

end
