(* ===== verification/Manager_Runs.thy ===== *)
theory Manager_Runs
  imports Manager_Invariant
begin

text \<open>The invariant of the whole manager, its preservation by every operation that opens or closes a stream, and the properties.\<close>

section \<open>The invariant\<close>

text \<open>The set of open streams of the kind of a stream.\<close>

definition open_of :: "node_type \<Rightarrow> stream_manager \<Rightarrow> nat \<Rightarrow> stream_id_set" where
  "open_of node m sid =
     (if isLocalStream node sid
      then if isUnidirectionalStream sid then openUnidirectionalLocalStreams m else openBidirectionalLocalStreams m
      else if isUnidirectionalStream sid then openUnidirectionalPeerStreams m else openBidirectionalPeerStreams m)"

definition limit_ok :: "nat \<Rightarrow> nat \<Rightarrow> bool" where
  "limit_ok b mx \<longleftrightarrow> mx = 0 \<or> mx \<le> kMaxMaxStreams * kStreamIncrement + b \<and> mx mod kStreamIncrement = b"

definition next_ok :: "nat \<Rightarrow> nat \<Rightarrow> bool" where
  "next_ok b nxt \<longleftrightarrow> nxt \<le> kMaxMaxStreams * kStreamIncrement + b \<and> nxt mod kStreamIncrement = b"

definition id_ok :: "node_type \<Rightarrow> transport_settings \<Rightarrow> stream_manager \<Rightarrow> bool" where
  "id_ok node ts m \<longleftrightarrow>
     initialRemoteBidirectionalStreamId m = (if node = Server then 0 else 1) \<and>
     initialRemoteUnidirectionalStreamId m = (if node = Server then 2 else 3) \<and>
     initialLocalBidirectionalStreamId m = (if node = Server then 1 else 0) \<and>
     initialLocalUnidirectionalStreamId m = (if node = Server then 3 else 2) \<and>
     peer_ok (initialRemoteBidirectionalStreamId m) (ts_advertisedInitialMaxStreamsBidi ts)
       (openBidirectionalPeerStreams m) (nextAcceptablePeerBidirectionalStreamId m) (maxRemoteBidirectionalStreamId m) \<and>
     peer_ok (initialRemoteUnidirectionalStreamId m) (ts_advertisedInitialMaxStreamsUni ts)
       (openUnidirectionalPeerStreams m) (nextAcceptablePeerUnidirectionalStreamId m) (maxRemoteUnidirectionalStreamId m) \<and>
     local_ok (initialLocalBidirectionalStreamId m) (openBidirectionalLocalStreams m) (nextAcceptableLocalBidirectionalStreamId m) \<and>
     local_ok (initialLocalUnidirectionalStreamId m) (openUnidirectionalLocalStreams m) (nextAcceptableLocalUnidirectionalStreamId m) \<and>
     limit_ok (initialLocalBidirectionalStreamId m) (maxLocalBidirectionalStreamId m) \<and>
     limit_ok (initialLocalUnidirectionalStreamId m) (maxLocalUnidirectionalStreamId m) \<and>
     next_ok (initialLocalBidirectionalStreamId m) (nextBidirectionalStreamId m) \<and>
     next_ok (initialLocalUnidirectionalStreamId m) (nextUnidirectionalStreamId m)"

lemma id_okD:
  assumes "id_ok node ts m"
  shows "peer_ok (initialRemoteBidirectionalStreamId m) (ts_advertisedInitialMaxStreamsBidi ts)
       (openBidirectionalPeerStreams m) (nextAcceptablePeerBidirectionalStreamId m) (maxRemoteBidirectionalStreamId m)"
    "peer_ok (initialRemoteUnidirectionalStreamId m) (ts_advertisedInitialMaxStreamsUni ts)
       (openUnidirectionalPeerStreams m) (nextAcceptablePeerUnidirectionalStreamId m) (maxRemoteUnidirectionalStreamId m)"
    "local_ok (initialLocalBidirectionalStreamId m) (openBidirectionalLocalStreams m) (nextAcceptableLocalBidirectionalStreamId m)"
    "local_ok (initialLocalUnidirectionalStreamId m) (openUnidirectionalLocalStreams m) (nextAcceptableLocalUnidirectionalStreamId m)"
    "next_ok (initialLocalBidirectionalStreamId m) (nextBidirectionalStreamId m)"
    "next_ok (initialLocalUnidirectionalStreamId m) (nextUnidirectionalStreamId m)"
  using assms unfolding id_ok_def by blast+

text \<open>Every stream with state is open and is stored under its identifier.\<close>

definition streams_ok :: "node_type \<Rightarrow> stream_manager \<Rightarrow> bool" where
  "streams_ok node m \<longleftrightarrow>
     (\<forall>sid s. Mapping.lookup (sm_streams m) sid = Some s \<longrightarrow> stream_id s = sid \<and> sid \<in> ss_ids (open_of node m sid))"

definition sm_inv :: "quic_conn \<Rightarrow> bool" where
  "sm_inv c \<longleftrightarrow> id_ok (qc_nodeType c) (qc_settings c) (qc_manager c) \<and> streams_ok (qc_nodeType c) (qc_manager c)"

text \<open>The fields the invariant is about; most operations leave all of them alone.\<close>

definition id_view where
  "id_view m =
     ((openBidirectionalPeerStreams m, openUnidirectionalPeerStreams m, openBidirectionalLocalStreams m, openUnidirectionalLocalStreams m),
      (nextAcceptablePeerBidirectionalStreamId m, nextAcceptablePeerUnidirectionalStreamId m,
       nextAcceptableLocalBidirectionalStreamId m, nextAcceptableLocalUnidirectionalStreamId m),
      (maxRemoteBidirectionalStreamId m, maxRemoteUnidirectionalStreamId m, maxLocalBidirectionalStreamId m, maxLocalUnidirectionalStreamId m),
      (initialRemoteBidirectionalStreamId m, initialRemoteUnidirectionalStreamId m,
       initialLocalBidirectionalStreamId m, initialLocalUnidirectionalStreamId m),
      (nextBidirectionalStreamId m, nextUnidirectionalStreamId m))"

lemma id_view_cong:
  assumes "id_view m' = id_view m"
  shows "id_ok node ts m' = id_ok node ts m" and "open_of node m' sid = open_of node m sid"
  using assms by (simp_all add: id_view_def id_ok_def open_of_def)

lemma stream_mod4: "sid mod kStreamIncrement = 2 * of_bool (isUnidirectionalStream sid) + of_bool (isServerStream sid)"
  using mod_mult2_eq [of sid 2 2] by (auto simp: kStreamIncrement_def isUnidirectionalStream_def isServerStream_def)

lemma kind_mod:
  assumes "id_ok node ts m"
  shows "sid mod kStreamIncrement =
    (if isLocalStream node sid
     then if isUnidirectionalStream sid then initialLocalUnidirectionalStreamId m else initialLocalBidirectionalStreamId m
     else if isUnidirectionalStream sid then initialRemoteUnidirectionalStreamId m else initialRemoteBidirectionalStreamId m)"
  unfolding stream_mod4 using assms
  by (cases node) (auto simp: id_ok_def isLocalStream_def isClientStream_def isServerStream_def)

lemma open_of_typed:
  assumes "id_ok node ts m" and "sid < 2 ^ 63"
  shows "ss_typed (open_of node m sid) sid" and "ss_inv (open_of node m sid)"
  using assms kind_mod [OF assms(1), of sid]
  by (auto simp: ss_typed_def open_of_def id_ok_def peer_ok_def local_ok_def)

lemma streams_ok_view:
  assumes "streams_ok node m" and "id_view m' = id_view m"
    and "sm_streams m' = map_emplace sid s0 (sm_streams m)" and "stream_id s0 = sid" and "sid \<in> ss_ids (open_of node m sid)"
  shows "streams_ok node m'"
  using assms id_view_cong(2) [OF assms(2)]
  by (auto simp: streams_ok_def map_emplace_def lookup_update' split: if_splits)

section \<open>Operations that leave the identifiers alone\<close>

lemma id_view_frame [simp]:
  "id_view (m\<lparr>sm_streams := x0\<rparr>) = id_view m"
  "id_view (m\<lparr>newPeerStreams := x1\<rparr>) = id_view m"
  "id_view (m\<lparr>newGroupedPeerStreams := x2\<rparr>) = id_view m"
  "id_view (m\<lparr>newPeerStreamGroups := x3\<rparr>) = id_view m"
  "id_view (m\<lparr>peerUnidirectionalStreamGroupsSeen := x4\<rparr>) = id_view m"
  "id_view (m\<lparr>peerBidirectionalStreamGroupsSeen := x5\<rparr>) = id_view m"
  "id_view (m\<lparr>streamPriorityLevelsNoCtrl := x6\<rparr>) = id_view m"
  "id_view (m\<lparr>numControlStreams := x7\<rparr>) = id_view m"
  "id_view (m\<lparr>nextBidirectionalStreamGroupId := x10\<rparr>) = id_view m"
  "id_view (m\<lparr>nextUnidirectionalStreamGroupId := x11\<rparr>) = id_view m"
  "id_view (m\<lparr>openBidirectionalLocalStreamGroups := x12\<rparr>) = id_view m"
  "id_view (m\<lparr>openUnidirectionalLocalStreamGroups := x13\<rparr>) = id_view m"
  "id_view (m\<lparr>readableStreams := x14\<rparr>) = id_view m"
  "id_view (m\<lparr>unidirectionalReadableStreams := x15\<rparr>) = id_view m"
  "id_view (m\<lparr>peekableStreams := x16\<rparr>) = id_view m"
  "id_view (m\<lparr>writableStreams := x17\<rparr>) = id_view m"
  "id_view (m\<lparr>writableDSRStreams := x18\<rparr>) = id_view m"
  "id_view (m\<lparr>lossStreams := x19\<rparr>) = id_view m"
  "id_view (m\<lparr>lossDSRStreams := x20\<rparr>) = id_view m"
  "id_view (m\<lparr>controlWriteQueue := x21\<rparr>) = id_view m"
  "id_view (m\<lparr>writeQueue := x22\<rparr>) = id_view m"
  "id_view (m\<lparr>blockedStreams := x23\<rparr>) = id_view m"
  "id_view (m\<lparr>deliverableStreams := x24\<rparr>) = id_view m"
  "id_view (m\<lparr>txStreams := x25\<rparr>) = id_view m"
  "id_view (m\<lparr>windowUpdates := x26\<rparr>) = id_view m"
  "id_view (m\<lparr>stopSendingStreams := x27\<rparr>) = id_view m"
  "id_view (m\<lparr>flowControlUpdated := x28\<rparr>) = id_view m"
  "id_view (m\<lparr>maxLocalBidirectionalStreamIdIncreased := x29\<rparr>) = id_view m"
  "id_view (m\<lparr>maxLocalUnidirectionalStreamIdIncreased := x30\<rparr>) = id_view m"
  by (simp_all add: id_view_def)

lemma updateAppIdleState_view [simp]:
  "id_view (updateAppIdleState m) = id_view m" "sm_streams (updateAppIdleState m) = sm_streams m"
  by (simp_all add: updateAppIdleState_def id_view_def)

lemma notify_view [simp]:
  "id_view (notifyStreamPriorityChanges m) = id_view m" "sm_streams (notifyStreamPriorityChanges m) = sm_streams m"
  by (simp_all add: notifyStreamPriorityChanges_def id_view_def)

lemma addToStreamPriorityMap_view:
  "addToStreamPriorityMap s m = Inr m' \<Longrightarrow> id_view m' = id_view m \<and> sm_streams m' = sm_streams m"
  by (auto simp: addToStreamPriorityMap_def split: if_splits)

lemma sm_inv_same:
  assumes "sm_inv c" and "qc_nodeType c' = qc_nodeType c" "qc_settings c' = qc_settings c"
    and "id_view (qc_manager c') = id_view (qc_manager c)" and "sm_streams (qc_manager c') = sm_streams (qc_manager c)"
  shows "sm_inv c'"
  using assms id_view_cong [OF assms(4)] by (simp add: sm_inv_def streams_ok_def)

lemma upd_manager_simps [simp]:
  "qc_nodeType (upd_manager f c) = qc_nodeType c" "qc_settings (upd_manager f c) = qc_settings c"
  "qc_manager (upd_manager f c) = f (qc_manager c)"
  by (simp_all add: upd_manager_def)

lemma sm_inv_idle: "sm_inv c \<Longrightarrow> sm_inv (upd_manager updateAppIdleState c)"
  by (rule sm_inv_same [of c]) (simp_all add: upd_manager_def)

lemma notePeerStreamGroup_view:
  "notePeerStreamGroup sid grp m = Inr m' \<Longrightarrow> id_view m' = id_view m \<and> sm_streams m' = sm_streams m"
  by (auto simp: notePeerStreamGroup_def bind_result_Inr Let_def split: option.splits if_splits)

lemma noteNewPeerStream_view [simp]:
  "id_view (noteNewPeerStream sid grp ts m) = id_view m" "sm_streams (noteNewPeerStream sid grp ts m) = sm_streams m"
  by (simp_all add: noteNewPeerStream_def)

lemma emplaceStream_simps [simp]:
  "qc_nodeType (emplaceStream sid grp c) = qc_nodeType c" "qc_settings (emplaceStream sid grp c) = qc_settings c"
  "id_view (qc_manager (emplaceStream sid grp c)) = id_view (qc_manager c)"
  "sm_streams (qc_manager (emplaceStream sid grp c)) = map_emplace sid (newQuicStream sid grp c) (sm_streams (qc_manager c))"
  by (simp_all add: emplaceStream_def upd_manager_def)

lemma lift_priority_view:
  assumes "lift_manager (addToStreamPriorityMap s) c = Inr c'"
  shows "qc_nodeType c' = qc_nodeType c \<and> qc_settings c' = qc_settings c \<and>
    id_view (qc_manager c') = id_view (qc_manager c) \<and> sm_streams (qc_manager c') = sm_streams (qc_manager c)"
  using assms by (auto simp: lift_manager_def bind_result_Inr dest: addToStreamPriorityMap_view)

lemma stream_id_new [simp]: "stream_id (newQuicStream sid grp c) = sid"
  by (simp add: newQuicStream_def)

lemma instantiatePeerStream_view:
  assumes "instantiatePeerStream sid grp c = Inr (r, c')"
  shows "r = Some sid \<and> qc_nodeType c' = qc_nodeType c \<and> qc_settings c' = qc_settings c \<and>
    id_view (qc_manager c') = id_view (qc_manager c) \<and>
    (\<exists>s0. stream_id s0 = sid \<and> sm_streams (qc_manager c') = map_emplace sid s0 (sm_streams (qc_manager c)))"
proof -
  obtain m where m: "notePeerStreamGroup sid grp (qc_manager c) = Inr m"
    and r: "bind_result (lift_manager (addToStreamPriorityMap (newQuicStream sid grp
        (emplaceStream sid grp (c\<lparr>qc_manager := noteNewPeerStream sid grp (qc_settings c) m\<rparr>))))
        (emplaceStream sid grp (c\<lparr>qc_manager := noteNewPeerStream sid grp (qc_settings c) m\<rparr>)))
      (\<lambda>c2. Inr (Some sid, c2)) = Inr (r, c')"
    using assms by (auto simp: instantiatePeerStream_def bind_result_Inr Let_def)
  then show ?thesis
    using notePeerStreamGroup_view [OF m] by (auto simp: bind_result_Inr dest!: lift_priority_view) (metis stream_id_new)
qed

section \<open>Opening streams keeps the invariant\<close>

lemma sm_inv_emplaced:
  assumes "sm_inv c" and "qc_nodeType c' = qc_nodeType c" "qc_settings c' = qc_settings c"
    and "id_view (qc_manager c') = id_view (qc_manager c)"
    and "sm_streams (qc_manager c') = map_emplace sid s0 (sm_streams (qc_manager c))" "stream_id s0 = sid"
    and "sid \<in> ss_ids (open_of (qc_nodeType c) (qc_manager c) sid)"
  shows "sm_inv c'"
  using assms id_view_cong(1) [OF assms(4)] streams_ok_view [OF _ assms(4,5,6), of "qc_nodeType c"]
  by (simp add: sm_inv_def)

lemma getOrCreateOpenedLocalStream_ok:
  assumes inv: "sm_inv c" and "sid < 2 ^ 63" and loc: "isLocalStream (qc_nodeType c) sid"
    and r: "getOrCreateOpenedLocalStream sid c = Inr (r, c')"
  shows "sm_inv c' \<and> qc_nodeType c' = qc_nodeType c \<and> qc_settings c' = qc_settings c \<and>
    (r = None \<longrightarrow> c' = c) \<and> (\<forall>k. r = Some k \<longrightarrow> k = sid \<and> sid \<in> ss_ids (open_of (qc_nodeType c) (qc_manager c) sid))"
proof (cases "ss_contains sid (open_of (qc_nodeType c) (qc_manager c) sid)")
  case True
  have mem: "sid \<in> ss_ids (open_of (qc_nodeType c) (qc_manager c) sid)"
    using True open_of_typed [of "qc_nodeType c" "qc_settings c" "qc_manager c" sid] inv assms(2)
    by (simp add: ss_contains_iff sm_inv_def)
  have "lift_manager (addToStreamPriorityMap (newQuicStream sid None c)) (emplaceStream sid None c) = Inr c'" "r = Some sid"
    using r True loc by (auto simp: getOrCreateOpenedLocalStream_def open_of_def bind_result_Inr Let_def split: if_splits)
  then show ?thesis
    using mem sm_inv_emplaced [OF inv, of c' sid "newQuicStream sid None c"] by (auto dest!: lift_priority_view)
next
  case False
  then show ?thesis
    using r inv loc by (auto simp: getOrCreateOpenedLocalStream_def open_of_def Let_def split: if_splits)
qed

lemma getOrCreateOpenedLocalStream_view:
  "getOrCreateOpenedLocalStream sid c = Inr (r, c') \<Longrightarrow> id_view (qc_manager c') = id_view (qc_manager c)"
  by (auto simp: getOrCreateOpenedLocalStream_def bind_result_Inr Let_def dest!: lift_priority_view split: if_splits)

lemma streams_ok_mono:
  assumes "streams_ok node m" and "sm_streams m' = sm_streams m"
    and "\<And>sid. ss_ids (open_of node m sid) \<subseteq> ss_ids (open_of node m' sid)"
  shows "streams_ok node m'"
  using assms unfolding streams_ok_def by fastforce

lemma sm_inv_replace:
  assumes "sm_inv c" and "id_ok (qc_nodeType c) (qc_settings c) m" and "sm_streams m = sm_streams (qc_manager c)"
    and "\<And>sid. ss_ids (open_of (qc_nodeType c) (qc_manager c) sid) \<subseteq> ss_ids (open_of (qc_nodeType c) m sid)"
  shows "sm_inv (c\<lparr>qc_manager := m\<rparr>)"
  using assms streams_ok_mono [of "qc_nodeType c" "qc_manager c" m] by (simp add: sm_inv_def)

text \<open>Replacing one of the four sets and its next identifier.\<close>

lemma sm_inv_set_peer_bidi:
  assumes "sm_inv c" and "m = qc_manager c"
    and "peer_ok (initialRemoteBidirectionalStreamId m) (ts_advertisedInitialMaxStreamsBidi (qc_settings c)) os nxt
           (maxRemoteBidirectionalStreamId m)"
    and "ss_ids (openBidirectionalPeerStreams m) \<subseteq> ss_ids os"
  shows "sm_inv (c\<lparr>qc_manager := m\<lparr>openBidirectionalPeerStreams := os, nextAcceptablePeerBidirectionalStreamId := nxt\<rparr>\<rparr>)"
  by (rule sm_inv_replace [OF assms(1)]) (use assms in \<open>auto simp: sm_inv_def id_ok_def open_of_def split: if_splits\<close>)

lemma sm_inv_set_peer_uni:
  assumes "sm_inv c" and "m = qc_manager c"
    and "peer_ok (initialRemoteUnidirectionalStreamId m) (ts_advertisedInitialMaxStreamsUni (qc_settings c)) os nxt
           (maxRemoteUnidirectionalStreamId m)"
    and "ss_ids (openUnidirectionalPeerStreams m) \<subseteq> ss_ids os"
  shows "sm_inv (c\<lparr>qc_manager := m\<lparr>openUnidirectionalPeerStreams := os, nextAcceptablePeerUnidirectionalStreamId := nxt\<rparr>\<rparr>)"
  by (rule sm_inv_replace [OF assms(1)]) (use assms in \<open>auto simp: sm_inv_def id_ok_def open_of_def split: if_splits\<close>)

lemma sm_inv_set_local_bidi:
  assumes "sm_inv c" and "m = qc_manager c"
    and "local_ok (initialLocalBidirectionalStreamId m) os nxt" and "ss_ids (openBidirectionalLocalStreams m) \<subseteq> ss_ids os"
  shows "sm_inv (c\<lparr>qc_manager := m\<lparr>openBidirectionalLocalStreams := os, nextAcceptableLocalBidirectionalStreamId := nxt\<rparr>\<rparr>)"
  by (rule sm_inv_replace [OF assms(1)]) (use assms in \<open>auto simp: sm_inv_def id_ok_def open_of_def split: if_splits\<close>)

lemma sm_inv_set_local_uni:
  assumes "sm_inv c" and "m = qc_manager c"
    and "local_ok (initialLocalUnidirectionalStreamId m) os nxt" and "ss_ids (openUnidirectionalLocalStreams m) \<subseteq> ss_ids os"
  shows "sm_inv (c\<lparr>qc_manager := m\<lparr>openUnidirectionalLocalStreams := os, nextAcceptableLocalUnidirectionalStreamId := nxt\<rparr>\<rparr>)"
  by (rule sm_inv_replace [OF assms(1)]) (use assms in \<open>auto simp: sm_inv_def id_ok_def open_of_def split: if_splits\<close>)

lemma openPeerStreams_ok:
  assumes inv: "sm_inv c" and rem: "\<not> isLocalStream (qc_nodeType c) sid"
  shows "\<exists>r c'. openPeerStreams sid grp c = Inr (r, c') \<and> sm_inv c' \<and> qc_nodeType c' = qc_nodeType c \<and> qc_settings c' = qc_settings c \<and>
    sm_streams (qc_manager c') = sm_streams (qc_manager c) \<and>
    (r = NO_ERROR \<longrightarrow> sid \<in> ss_ids (open_of (qc_nodeType c) (qc_manager c') sid))"
proof -
  let ?m = "qc_manager c"
  have id: "id_ok (qc_nodeType c) (qc_settings c) ?m" using inv by (simp add: sm_inv_def)
  show ?thesis
  proof (cases "isUnidirectionalStream sid")
    case True
    have mod: "sid mod kStreamIncrement = initialRemoteUnidirectionalStreamId ?m" using kind_mod [OF id, of sid] True rem by simp
    have ok: "peer_ok (initialRemoteUnidirectionalStreamId ?m) (ts_advertisedInitialMaxStreamsUni (qc_settings c))
        (openUnidirectionalPeerStreams ?m) (nextAcceptablePeerUnidirectionalStreamId ?m) (maxRemoteUnidirectionalStreamId ?m)"
      using id unfolding id_ok_def by blast
    obtain r os nxt created where o: "openPeerStreamIfNotClosed sid (openUnidirectionalPeerStreams ?m)
        (nextAcceptablePeerUnidirectionalStreamId ?m) (maxRemoteUnidirectionalStreamId ?m) = Inr (r, os, nxt, created)"
      "peer_ok (initialRemoteUnidirectionalStreamId ?m) (ts_advertisedInitialMaxStreamsUni (qc_settings c)) os nxt (maxRemoteUnidirectionalStreamId ?m)"
      "ss_ids (openUnidirectionalPeerStreams ?m) \<subseteq> ss_ids os" "r = NO_ERROR \<longrightarrow> sid \<in> ss_ids os"
      using open_peer_ok [OF ok mod] ok mod by (fastforce split: if_splits)
    note base = sm_inv_set_peer_uni [OF inv refl o(2,3)]
    show ?thesis
      using o(1,4) True rem sm_inv_same [OF base]
      by (auto simp: openPeerStreams_def open_of_def Let_def split: if_splits)
  next
    case False
    have mod: "sid mod kStreamIncrement = initialRemoteBidirectionalStreamId ?m" using kind_mod [OF id, of sid] False rem by simp
    have ok: "peer_ok (initialRemoteBidirectionalStreamId ?m) (ts_advertisedInitialMaxStreamsBidi (qc_settings c))
        (openBidirectionalPeerStreams ?m) (nextAcceptablePeerBidirectionalStreamId ?m) (maxRemoteBidirectionalStreamId ?m)"
      using id unfolding id_ok_def by blast
    obtain r os nxt created where o: "openPeerStreamIfNotClosed sid (openBidirectionalPeerStreams ?m)
        (nextAcceptablePeerBidirectionalStreamId ?m) (maxRemoteBidirectionalStreamId ?m) = Inr (r, os, nxt, created)"
      "peer_ok (initialRemoteBidirectionalStreamId ?m) (ts_advertisedInitialMaxStreamsBidi (qc_settings c)) os nxt (maxRemoteBidirectionalStreamId ?m)"
      "ss_ids (openBidirectionalPeerStreams ?m) \<subseteq> ss_ids os" "r = NO_ERROR \<longrightarrow> sid \<in> ss_ids os"
      using open_peer_ok [OF ok mod] ok mod by (fastforce split: if_splits)
    note base = sm_inv_set_peer_bidi [OF inv refl o(2,3)]
    show ?thesis
      using o(1,4) False rem sm_inv_same [OF base]
      by (auto simp: openPeerStreams_def open_of_def Let_def split: if_splits)
  qed
qed

lemma instantiatePeerStream_ok:
  assumes "sm_inv c" and "sid \<in> ss_ids (open_of (qc_nodeType c) (qc_manager c) sid)"
    and "instantiatePeerStream sid grp c = Inr (r, c')"
  shows "sm_inv c' \<and> qc_nodeType c' = qc_nodeType c \<and> qc_settings c' = qc_settings c \<and> r = Some sid"
  using instantiatePeerStream_view [OF assms(3)] sm_inv_emplaced [OF assms(1), of c' sid] assms(2) by auto

lemma getOrCreatePeerStream_ok:
  assumes inv: "sm_inv c" and "sid < 2 ^ 63" and rem: "isRemoteStream (qc_nodeType c) sid"
    and r: "getOrCreatePeerStream sid grp c = Inr (r, c')"
  shows "sm_inv c' \<and> qc_nodeType c' = qc_nodeType c \<and> qc_settings c' = qc_settings c"
proof -
  let ?open = "open_of (qc_nodeType c) (qc_manager c) sid"
  have nloc: "\<not> isLocalStream (qc_nodeType c) sid" using rem by (simp add: isRemoteStream_iff)
  have open_eq: "(if isUnidirectionalStream sid then openUnidirectionalPeerStreams (qc_manager c)
      else openBidirectionalPeerStreams (qc_manager c)) = ?open" using nloc by (simp add: open_of_def)
  have has: "ss_contains sid ?open \<longleftrightarrow> sid \<in> ss_ids ?open"
    using open_of_typed [of "qc_nodeType c" "qc_settings c" "qc_manager c" sid] inv assms(2)
    by (simp add: ss_contains_iff sm_inv_def)
  obtain o' c1 where o: "openPeerStreams sid grp c = Inr (o', c1)" "sm_inv c1" "qc_nodeType c1 = qc_nodeType c"
      "qc_settings c1 = qc_settings c" "o' = NO_ERROR \<longrightarrow> sid \<in> ss_ids (open_of (qc_nodeType c) (qc_manager c1) sid)"
    using openPeerStreams_ok [OF inv nloc] by blast
  consider "c' = c" | "sid \<in> ss_ids ?open" "instantiatePeerStream sid grp c = Inr (r, c')" | "c' = c1"
    | "o' = NO_ERROR" "instantiatePeerStream sid grp c1 = Inr (r, c')"
    using r o(1) has unfolding getOrCreatePeerStream_def open_eq
    by (auto split: if_splits option.splits local_error.splits)
  then show ?thesis
  proof cases
    case 2
    then show ?thesis using instantiatePeerStream_ok [OF inv] by blast
  next
    case 4
    then show ?thesis using instantiatePeerStream_ok [OF o(2), of sid grp r c'] o by simp
  qed (use inv o in simp_all)
qed

lemma getStream_ok:
  assumes inv: "sm_inv c" and "sid < 2 ^ 63" and r: "getStream sid grp c = Inr (r, c')"
  shows "sm_inv c' \<and> qc_nodeType c' = qc_nodeType c \<and> qc_settings c' = qc_settings c"
proof (cases "isRemoteStream (qc_nodeType c) sid")
  case True
  then obtain c1 where "getOrCreatePeerStream sid grp c = Inr (r, c1)" "c' = upd_manager updateAppIdleState c1"
    using r by (auto simp: getStream_def bind_result_Inr)
  then show ?thesis
    using getOrCreatePeerStream_ok [OF inv assms(2) True, of grp r c1] sm_inv_idle [of c1] by simp
next
  case False
  then have loc: "isLocalStream (qc_nodeType c) sid" by (simp add: isRemoteStream_iff)
  consider "c' = c" | c1 where "getOrCreateOpenedLocalStream sid c = Inr (r, c1)" "c' = upd_manager updateAppIdleState c1"
    using r False by (auto simp: getStream_def bind_result_Inr Let_def split: if_splits)
  then show ?thesis
  proof cases
    case (2 c1)
    then show ?thesis
      using getOrCreateOpenedLocalStream_ok [OF inv assms(2) loc 2(1)] sm_inv_idle [of c1] by simp
  qed (use inv in simp)
qed

lemma open_local_limit:
  assumes ok: "local_ok b os nxt" and "sid mod kStreamIncrement = b" and lim: "limit_ok b mx"
  shows "\<exists>r os' nxt'. openLocalStreamIfNotClosed sid os nxt mx = Inr (r, os', nxt') \<and> local_ok b os' nxt' \<and>
    ss_ids os \<subseteq> ss_ids os' \<and> (r = NO_ERROR \<longrightarrow> sid \<in> ss_ids os')"
proof (cases "mx = 0")
  case True
  then show ?thesis using ok by (auto simp: openLocalStreamIfNotClosed_def)
next
  case False
  then show ?thesis using open_local_ok [OF ok assms(2), of mx] lim by (auto simp: limit_ok_def)
qed

lemma openLocalStreams_ok:
  assumes inv: "sm_inv c" and loc: "isLocalStream (qc_nodeType c) sid"
  shows "\<exists>r c'. openLocalStreams sid c = Inr (r, c') \<and> sm_inv c' \<and> qc_nodeType c' = qc_nodeType c \<and> qc_settings c' = qc_settings c \<and>
    (r = NO_ERROR \<longrightarrow> sid \<in> ss_ids (open_of (qc_nodeType c) (qc_manager c') sid))"
proof -
  let ?m = "qc_manager c"
  have id: "id_ok (qc_nodeType c) (qc_settings c) ?m" using inv by (simp add: sm_inv_def)
  show ?thesis
  proof (cases "isUnidirectionalStream sid")
    case True
    have mod: "sid mod kStreamIncrement = initialLocalUnidirectionalStreamId ?m" using kind_mod [OF id, of sid] True loc by simp
    have ok: "local_ok (initialLocalUnidirectionalStreamId ?m) (openUnidirectionalLocalStreams ?m) (nextAcceptableLocalUnidirectionalStreamId ?m)"
        "limit_ok (initialLocalUnidirectionalStreamId ?m) (maxLocalUnidirectionalStreamId ?m)"
      using id unfolding id_ok_def by blast+
    obtain r os nxt where o: "openLocalStreamIfNotClosed sid (openUnidirectionalLocalStreams ?m)
        (nextAcceptableLocalUnidirectionalStreamId ?m) (maxLocalUnidirectionalStreamId ?m) = Inr (r, os, nxt)"
      "local_ok (initialLocalUnidirectionalStreamId ?m) os nxt"
      "ss_ids (openUnidirectionalLocalStreams ?m) \<subseteq> ss_ids os" "r = NO_ERROR \<longrightarrow> sid \<in> ss_ids os"
      using open_local_limit [OF ok(1) mod ok(2)] by blast
    show ?thesis
      using o(1,4) True loc sm_inv_set_local_uni [OF inv refl o(2,3)] by (simp add: openLocalStreams_def open_of_def)
  next
    case False
    have mod: "sid mod kStreamIncrement = initialLocalBidirectionalStreamId ?m" using kind_mod [OF id, of sid] False loc by simp
    have ok: "local_ok (initialLocalBidirectionalStreamId ?m) (openBidirectionalLocalStreams ?m) (nextAcceptableLocalBidirectionalStreamId ?m)"
        "limit_ok (initialLocalBidirectionalStreamId ?m) (maxLocalBidirectionalStreamId ?m)"
      using id unfolding id_ok_def by blast+
    obtain r os nxt where o: "openLocalStreamIfNotClosed sid (openBidirectionalLocalStreams ?m)
        (nextAcceptableLocalBidirectionalStreamId ?m) (maxLocalBidirectionalStreamId ?m) = Inr (r, os, nxt)"
      "local_ok (initialLocalBidirectionalStreamId ?m) os nxt"
      "ss_ids (openBidirectionalLocalStreams ?m) \<subseteq> ss_ids os" "r = NO_ERROR \<longrightarrow> sid \<in> ss_ids os"
      using open_local_limit [OF ok(1) mod ok(2)] by blast
    show ?thesis
      using o(1,4) False loc sm_inv_set_local_bidi [OF inv refl o(2,3)] by (simp add: openLocalStreams_def open_of_def)
  qed
qed

lemma createStream_ok:
  assumes inv: "sm_inv c" and "sid < 2 ^ 63" and loc: "isLocalStream (qc_nodeType c) sid"
    and r: "createStream sid grp c = Inr (r, c')"
  shows "sm_inv c' \<and> qc_nodeType c' = qc_nodeType c \<and> qc_settings c' = qc_settings c \<and>
    (\<forall>k. r = Inr k \<longrightarrow> k = sid \<and> sid \<in> ss_ids (open_of (qc_nodeType c) (qc_manager c') sid))"
proof -
  obtain e c1 where e: "getOrCreateOpenedLocalStream sid c = Inr (e, c1)"
    using r by (auto simp: createStream_def bind_result_Inr split: if_splits option.splits)
  note g = getOrCreateOpenedLocalStream_ok [OF inv assms(2) loc e]
  obtain o' c2 where o: "openLocalStreams sid c1 = Inr (o', c2)" "sm_inv c2" "qc_nodeType c2 = qc_nodeType c"
      "qc_settings c2 = qc_settings c" "o' = NO_ERROR \<longrightarrow> sid \<in> ss_ids (open_of (qc_nodeType c2) (qc_manager c2) sid)"
    using openLocalStreams_ok [of c1 sid] g loc by auto
  consider k where "e = Some k" "c' = c1" "r = Inr k" | l where "c' = c2" "r = Inl l" | c3 where "o' = NO_ERROR" "r = Inr sid"
      "lift_manager (addToStreamPriorityMap (newQuicStream sid grp c2)) (emplaceStream sid grp c2) = Inr c3"
      "c' = upd_manager updateAppIdleState c3"
    using r e o(1) by (auto simp: createStream_def bind_result_Inr split: if_splits option.splits)
  then show ?thesis
  proof cases
    case (1 k)
    have view: "id_view (qc_manager c') = id_view (qc_manager c)"
      unfolding 1(2) by (rule getOrCreateOpenedLocalStream_view [OF e])
    show ?thesis using g unfolding id_view_cong(2) [OF view] unfolding 1 by simp
  next
    case (3 c3)
    then have "sm_inv c3 \<and> qc_nodeType c3 = qc_nodeType c \<and> qc_settings c3 = qc_settings c"
      and view: "id_view (qc_manager c') = id_view (qc_manager c2)"
      using o sm_inv_emplaced [OF o(2), of c3 sid "newQuicStream sid grp c2"] by (auto dest!: lift_priority_view)
    then show ?thesis using 3(1,2,4) o(3,5) sm_inv_idle [of c3] id_view_cong(2) [OF view] by simp
  qed (use o in auto)
qed

lemma local_next:
  assumes "sm_inv c" and "isLocalStream (qc_nodeType c) sid" and "sid \<in> ss_ids (open_of (qc_nodeType c) (qc_manager c) sid)"
  shows "next_ok (if isUnidirectionalStream sid then initialLocalUnidirectionalStreamId (qc_manager c)
      else initialLocalBidirectionalStreamId (qc_manager c)) (add64 sid kStreamIncrement)"
proof -
  define b where "b = (if isUnidirectionalStream sid then initialLocalUnidirectionalStreamId (qc_manager c)
      else initialLocalBidirectionalStreamId (qc_manager c))"
  have id: "id_ok (qc_nodeType c) (qc_settings c) (qc_manager c)" using assms(1) by (simp add: sm_inv_def)
  obtain nxt where ok: "local_ok b (open_of (qc_nodeType c) (qc_manager c) sid) nxt"
    using id_okD(3,4) [OF id] assms(2) that
    by (cases "isUnidirectionalStream sid") (auto simp: open_of_def b_def)
  then have lt: "sid < nxt" "sid mod kStreamIncrement = nxt mod kStreamIncrement" "nxt \<le> kMaxMaxStreams * kStreamIncrement + b"
      "b < kStreamIncrement" "nxt mod kStreamIncrement = b"
    using assms(3) by (auto simp: local_ok_def)
  then have "sid + kStreamIncrement \<le> kMaxMaxStreams * kStreamIncrement + b" using mod_step_le [OF lt(1,2)] by linarith
  moreover then have "add64 sid kStreamIncrement = sid + kStreamIncrement"
    using limit_small [OF lt(4)] by (simp add: add64_eq)
  ultimately show ?thesis using lt unfolding b_def [symmetric] by (simp add: next_ok_def)
qed

section \<open>Closing streams keeps the invariant\<close>

lemma closeId_ok:
  assumes id: "id_ok (qc_nodeType c) (qc_settings c) m" and mem: "sid \<in> ss_ids (open_of (qc_nodeType c) m sid)"
    and r: "closeId sid c m = Inr m'"
  shows "id_ok (qc_nodeType c) (qc_settings c) m' \<and> sm_streams m' = sm_streams m \<and>
    (\<forall>k. k \<noteq> sid \<longrightarrow> ss_ids (open_of (qc_nodeType c) m k) - {sid} \<subseteq> ss_ids (open_of (qc_nodeType c) m' k)) \<and>
    ss_ids (open_of (qc_nodeType c) m' sid) = ss_ids (open_of (qc_nodeType c) m sid) - {sid}"
proof -
  have rem: "isRemoteStream (qc_nodeType c) sid = (\<not> isLocalStream (qc_nodeType c) sid)" by (simp add: isRemoteStream_iff)
  note ok = id_okD [OF id]
  consider (pu) "\<not> isLocalStream (qc_nodeType c) sid" "isUnidirectionalStream sid"
    | (pb) "\<not> isLocalStream (qc_nodeType c) sid" "\<not> isUnidirectionalStream sid"
    | (lu) "isLocalStream (qc_nodeType c) sid" "isUnidirectionalStream sid"
    | (lb) "isLocalStream (qc_nodeType c) sid" "\<not> isUnidirectionalStream sid" by blast
  then show ?thesis
  proof cases
    case pu
    then obtain os where os: "ss_remove sid (openUnidirectionalPeerStreams m) = Inr os"
        "peer_ok (initialRemoteUnidirectionalStreamId m) (ts_advertisedInitialMaxStreamsUni (qc_settings c)) os
           (nextAcceptablePeerUnidirectionalStreamId m) (maxRemoteUnidirectionalStreamId m)"
        "ss_ids os = ss_ids (openUnidirectionalPeerStreams m) - {sid}"
      using peer_ok_remove [OF ok(2), of sid] mem by (auto simp: open_of_def)
    let ?m = "m\<lparr>openUnidirectionalPeerStreams := os\<rparr>"
    have "returnUniCredit c ?m = Inr m'" using r pu os(1) by (simp add: closeId_def rem)
    then obtain mx u where "m' = ?m\<lparr>maxRemoteUnidirectionalStreamId := mx, remoteUnidirectionalStreamLimitUpdate := u\<rparr>"
        "peer_ok (initialRemoteUnidirectionalStreamId m) (ts_advertisedInitialMaxStreamsUni (qc_settings c)) os
           (nextAcceptablePeerUnidirectionalStreamId m) mx"
      using returnUniCredit_ok [of "initialRemoteUnidirectionalStreamId m" c ?m] os(2) by auto
    then show ?thesis using id os(3) pu by (auto simp: id_ok_def open_of_def split: if_splits)
  next
    case pb
    then obtain os where os: "ss_remove sid (openBidirectionalPeerStreams m) = Inr os"
        "peer_ok (initialRemoteBidirectionalStreamId m) (ts_advertisedInitialMaxStreamsBidi (qc_settings c)) os
           (nextAcceptablePeerBidirectionalStreamId m) (maxRemoteBidirectionalStreamId m)"
        "ss_ids os = ss_ids (openBidirectionalPeerStreams m) - {sid}"
      using peer_ok_remove [OF ok(1), of sid] mem by (auto simp: open_of_def)
    let ?m = "m\<lparr>openBidirectionalPeerStreams := os\<rparr>"
    have "returnBidiCredit c ?m = Inr m'" using r pb os(1) by (simp add: closeId_def rem)
    then obtain mx u where "m' = ?m\<lparr>maxRemoteBidirectionalStreamId := mx, remoteBidirectionalStreamLimitUpdate := u\<rparr>"
        "peer_ok (initialRemoteBidirectionalStreamId m) (ts_advertisedInitialMaxStreamsBidi (qc_settings c)) os
           (nextAcceptablePeerBidirectionalStreamId m) mx"
      using returnBidiCredit_ok [of "initialRemoteBidirectionalStreamId m" c ?m] os(2) by auto
    then show ?thesis using id os(3) pb by (auto simp: id_ok_def open_of_def split: if_splits)
  next
    case lu
    then obtain os where os: "ss_remove sid (openUnidirectionalLocalStreams m) = Inr os"
        "local_ok (initialLocalUnidirectionalStreamId m) os (nextAcceptableLocalUnidirectionalStreamId m)"
        "ss_ids os = ss_ids (openUnidirectionalLocalStreams m) - {sid}"
      using local_ok_remove [OF ok(4), of sid] mem by (auto simp: open_of_def)
    have "m' = m\<lparr>openUnidirectionalLocalStreams := os\<rparr>" using r lu unfolding closeId_def rem os(1) by simp
    moreover have "id_ok (qc_nodeType c) (qc_settings c) (m\<lparr>openUnidirectionalLocalStreams := os\<rparr>)"
      using id os(2) unfolding id_ok_def by (elim conjE, intro conjI) simp_all
    ultimately show ?thesis using os(3) lu by (simp add: open_of_def)
  next
    case lb
    then obtain os where os: "ss_remove sid (openBidirectionalLocalStreams m) = Inr os"
        "local_ok (initialLocalBidirectionalStreamId m) os (nextAcceptableLocalBidirectionalStreamId m)"
        "ss_ids os = ss_ids (openBidirectionalLocalStreams m) - {sid}"
      using local_ok_remove [OF ok(3), of sid] mem by (auto simp: open_of_def)
    have "m' = m\<lparr>openBidirectionalLocalStreams := os\<rparr>" using r lb unfolding closeId_def rem os(1) by simp
    moreover have "id_ok (qc_nodeType c) (qc_settings c) (m\<lparr>openBidirectionalLocalStreams := os\<rparr>)"
      using id os(2) unfolding id_ok_def by (elim conjE, intro conjI) simp_all
    ultimately show ?thesis using os(3) lb by (simp add: open_of_def)
  qed
qed

lemma forgetStream_view [simp]:
  "id_view (forgetStream sid s c) = id_view (qc_manager c)" "sm_streams (forgetStream sid s c) = sm_streams (qc_manager c)"
  by (simp_all add: forgetStream_def removeWritable_def removeFromReadableStreams_def Let_def)

lemma removeClosedStream_ok:
  assumes inv: "sm_inv c" and r: "removeClosedStream sid c = Inr c'"
  shows "sm_inv c' \<and> qc_nodeType c' = qc_nodeType c \<and> qc_settings c' = qc_settings c \<and>
    (Mapping.lookup (sm_streams (qc_manager c)) sid \<noteq> None \<longrightarrow>
      sid \<notin> ss_ids (open_of (qc_nodeType c) (qc_manager c') sid) \<and> Mapping.lookup (sm_streams (qc_manager c')) sid = None)"
proof (cases "Mapping.lookup (sm_streams (qc_manager c)) sid")
  case None
  then show ?thesis using inv r by (simp add: removeClosedStream_def findStream_def)
next
  case (Some s)
  let ?n = "qc_nodeType c"
  have inv': "id_ok ?n (qc_settings c) (qc_manager c)" "streams_ok ?n (qc_manager c)" using inv by (simp_all add: sm_inv_def)
  let ?f = "forgetStream sid s c"
  obtain m1 m2 where g: "(if isControl s then Inr (?f\<lparr>numControlStreams := sub64 (numControlStreams ?f) 1\<rparr>)
        else if Mapping.lookup (streamPriorityLevelsNoCtrl ?f) sid = None then Inl Stream_state_error
        else Inr (?f\<lparr>streamPriorityLevelsNoCtrl := Mapping.delete sid (streamPriorityLevelsNoCtrl ?f)\<rparr>)) = Inr m1"
    and m2: "closeId sid c (m1\<lparr>sm_streams := Mapping.delete sid (sm_streams m1)\<rparr>) = Inr m2"
    and c': "c' = c\<lparr>qc_manager := notifyStreamPriorityChanges (updateAppIdleState m2)\<rparr>"
    using r unfolding removeClosedStream_def findStream_def Let_def Some option.case bind_result_Inr by blast
  have m1: "id_view m1 = id_view (qc_manager c)" "sm_streams m1 = sm_streams (qc_manager c)"
    using g by (auto split: if_splits)
  let ?m = "m1\<lparr>sm_streams := Mapping.delete sid (sm_streams m1)\<rparr>"
  have view: "id_view ?m = id_view (qc_manager c)" using m1 by simp
  note cong = id_view_cong [OF view]
  have close: "id_ok ?n (qc_settings c) m2" "sm_streams m2 = Mapping.delete sid (sm_streams (qc_manager c))"
      "\<And>k. k \<noteq> sid \<Longrightarrow> ss_ids (open_of ?n (qc_manager c) k) - {sid} \<subseteq> ss_ids (open_of ?n m2 k)"
      "ss_ids (open_of ?n m2 sid) = ss_ids (open_of ?n (qc_manager c) sid) - {sid}"
    using closeId_ok [OF _ _ m2] inv' Some m1(2) unfolding cong by (auto simp: streams_ok_def)
  have "streams_ok ?n m2"
    unfolding streams_ok_def
  proof (intro allI impI)
    fix k t assume "Mapping.lookup (sm_streams m2) k = Some t"
    then have k: "k \<noteq> sid" "Mapping.lookup (sm_streams (qc_manager c)) k = Some t"
      by (auto simp: close(2) mapping_lookup_delete split: if_splits)
    then have "stream_id t = k" "k \<in> ss_ids (open_of ?n (qc_manager c) k)" using inv'(2) by (auto simp: streams_ok_def)
    then show "stream_id t = k \<and> k \<in> ss_ids (open_of ?n m2 k)" using close(3) [OF k(1)] k(1) by blast
  qed
  then have "sm_inv (c\<lparr>qc_manager := m2\<rparr>)" using close(1) by (simp add: sm_inv_def)
  then have "sm_inv c'" unfolding c' by (rule sm_inv_same) simp_all
  moreover have "sid \<notin> ss_ids (open_of ?n (qc_manager c') sid)" "Mapping.lookup (sm_streams (qc_manager c')) sid = None"
    using close(2,4) id_view_cong(2) [of "qc_manager c'" m2] by (simp_all add: c' mapping_lookup_delete)
  ultimately show ?thesis by (simp add: c')
qed

section \<open>Limits, next identifiers and groups\<close>

lemma next_local:
  assumes "id_ok node ts m"
  shows "nextBidirectionalStreamId m < 2 ^ 63" "isLocalStream node (nextBidirectionalStreamId m)"
    "\<not> isUnidirectionalStream (nextBidirectionalStreamId m)"
    "nextUnidirectionalStreamId m < 2 ^ 63" "isLocalStream node (nextUnidirectionalStreamId m)"
    "isUnidirectionalStream (nextUnidirectionalStreamId m)"
proof -
  note nx = id_okD(5,6) [OF assms]
  have init: "initialLocalBidirectionalStreamId m = (if node = Server then 1 else 0)"
    "initialLocalUnidirectionalStreamId m = (if node = Server then 3 else 2)"
    using assms unfolding id_ok_def by blast+
  have small: "next_ok b n \<Longrightarrow> b < kStreamIncrement \<Longrightarrow> n < 2 ^ 63" for b n
    using limit_small [of b] by (simp add: next_ok_def)
  have "initialLocalBidirectionalStreamId m < kStreamIncrement" "initialLocalUnidirectionalStreamId m < kStreamIncrement"
    unfolding init kStreamIncrement_def by simp_all
  then show "nextBidirectionalStreamId m < 2 ^ 63" "nextUnidirectionalStreamId m < 2 ^ 63"
    using small nx by blast+
  have local: "isLocalStream node sid = (isServerStream sid = (node = Server))" for sid
    by (cases node) (auto simp: isLocalStream_def isClientStream_def isServerStream_def)
  have kind: "2 * of_bool (isUnidirectionalStream sid) + of_bool (isServerStream sid) = b" if "next_ok b sid" for b sid
    using that stream_mod4 [of sid] by (simp add: next_ok_def)
  show "isLocalStream node (nextBidirectionalStreamId m)" "\<not> isUnidirectionalStream (nextBidirectionalStreamId m)"
    using kind [OF nx(1)] unfolding local init by (simp_all split: if_splits split_of_bool_asm)
  show "isLocalStream node (nextUnidirectionalStreamId m)" "isUnidirectionalStream (nextUnidirectionalStreamId m)"
    using kind [OF nx(2)] unfolding local init by (simp_all split: if_splits split_of_bool_asm)
qed

lemma createStream_next:
  assumes "createStream sid grp c = Inr (r, c')"
  shows "nextBidirectionalStreamId (qc_manager c') = nextBidirectionalStreamId (qc_manager c) \<and>
    nextUnidirectionalStreamId (qc_manager c') = nextUnidirectionalStreamId (qc_manager c)"
proof -
  have view: "id_view m' = id_view m \<Longrightarrow> nextBidirectionalStreamId m' = nextBidirectionalStreamId m \<and>
    nextUnidirectionalStreamId m' = nextUnidirectionalStreamId m" for m m' by (simp add: id_view_def)
  obtain e c1 where e: "getOrCreateOpenedLocalStream sid c = Inr (e, c1)"
    using assms by (auto simp: createStream_def bind_result_Inr split: if_splits option.splits)
  note v1 = view [OF getOrCreateOpenedLocalStream_view [OF e]]
  from assms e consider "c' = c1" | r2 c2 where "openLocalStreams sid c1 = Inr (r2, c2)" "c' = c2"
    | r2 c2 c3 where "openLocalStreams sid c1 = Inr (r2, c2)"
      "lift_manager (addToStreamPriorityMap (newQuicStream sid grp c2)) (emplaceStream sid grp c2) = Inr c3"
      "c' = upd_manager updateAppIdleState c3"
    by (auto simp: createStream_def bind_result_Inr split: if_splits option.splits)
  then show ?thesis
  proof cases
    case 2
    then show ?thesis using v1 by (auto simp: openLocalStreams_def bind_result_Inr Let_def split: if_splits)
  next
    case (3 r2 c2 c3)
    then have "id_view (qc_manager c') = id_view (qc_manager c2)" by (auto dest!: lift_priority_view)
    from view [OF this] show ?thesis using v1 3(1) by (auto simp: openLocalStreams_def bind_result_Inr Let_def split: if_splits)
  qed (use v1 in simp)
qed

lemma streamLimitId_ok:
  assumes "streamLimitId n b = Inr sid" and "b < kStreamIncrement"
  shows "sid = n * kStreamIncrement + b \<and> n \<le> kMaxMaxStreams"
  using assms by (auto simp: streamLimitId_def kMaxMaxStreams_def kStreamIncrement_def add64_eq mul64_def split: if_splits)

lemma sm_inv_manager:
  assumes "sm_inv c" and "id_ok (qc_nodeType c) (qc_settings c) m" and "sm_streams m = sm_streams (qc_manager c)"
    and "\<And>sid. open_of (qc_nodeType c) m sid = open_of (qc_nodeType c) (qc_manager c) sid"
  shows "sm_inv (c\<lparr>qc_manager := m\<rparr>)"
  by (rule sm_inv_replace) (use assms in simp_all)

lemma limit_ok_stream: "streamLimitId n b = Inr sid \<Longrightarrow> b < kStreamIncrement \<Longrightarrow> limit_ok b sid"
  using streamLimitId_ok [of n b sid] by (auto simp: limit_ok_def)

lemma setMaxLocalBidirectionalStreams_ok:
  assumes "sm_inv c" and "setMaxLocalBidirectionalStreams n force (qc_manager c) = Inr m"
  shows "sm_inv (c\<lparr>qc_manager := m\<rparr>)"
proof (cases "m = qc_manager c")
  case False
  have id: "id_ok (qc_nodeType c) (qc_settings c) (qc_manager c)" using assms(1) by (simp add: sm_inv_def)
  have b: "initialLocalBidirectionalStreamId (qc_manager c) < kStreamIncrement" using id_okD(3) [OF id] by (simp add: local_ok_def)
  obtain sid where sid: "limit_ok (initialLocalBidirectionalStreamId (qc_manager c)) sid"
      "m = qc_manager c\<lparr>maxLocalBidirectionalStreamId := sid, maxLocalBidirectionalStreamIdIncreased := True\<rparr>"
    using assms(2) False limit_ok_stream [OF _ b] by (auto simp: setMaxLocalBidirectionalStreams_def bind_result_Inr split: if_splits)
  have "id_ok (qc_nodeType c) (qc_settings c) m"
    using id sid(1) unfolding sid(2) id_ok_def by (elim conjE, intro conjI) simp_all
  then show ?thesis by (rule sm_inv_manager [OF assms(1)]) (simp_all add: sid(2) open_of_def)
qed (use assms(1) in simp)

lemma setMaxLocalUnidirectionalStreams_ok:
  assumes "sm_inv c" and "setMaxLocalUnidirectionalStreams n force (qc_manager c) = Inr m"
  shows "sm_inv (c\<lparr>qc_manager := m\<rparr>)"
proof (cases "m = qc_manager c")
  case False
  have id: "id_ok (qc_nodeType c) (qc_settings c) (qc_manager c)" using assms(1) by (simp add: sm_inv_def)
  have b: "initialLocalUnidirectionalStreamId (qc_manager c) < kStreamIncrement" using id_okD(4) [OF id] by (simp add: local_ok_def)
  obtain sid where sid: "limit_ok (initialLocalUnidirectionalStreamId (qc_manager c)) sid"
      "m = qc_manager c\<lparr>maxLocalUnidirectionalStreamId := sid, maxLocalUnidirectionalStreamIdIncreased := True\<rparr>"
    using assms(2) False limit_ok_stream [OF _ b] by (auto simp: setMaxLocalUnidirectionalStreams_def bind_result_Inr split: if_splits)
  have "id_ok (qc_nodeType c) (qc_settings c) m"
    using id sid(1) unfolding sid(2) id_ok_def by (elim conjE, intro conjI) simp_all
  then show ?thesis by (rule sm_inv_manager [OF assms(1)]) (simp_all add: sid(2) open_of_def)
qed (use assms(1) in simp)

lemma createNextBidirectionalStream_ok:
  assumes inv: "sm_inv c" and r: "createNextBidirectionalStream grp c = Inr (r, c')"
  shows "sm_inv c' \<and> qc_nodeType c' = qc_nodeType c \<and> qc_settings c' = qc_settings c"
proof -
  let ?sid = "nextBidirectionalStreamId (qc_manager c)"
  have id: "id_ok (qc_nodeType c) (qc_settings c) (qc_manager c)" using inv by (simp add: sm_inv_def)
  have sid: "?sid < 2 ^ 63" "isLocalStream (qc_nodeType c) ?sid" "\<not> isUnidirectionalStream ?sid"
    using next_local [OF id] by blast+
  obtain k c1 where k: "createStream ?sid grp c = Inr (k, c1)"
      "c' = (if isl k then c1 else upd_manager (\<lambda>m. m\<lparr>nextBidirectionalStreamId := add64 (nextBidirectionalStreamId m) kStreamIncrement\<rparr>) c1)"
    using r unfolding createNextBidirectionalStream_def by (cases "createStream ?sid grp c") (auto split: sum.split_asm prod.split_asm)
  note cs = createStream_ok [OF inv sid(1,2) k(1)]
  show ?thesis
  proof (cases k)
    case (Inr j)
    let ?m = "(qc_manager c1)\<lparr>nextBidirectionalStreamId := add64 ?sid kStreamIncrement\<rparr>"
    have id1: "id_ok (qc_nodeType c1) (qc_settings c1) (qc_manager c1)" using cs unfolding sm_inv_def by blast
    have nx: "next_ok (initialLocalBidirectionalStreamId (qc_manager c1)) (add64 ?sid kStreamIncrement)"
      using local_next [of c1 ?sid] cs Inr sid by simp
    have "id_ok (qc_nodeType c1) (qc_settings c1) ?m"
      using id1 nx unfolding id_ok_def by (elim conjE, intro conjI) simp_all
    then have "sm_inv (c1\<lparr>qc_manager := ?m\<rparr>)" using cs by (intro sm_inv_manager) (simp_all add: open_of_def)
    then show ?thesis using cs k(2) createStream_next [OF k(1)] Inr by (simp add: upd_manager_def)
  qed (use cs k(2) in simp)
qed

lemma createNextUnidirectionalStream_ok:
  assumes inv: "sm_inv c" and r: "createNextUnidirectionalStream grp c = Inr (r, c')"
  shows "sm_inv c' \<and> qc_nodeType c' = qc_nodeType c \<and> qc_settings c' = qc_settings c"
proof -
  let ?sid = "nextUnidirectionalStreamId (qc_manager c)"
  have id: "id_ok (qc_nodeType c) (qc_settings c) (qc_manager c)" using inv by (simp add: sm_inv_def)
  have sid: "?sid < 2 ^ 63" "isLocalStream (qc_nodeType c) ?sid" "isUnidirectionalStream ?sid"
    using next_local [OF id] by blast+
  obtain k c1 where k: "createStream ?sid grp c = Inr (k, c1)"
      "c' = (if isl k then c1 else upd_manager (\<lambda>m. m\<lparr>nextUnidirectionalStreamId := add64 (nextUnidirectionalStreamId m) kStreamIncrement\<rparr>) c1)"
    using r unfolding createNextUnidirectionalStream_def by (cases "createStream ?sid grp c") (auto split: sum.split_asm prod.split_asm)
  note cs = createStream_ok [OF inv sid(1,2) k(1)]
  show ?thesis
  proof (cases k)
    case (Inr j)
    let ?m = "(qc_manager c1)\<lparr>nextUnidirectionalStreamId := add64 ?sid kStreamIncrement\<rparr>"
    have id1: "id_ok (qc_nodeType c1) (qc_settings c1) (qc_manager c1)" using cs unfolding sm_inv_def by blast
    have nx: "next_ok (initialLocalUnidirectionalStreamId (qc_manager c1)) (add64 ?sid kStreamIncrement)"
      using local_next [of c1 ?sid] cs Inr sid by simp
    have "id_ok (qc_nodeType c1) (qc_settings c1) ?m"
      using id1 nx unfolding id_ok_def by (elim conjE, intro conjI) simp_all
    then have "sm_inv (c1\<lparr>qc_manager := ?m\<rparr>)" using cs by (intro sm_inv_manager) (simp_all add: open_of_def)
    then show ?thesis using cs k(2) createStream_next [OF k(1)] Inr by (simp add: upd_manager_def)
  qed (use cs k(2) in simp)
qed

lemma createNextStreamGroups_ok:
  assumes "sm_inv c"
  shows "createNextBidirectionalStreamGroup c = Inr (r, c') \<Longrightarrow> sm_inv c' \<and> qc_nodeType c' = qc_nodeType c \<and> qc_settings c' = qc_settings c"
    and "createNextUnidirectionalStreamGroup c = Inr (r, c') \<Longrightarrow> sm_inv c' \<and> qc_nodeType c' = qc_nodeType c \<and> qc_settings c' = qc_settings c"
  using sm_inv_same [OF assms, of c']
  by (auto simp: createNextBidirectionalStreamGroup_def createNextUnidirectionalStreamGroup_def bind_result_Inr Let_def)

section \<open>Construction\<close>

lemma peer_ok_new:
  assumes "b < kStreamIncrement" and "streamLimitId lim b = Inr mx"
  shows "peer_ok b lim (newStreamIdSet b) b mx"
proof -
  have mx: "mx = lim * kStreamIncrement + b" "lim \<le> kMaxMaxStreams" using streamLimitId_ok [OF assms(2,1)] by simp_all
  then show ?thesis using assms(1) ss_new [of b] by (simp add: peer_ok_def)
qed

lemma local_ok_new: "b < kStreamIncrement \<Longrightarrow> local_ok b (newStreamIdSet b) b \<and> limit_ok b 0 \<and> next_ok b b"
  by (simp add: local_ok_def limit_ok_def next_ok_def)

lemma newQuicStreamManager_ok:
  assumes new: "newQuicStreamManager (qc_nodeType c) (qc_settings c) = Inr m"
  shows "sm_inv (c\<lparr>qc_manager := m\<rparr>)"
proof -
  define pb pu lb lu :: nat where "pb = (if qc_nodeType c = Server then 0 else 1)" and "pu = (if qc_nodeType c = Server then 2 else 3)"
    and "lb = (if qc_nodeType c = Server then 1 else 0)" and "lu = (if qc_nodeType c = Server then 3 else 2)"
  note ini = this
  have small: "pb < kStreamIncrement" "pu < kStreamIncrement" "lb < kStreamIncrement" "lu < kStreamIncrement"
    by (simp_all add: ini kStreamIncrement_def)
  obtain mb mu where mx: "streamLimitId (ts_advertisedInitialMaxStreamsBidi (qc_settings c)) pb = Inr mb"
      "streamLimitId (ts_advertisedInitialMaxStreamsUni (qc_settings c)) pu = Inr mu"
    and m: "maxRemoteBidirectionalStreamId m = mb" "maxRemoteUnidirectionalStreamId m = mu"
      "initialRemoteBidirectionalStreamId m = pb" "initialRemoteUnidirectionalStreamId m = pu"
      "initialLocalBidirectionalStreamId m = lb" "initialLocalUnidirectionalStreamId m = lu"
      "nextAcceptablePeerBidirectionalStreamId m = pb" "nextAcceptablePeerUnidirectionalStreamId m = pu"
      "nextAcceptableLocalBidirectionalStreamId m = lb" "nextAcceptableLocalUnidirectionalStreamId m = lu"
      "nextBidirectionalStreamId m = lb" "nextUnidirectionalStreamId m = lu"
      "openBidirectionalPeerStreams m = newStreamIdSet pb" "openUnidirectionalPeerStreams m = newStreamIdSet pu"
      "openBidirectionalLocalStreams m = newStreamIdSet lb" "openUnidirectionalLocalStreams m = newStreamIdSet lu"
      "maxLocalBidirectionalStreamId m = 0" "maxLocalUnidirectionalStreamId m = 0" "sm_streams m = Mapping.empty"
    using new unfolding newQuicStreamManager_def Let_def ini [symmetric]
    by (auto simp: refreshTransportSettings_def setMaxRemoteBidirectionalStreamsInternal_def
      setMaxRemoteUnidirectionalStreamsInternal_def bind_result_Inr blankManager_def)
  have "id_ok (qc_nodeType c) (qc_settings c) m"
    unfolding id_ok_def m using peer_ok_new [OF small(1) mx(1)] peer_ok_new [OF small(2) mx(2)]
      local_ok_new [OF small(3)] local_ok_new [OF small(4)] ini by blast
  then show ?thesis by (simp add: sm_inv_def streams_ok_def m)
qed

section \<open>Runs of the manager\<close>

text \<open>The calls the transport makes on the manager that open, close or limit streams.\<close>

datatype manager_op =
    Op_getStream nat "nat option"
  | Op_createStream nat "nat option"
  | Op_createNextBidirectionalStream "nat option"
  | Op_createNextUnidirectionalStream "nat option"
  | Op_createNextBidirectionalStreamGroup
  | Op_createNextUnidirectionalStreamGroup
  | Op_removeClosedStream nat
  | Op_setMaxLocalBidirectionalStreams nat bool
  | Op_setMaxLocalUnidirectionalStreams nat bool

fun manager_step :: "manager_op \<Rightarrow> quic_conn \<Rightarrow> stream_error + quic_conn" where
  "manager_step (Op_getStream sid grp) c = bind_result (getStream sid grp c) (\<lambda>(r, c1). Inr c1)"
| "manager_step (Op_createStream sid grp) c = bind_result (createStream sid grp c) (\<lambda>(r, c1). Inr c1)"
| "manager_step (Op_createNextBidirectionalStream grp) c = bind_result (createNextBidirectionalStream grp c) (\<lambda>(r, c1). Inr c1)"
| "manager_step (Op_createNextUnidirectionalStream grp) c = bind_result (createNextUnidirectionalStream grp c) (\<lambda>(r, c1). Inr c1)"
| "manager_step Op_createNextBidirectionalStreamGroup c = bind_result (createNextBidirectionalStreamGroup c) (\<lambda>(r, c1). Inr c1)"
| "manager_step Op_createNextUnidirectionalStreamGroup c = bind_result (createNextUnidirectionalStreamGroup c) (\<lambda>(r, c1). Inr c1)"
| "manager_step (Op_removeClosedStream sid) c = removeClosedStream sid c"
| "manager_step (Op_setMaxLocalBidirectionalStreams n force) c = lift_manager (setMaxLocalBidirectionalStreams n force) c"
| "manager_step (Op_setMaxLocalUnidirectionalStreams n force) c = lift_manager (setMaxLocalUnidirectionalStreams n force) c"

text \<open>An exception or a failed check ends the run; identifiers are those a variable-length integer holds.\<close>

fun manager_run :: "manager_op list \<Rightarrow> quic_conn \<Rightarrow> stream_error + quic_conn" where
  "manager_run [] c = Inr c"
| "manager_run (op # ops) c = bind_result (manager_step op c) (manager_run ops)"

fun manager_op_valid :: "manager_op \<Rightarrow> bool" where
  "manager_op_valid (Op_getStream sid grp) \<longleftrightarrow> sid < 2 ^ 62"
| "manager_op_valid (Op_createStream sid grp) \<longleftrightarrow> sid < 2 ^ 62"
| "manager_op_valid op \<longleftrightarrow> True"

lemma createStream_local: "createStream sid grp c = Inr r \<Longrightarrow> isLocalStream (qc_nodeType c) sid"
  by (cases "qc_nodeType c") (auto simp: createStream_def isLocalStream_def split: if_splits)

lemma manager_step_ok:
  assumes "sm_inv c" and "manager_op_valid op" and "manager_step op c = Inr c'"
  shows "sm_inv c' \<and> qc_nodeType c' = qc_nodeType c \<and> qc_settings c' = qc_settings c"
proof (cases op)
  case (Op_getStream sid grp)
  then obtain r where r: "getStream sid grp c = Inr (r, c')" using assms(3) by (auto simp: bind_result_Inr)
  then show ?thesis using getStream_ok [OF assms(1) _ r] assms(2) Op_getStream by simp
next
  case (Op_createStream sid grp)
  then obtain r where r: "createStream sid grp c = Inr (r, c')" using assms(3) by (auto simp: bind_result_Inr)
  have "sid < 2 ^ 63" using assms(2) Op_createStream by simp
  then show ?thesis using createStream_ok [OF assms(1) _ createStream_local [OF r] r] by blast
next
  case (Op_createNextBidirectionalStream grp)
  then obtain r where "createNextBidirectionalStream grp c = Inr (r, c')" using assms(3) by (auto simp: bind_result_Inr)
  then show ?thesis by (rule createNextBidirectionalStream_ok [OF assms(1)])
next
  case (Op_createNextUnidirectionalStream grp)
  then obtain r where "createNextUnidirectionalStream grp c = Inr (r, c')" using assms(3) by (auto simp: bind_result_Inr)
  then show ?thesis by (rule createNextUnidirectionalStream_ok [OF assms(1)])
next
  case Op_createNextBidirectionalStreamGroup
  then obtain r where "createNextBidirectionalStreamGroup c = Inr (r, c')" using assms(3) by (auto simp: bind_result_Inr)
  then show ?thesis by (rule createNextStreamGroups_ok(1) [OF assms(1)])
next
  case Op_createNextUnidirectionalStreamGroup
  then obtain r where "createNextUnidirectionalStreamGroup c = Inr (r, c')" using assms(3) by (auto simp: bind_result_Inr)
  then show ?thesis by (rule createNextStreamGroups_ok(2) [OF assms(1)])
next
  case (Op_removeClosedStream sid)
  then have "removeClosedStream sid c = Inr c'" using assms(3) by simp
  from removeClosedStream_ok [OF assms(1) this] show ?thesis by blast
next
  case (Op_setMaxLocalBidirectionalStreams n force)
  then obtain m where "setMaxLocalBidirectionalStreams n force (qc_manager c) = Inr m" "c' = c\<lparr>qc_manager := m\<rparr>"
    using assms(3) by (auto simp: lift_manager_def bind_result_Inr)
  then show ?thesis using setMaxLocalBidirectionalStreams_ok [OF assms(1)] by simp
next
  case (Op_setMaxLocalUnidirectionalStreams n force)
  then obtain m where "setMaxLocalUnidirectionalStreams n force (qc_manager c) = Inr m" "c' = c\<lparr>qc_manager := m\<rparr>"
    using assms(3) by (auto simp: lift_manager_def bind_result_Inr)
  then show ?thesis using setMaxLocalUnidirectionalStreams_ok [OF assms(1)] by simp
qed

lemma manager_run_ok:
  assumes "sm_inv c" and "list_all manager_op_valid ops" and "manager_run ops c = Inr c'"
  shows "sm_inv c' \<and> qc_nodeType c' = qc_nodeType c \<and> qc_settings c' = qc_settings c"
  using assms
proof (induction ops arbitrary: c)
  case (Cons op ops)
  then obtain c1 where c1: "manager_step op c = Inr c1" "manager_run ops c1 = Inr c'" by (auto simp: bind_result_Inr)
  then show ?case using manager_step_ok [OF Cons.prems(1) _ c1(1)] Cons.IH [of c1] Cons.prems(2) by auto
qed simp

lemma open_small:
  assumes id: "id_ok node ts m" and mem: "sid \<in> ss_ids (open_of node m sid)"
  shows "sid < 2 ^ 63"
proof -
  have peer: "sid < 2 ^ 63" if "peer_ok b lim os nxt mx" "sid \<in> ss_ids os" for b lim os nxt mx
    using that limit_small [of b] by (fastforce simp: peer_ok_def)
  have loc: "sid < 2 ^ 63" if "local_ok b os nxt" "sid \<in> ss_ids os" for b os nxt
    using that limit_small [of b] by (fastforce simp: local_ok_def)
  show ?thesis
    using mem peer [OF id_okD(1) [OF id]] peer [OF id_okD(2) [OF id]] loc [OF id_okD(3) [OF id]] loc [OF id_okD(4) [OF id]]
    unfolding open_of_def by (auto split: if_splits)
qed

lemma streams_exist:
  assumes "id_ok node ts m" and "streams_ok node m" and "findStream sid m = Some s"
  shows "stream_id s = sid \<and> ss_contains sid (open_of node m sid)"
proof -
  have s: "stream_id s = sid" "sid \<in> ss_ids (open_of node m sid)"
    using assms(2,3) by (auto simp: streams_ok_def findStream_def)
  then show ?thesis using ss_contains_iff [OF open_of_typed [OF assms(1) open_small [OF assms(1)]]] by blast
qed

lemma streamExists_open: "streamExists sid c = ss_contains sid (open_of (qc_nodeType c) (qc_manager c) sid)"
  by (simp add: streamExists_def open_of_def)

section \<open>What the peer sees\<close>

definition next_of :: "stream_manager \<Rightarrow> nat \<Rightarrow> nat" where
  "next_of m sid = (if isUnidirectionalStream sid then nextAcceptablePeerUnidirectionalStreamId m
                    else nextAcceptablePeerBidirectionalStreamId m)"

definition limit_of :: "stream_manager \<Rightarrow> nat \<Rightarrow> nat" where
  "limit_of m sid = (if isUnidirectionalStream sid then maxRemoteUnidirectionalStreamId m else maxRemoteBidirectionalStreamId m)"

lemma open_peer_of:
  assumes inv: "sm_inv c" and rem: "\<not> isLocalStream (qc_nodeType c) sid"
  shows "\<exists>b lim. peer_ok b lim (open_of (qc_nodeType c) (qc_manager c) sid) (next_of (qc_manager c) sid) (limit_of (qc_manager c) sid) \<and>
    sid mod kStreamIncrement = b"
proof -
  have id: "id_ok (qc_nodeType c) (qc_settings c) (qc_manager c)" using inv by (simp add: sm_inv_def)
  show ?thesis
    using id_okD(1,2) [OF id] kind_mod [OF id, of sid] rem
    by (cases "isUnidirectionalStream sid") (auto simp: open_of_def next_of_def limit_of_def)
qed

lemma openPeerStreams_spec:
  assumes inv: "sm_inv c" and rem: "\<not> isLocalStream (qc_nodeType c) sid" and m: "m = qc_manager c"
  shows "sid < next_of m sid \<Longrightarrow> openPeerStreams sid None c = Inr (CREATING_EXISTING_STREAM, c)"
    and "next_of m sid \<le> sid \<Longrightarrow> limit_of m sid \<le> sid \<Longrightarrow> openPeerStreams sid None c = Inr (STREAM_LIMIT_EXCEEDED, c)"
    and "next_of m sid \<le> sid \<Longrightarrow> sid < limit_of m sid \<Longrightarrow>
      \<exists>c'. openPeerStreams sid None c = Inr (NO_ERROR, c') \<and> next_of (qc_manager c') sid = sid + kStreamIncrement \<and>
        ss_ids (open_of (qc_nodeType c) (qc_manager c') sid) = ss_ids (open_of (qc_nodeType c) m sid) \<union>
          {i. next_of m sid \<le> i \<and> i \<le> sid \<and> i mod kStreamIncrement = sid mod kStreamIncrement} \<and>
        newPeerStreams (qc_manager c') = newPeerStreams m @
          (if ts_notifyOnNewStreamsExplicitly (qc_settings c) then [] else ids_upto (next_of m sid) sid) \<and>
        streamPriorityLevelsNoCtrl (qc_manager c') = streamPriorityLevelsNoCtrl m \<and> sm_streams (qc_manager c') = sm_streams m \<and>
        qc_settings c' = qc_settings c \<and> qc_nodeType c' = qc_nodeType c"
proof -
  obtain b lim where ok: "peer_ok b lim (open_of (qc_nodeType c) m sid) (next_of m sid) (limit_of m sid)" "sid mod kStreamIncrement = b"
    using open_peer_of [OF inv rem] m by blast
  note o = open_peer_ok [OF ok]
  note defs = openPeerStreams_def open_of_def next_of_def limit_of_def Let_def m
  show "openPeerStreams sid None c = Inr (CREATING_EXISTING_STREAM, c)" if "sid < next_of m sid"
    using o that rem by (cases "isUnidirectionalStream sid") (auto simp: defs)
  show "openPeerStreams sid None c = Inr (STREAM_LIMIT_EXCEEDED, c)" if "next_of m sid \<le> sid" "limit_of m sid \<le> sid"
    using o that rem by (cases "isUnidirectionalStream sid") (auto simp: defs)
  show "\<exists>c'. openPeerStreams sid None c = Inr (NO_ERROR, c') \<and> next_of (qc_manager c') sid = sid + kStreamIncrement \<and>
        ss_ids (open_of (qc_nodeType c) (qc_manager c') sid) = ss_ids (open_of (qc_nodeType c) m sid) \<union>
          {i. next_of m sid \<le> i \<and> i \<le> sid \<and> i mod kStreamIncrement = sid mod kStreamIncrement} \<and>
        newPeerStreams (qc_manager c') = newPeerStreams m @
          (if ts_notifyOnNewStreamsExplicitly (qc_settings c) then [] else ids_upto (next_of m sid) sid) \<and>
        streamPriorityLevelsNoCtrl (qc_manager c') = streamPriorityLevelsNoCtrl m \<and> sm_streams (qc_manager c') = sm_streams m \<and>
        qc_settings c' = qc_settings c \<and> qc_nodeType c' = qc_nodeType c"
    if "next_of m sid \<le> sid" "sid < limit_of m sid"
    using o that rem ok(2) by (cases "isUnidirectionalStream sid") (auto simp: defs)
qed

end
