(* ===== verification/Manager_Properties.thy ===== *)
theory Manager_Properties
  imports Manager_Runs
begin

text \<open>
  The properties of the stream manager: the limits over any run, what the peer's use of an
  identifier does, and three ways of running into a failed check.
\<close>

section \<open>Construction\<close>

lemma fresh_manager:
  assumes "ts_advertisedInitialMaxStreamsBidi ts \<le> kMaxMaxStreams" "ts_advertisedInitialMaxStreamsUni ts \<le> kMaxMaxStreams"
    and "pb = (if node = Server then 0 else 1)" "pu = (if node = Server then 2 else 3)"
  obtains m where "newQuicStreamManager node ts = Inr m"
    "nextAcceptablePeerBidirectionalStreamId m = pb" "nextAcceptablePeerUnidirectionalStreamId m = pu"
    "maxRemoteBidirectionalStreamId m = ts_advertisedInitialMaxStreamsBidi ts * kStreamIncrement + pb"
    "maxRemoteUnidirectionalStreamId m = ts_advertisedInitialMaxStreamsUni ts * kStreamIncrement + pu"
    "sm_streams m = Mapping.empty" "streamPriorityLevelsNoCtrl m = Mapping.empty"
    "peerBidirectionalStreamGroupsSeen m = newStreamIdSet pb" "peerUnidirectionalStreamGroupsSeen m = newStreamIdSet pu"
proof -
  have lim: "streamLimitId n b = Inr (n * kStreamIncrement + b)" if "n \<le> kMaxMaxStreams" "b < 4" for n b
    using that by (simp add: streamLimitId_def mul64_def add64_def kMaxMaxStreams_def kStreamIncrement_def)
  have "pb < 4" "pu < 4" using assms(3,4) by auto
  note l = lim [OF assms(1) this(1)] lim [OF assms(2) this(2)]
  show thesis
    using that assms(3,4) l
    by (simp add: newQuicStreamManager_def Let_def refreshTransportSettings_def setMaxRemoteBidirectionalStreamsInternal_def
      setMaxRemoteUnidirectionalStreamsInternal_def blankManager_def)
qed

section \<open>Limits\<close>

text \<open>
  C3. A manager built by the constructor keeps its promises over any sequence of calls: the
  peer never has more streams open than were advertised, no open identifier is at or above
  the next acceptable one, that one never passes the limit, and every stream with state is
  stored under its identifier and is open.
\<close>

theorem stream_limits_hold:
  assumes "newQuicStreamManager (qc_nodeType c) (qc_settings c) = Inr m" and "list_all manager_op_valid ops"
    and "manager_run ops (c\<lparr>qc_manager := m\<rparr>) = Inr c'" and "m' = qc_manager c'"
  shows "ss_size (openBidirectionalPeerStreams m') \<le> ts_advertisedInitialMaxStreamsBidi (qc_settings c) \<and>
    ss_size (openUnidirectionalPeerStreams m') \<le> ts_advertisedInitialMaxStreamsUni (qc_settings c) \<and>
    nextAcceptablePeerBidirectionalStreamId m' \<le> maxRemoteBidirectionalStreamId m' \<and>
    nextAcceptablePeerUnidirectionalStreamId m' \<le> maxRemoteUnidirectionalStreamId m' \<and>
    (\<forall>sid s. findStream sid m' = Some s \<longrightarrow> stream_id s = sid \<and> streamExists sid c')"
proof -
  have "sm_inv c'" and n: "qc_nodeType c' = qc_nodeType c" "qc_settings c' = qc_settings c"
    using manager_run_ok [OF newQuicStreamManager_ok [OF assms(1)] assms(2,3)] by simp_all
  then have id: "id_ok (qc_nodeType c') (qc_settings c') m'" and st: "streams_ok (qc_nodeType c') m'"
    by (simp_all add: sm_inv_def assms(4))
  have size: "ss_size os \<le> lim \<and> nxt \<le> mx" if "peer_ok b lim os nxt mx" for b lim os nxt mx
    using that by (auto simp: peer_ok_def ss_size_card)
  have ex: "stream_id s = sid \<and> streamExists sid c'" if "findStream sid m' = Some s" for sid s
    using streams_exist [OF id st that] by (simp add: assms(4) streamExists_open)
  show ?thesis
    using size [OF id_okD(1) [OF id]] size [OF id_okD(2) [OF id]] ex unfolding n by blast
qed

section \<open>The peer's use of an identifier\<close>

lemma instantiatePeerStream_new:
  assumes "findStream sid (qc_manager c) = None" and "Mapping.lookup (streamPriorityLevelsNoCtrl (qc_manager c)) sid = None"
  shows "\<exists>c'. instantiatePeerStream sid None c = Inr (Some sid, c') \<and>
    findStream sid (qc_manager c') = Some (newQuicStream sid None c) \<and> id_view (qc_manager c') = id_view (qc_manager c) \<and>
    newPeerStreams (qc_manager c') = newPeerStreams (qc_manager c) @ (if ts_notifyOnNewStreamsExplicitly (qc_settings c) then [sid] else [])"
proof -
  let ?c1 = "emplaceStream sid None (c\<lparr>qc_manager := noteNewPeerStream sid None (qc_settings c) (qc_manager c)\<rparr>)"
  have new: "newQuicStream sid None (c\<lparr>qc_manager := m\<rparr>) = newQuicStream sid None c" for m
    by (simp add: newQuicStream_def initialWindow_def initialPeerOffset_def)
  have st: "sm_streams (qc_manager ?c1) = Mapping.update sid (newQuicStream sid None c) (sm_streams (qc_manager c))"
      "Mapping.lookup (streamPriorityLevelsNoCtrl (qc_manager ?c1)) sid = None"
      "newPeerStreams (qc_manager ?c1) = newPeerStreams (qc_manager c) @ (if ts_notifyOnNewStreamsExplicitly (qc_settings c) then [sid] else [])"
    using assms by (auto simp: new map_emplace_def findStream_def emplaceStream_def upd_manager_def noteNewPeerStream_def)
  obtain m where m: "addToStreamPriorityMap (newQuicStream sid None ?c1) (qc_manager ?c1) = Inr m"
      "newPeerStreams m = newPeerStreams (qc_manager ?c1)"
    using st(2) by (auto simp: addToStreamPriorityMap_def newQuicStream_def notifyStreamPriorityChanges_def)
  note v = addToStreamPriorityMap_view [OF m(1)]
  have "instantiatePeerStream sid None c = Inr (Some sid, ?c1\<lparr>qc_manager := m\<rparr>)"
    by (simp add: instantiatePeerStream_def notePeerStreamGroup_def lift_manager_def m(1))
  then show ?thesis using v m(2) st by (intro exI [of _ "?c1\<lparr>qc_manager := m\<rparr>"]) (simp add: findStream_def)
qed

lemma idle_keeps [simp]: "newPeerStreams (updateAppIdleState m) = newPeerStreams m"
  by (simp add: updateAppIdleState_def)

lemma next_of_view: "id_view m' = id_view m \<Longrightarrow> next_of m' sid = next_of m sid"
  by (simp add: id_view_def next_of_def)

lemma findStream_idle [simp]: "findStream sid (updateAppIdleState m) = findStream sid m"
  by (simp add: findStream_def)

lemma getStream_remote:
  assumes rem: "isRemoteStream (qc_nodeType c) sid"
    and "sm_inv c" and "sid < 2 ^ 63" and new: "findStream sid (qc_manager c) = None"
  shows "getStream sid None c =
    bind_result
      (if sid \<in> ss_ids (open_of (qc_nodeType c) (qc_manager c) sid) then instantiatePeerStream sid None c
       else bind_result (openPeerStreams sid None c) (\<lambda>(result, c1).
              case result of CREATING_EXISTING_STREAM \<Rightarrow> Inr (None, c1) | STREAM_LIMIT_EXCEEDED \<Rightarrow> Inl Stream_limit_error
              | NO_ERROR \<Rightarrow> instantiatePeerStream sid None c1))
      (\<lambda>(r, c1). Inr (r, upd_manager updateAppIdleState c1))"
proof -
  let ?open = "open_of (qc_nodeType c) (qc_manager c) sid"
  have nloc: "\<not> isLocalStream (qc_nodeType c) sid" using rem by (simp add: isRemoteStream_iff)
  have id: "id_ok (qc_nodeType c) (qc_settings c) (qc_manager c)" using assms(2) by (simp add: sm_inv_def)
  have eq1: "(if isUnidirectionalStream sid then openUnidirectionalPeerStreams (qc_manager c)
      else openBidirectionalPeerStreams (qc_manager c)) = ?open" using nloc by (simp add: open_of_def)
  have eq2: "ss_contains sid ?open = (sid \<in> ss_ids ?open)"
    using ss_contains_iff [OF open_of_typed [OF id assms(3)]] .
  have side: "(qc_nodeType c = Client \<and> isClientStream sid) = False" "(qc_nodeType c = Server \<and> isServerStream sid) = False"
      "(\<not> isClientStream sid \<and> \<not> isServerStream sid) = False"
    using nloc by (auto simp: isLocalStream_def isClientStream_def isServerStream_def)
  show ?thesis unfolding getStream_def getOrCreatePeerStream_def side if_False eq1 eq2 using rem new by simp
qed

lemma getStream_opens:
  assumes "sm_inv c" and "isRemoteStream (qc_nodeType c) sid" and "sid < 2 ^ 62" and "m = qc_manager c"
    and "findStream sid m = None" and "Mapping.lookup (streamPriorityLevelsNoCtrl m) sid = None"
    and "os = ss_ids (open_of (qc_nodeType c) m sid)"
    and lt: "next_of m sid \<le> sid" "sid < limit_of m sid"
  shows "\<exists>c'. getStream sid None c = Inr (Some sid, c') \<and> next_of (qc_manager c') sid = sid + kStreamIncrement \<and>
        ss_ids (open_of (qc_nodeType c) (qc_manager c') sid) =
          os \<union> {i. next_of m sid \<le> i \<and> i \<le> sid \<and> i mod kStreamIncrement = sid mod kStreamIncrement} \<and>
        findStream sid (qc_manager c') \<noteq> None \<and>
        newPeerStreams (qc_manager c') = newPeerStreams m @
          (if ts_notifyOnNewStreamsExplicitly (qc_settings c) then [sid] else ids_upto (next_of m sid) sid)"
proof -
  have nloc: "\<not> isLocalStream (qc_nodeType c) sid" using assms(2) by (simp add: isRemoteStream_iff)
  have new: "findStream sid (qc_manager c) = None" using assms(4,5) by simp
  have "sid < 2 ^ 63" using assms(3) by simp
  note g = getStream_remote [OF assms(2,1) this new, folded assms(4), folded assms(7)]
  obtain b lim where ok: "peer_ok b lim (open_of (qc_nodeType c) m sid) (next_of m sid) (limit_of m sid)"
    using open_peer_of [OF assms(1) nloc] assms(4) by blast
  have below: "sid \<notin> os" using lt(1) ok assms(7) by (auto simp: peer_ok_def)
  obtain c1 where c1: "openPeerStreams sid None c = Inr (NO_ERROR, c1)" "next_of (qc_manager c1) sid = sid + kStreamIncrement"
      "ss_ids (open_of (qc_nodeType c) (qc_manager c1) sid) = ss_ids (open_of (qc_nodeType c) m sid) \<union>
        {i. next_of m sid \<le> i \<and> i \<le> sid \<and> i mod kStreamIncrement = sid mod kStreamIncrement}"
      "newPeerStreams (qc_manager c1) = newPeerStreams m @
        (if ts_notifyOnNewStreamsExplicitly (qc_settings c) then [] else ids_upto (next_of m sid) sid)"
      "streamPriorityLevelsNoCtrl (qc_manager c1) = streamPriorityLevelsNoCtrl m" "sm_streams (qc_manager c1) = sm_streams m"
      "qc_settings c1 = qc_settings c" "qc_nodeType c1 = qc_nodeType c"
    using openPeerStreams_spec(3) [OF assms(1) nloc assms(4) lt] by blast
  have "findStream sid (qc_manager c1) = None" "Mapping.lookup (streamPriorityLevelsNoCtrl (qc_manager c1)) sid = None"
    using assms(5,6) c1(5,6) by (simp_all add: findStream_def)
  from instantiatePeerStream_new [OF this] obtain c2 where c2: "instantiatePeerStream sid None c1 = Inr (Some sid, c2)"
      "findStream sid (qc_manager c2) \<noteq> None" "id_view (qc_manager c2) = id_view (qc_manager c1)"
      "newPeerStreams (qc_manager c2) = newPeerStreams (qc_manager c1) @ (if ts_notifyOnNewStreamsExplicitly (qc_settings c1) then [sid] else [])"
    by auto
  have "getStream sid None c = Inr (Some sid, upd_manager updateAppIdleState c2)"
    unfolding g using below c1(1) c2(1) by simp
  then show ?thesis
    using c1 c2 id_view_cong(2) [OF c2(3)] next_of_view [OF c2(3)] assms(7) id_view_cong(2) [of "updateAppIdleState (qc_manager c2)"]
      next_of_view [of "updateAppIdleState (qc_manager c2)"] by simp
qed

text \<open>
  C19. What the first use of a peer stream without state does, on every branch: an identifier
  that is open gets its state, one that was open and has been closed is reported as gone, one
  at or beyond the limit is a stream limit error, and one not yet used opens itself and every
  lower identifier of its kind and lists exactly the new ones for the application.
\<close>

theorem getStream_on_peer_stream:
  assumes "sm_inv c" and "isRemoteStream (qc_nodeType c) sid" and "sid < 2 ^ 62" and "m = qc_manager c"
    and "findStream sid m = None" and "Mapping.lookup (streamPriorityLevelsNoCtrl m) sid = None"
    and "os = ss_ids (open_of (qc_nodeType c) m sid)"
  shows "(sid \<in> os \<longrightarrow> (\<exists>c'. getStream sid None c = Inr (Some sid, c') \<and>
        findStream sid (qc_manager c') = Some (newQuicStream sid None c) \<and> id_view (qc_manager c') = id_view m)) \<and>
    (sid \<notin> os \<and> sid < next_of m sid \<longrightarrow>
      (\<exists>c'. getStream sid None c = Inr (None, c') \<and> id_view (qc_manager c') = id_view m \<and> sm_streams (qc_manager c') = sm_streams m)) \<and>
    (sid \<notin> os \<and> limit_of m sid \<le> sid \<and> next_of m sid \<le> sid \<longrightarrow> getStream sid None c = Inl Stream_limit_error) \<and>
    (next_of m sid \<le> sid \<and> sid < limit_of m sid \<longrightarrow>
      (\<exists>c'. getStream sid None c = Inr (Some sid, c') \<and> next_of (qc_manager c') sid = sid + kStreamIncrement \<and>
        ss_ids (open_of (qc_nodeType c) (qc_manager c') sid) =
          os \<union> {i. next_of m sid \<le> i \<and> i \<le> sid \<and> i mod kStreamIncrement = sid mod kStreamIncrement} \<and>
        findStream sid (qc_manager c') \<noteq> None \<and>
        newPeerStreams (qc_manager c') = newPeerStreams m @
          (if ts_notifyOnNewStreamsExplicitly (qc_settings c) then [sid] else ids_upto (next_of m sid) sid)))"
proof -
  have nloc: "\<not> isLocalStream (qc_nodeType c) sid" using assms(2) by (simp add: isRemoteStream_iff)
  have new: "findStream sid (qc_manager c) = None" "Mapping.lookup (streamPriorityLevelsNoCtrl (qc_manager c)) sid = None"
    using assms(4-6) by simp_all
  have "sid < 2 ^ 63" using assms(3) by simp
  note g = getStream_remote [OF assms(2,1) this new(1), folded assms(4), folded assms(7)]
  note o = openPeerStreams_spec [OF assms(1) nloc assms(4)]
  obtain b lim where ok: "peer_ok b lim (open_of (qc_nodeType c) m sid) (next_of m sid) (limit_of m sid)"
    using open_peer_of [OF assms(1) nloc] assms(4) by blast
  have below: "sid < next_of m sid" if "sid \<in> os" using that ok assms(7) by (auto simp: peer_ok_def)
  have ex: "\<exists>c'. getStream sid None c = Inr (Some sid, c') \<and>
        findStream sid (qc_manager c') = Some (newQuicStream sid None c) \<and> id_view (qc_manager c') = id_view m" if "sid \<in> os"
    using instantiatePeerStream_new [OF new] g that assms(4) by auto
  note opened = getStream_opens [OF assms]
  show ?thesis
    using ex opened o(1,2) g below assms(4) by auto
qed

section \<open>Stream groups\<close>

definition groups_seen :: "stream_manager \<Rightarrow> nat \<Rightarrow> stream_id_set" where
  "groups_seen m sid = (if isUnidirectionalStream sid then peerUnidirectionalStreamGroupsSeen m else peerBidirectionalStreamGroupsSeen m)"

lemma openPeerStreams_group:
  assumes inv: "sm_inv c" and rem: "\<not> isLocalStream (qc_nodeType c) sid" and m: "m = qc_manager c"
    and lt: "next_of m sid \<le> sid" "sid < limit_of m sid"
  shows "\<exists>c'. openPeerStreams sid grp c = Inr (NO_ERROR, c') \<and> groups_seen (qc_manager c') sid = groups_seen m sid \<and>
    streamPriorityLevelsNoCtrl (qc_manager c') = streamPriorityLevelsNoCtrl m \<and> sm_streams (qc_manager c') = sm_streams m"
proof -
  obtain b lim where ok: "peer_ok b lim (open_of (qc_nodeType c) m sid) (next_of m sid) (limit_of m sid)" "sid mod kStreamIncrement = b"
    using open_peer_of [OF inv rem] m by blast
  show ?thesis
    using open_peer_ok [OF ok] lt rem
    by (cases "isUnidirectionalStream sid")
      (auto simp: openPeerStreams_def open_of_def next_of_def limit_of_def Let_def m groups_seen_def)
qed

lemma getStream_group:
  assumes inv: "sm_inv c" and rem: "isRemoteStream (qc_nodeType c) sid" and "sid < 2 ^ 62" and m: "m = qc_manager c"
    and new: "findStream sid m = None" "Mapping.lookup (streamPriorityLevelsNoCtrl m) sid = None"
    and lt: "next_of m sid \<le> sid" "sid < limit_of m sid"
    and grp: "peerGroupError (qc_nodeType c) (qc_settings c) g = None" "\<not> ss_contains g (groups_seen m sid)"
  shows "(\<forall>e. ss_add g (groups_seen m sid) = Inl e \<longrightarrow> getStream sid (Some g) c = Inl e) \<and>
    (\<forall>seen. ss_add g (groups_seen m sid) = Inr seen \<longrightarrow> (\<exists>c'. getStream sid (Some g) c = Inr (Some sid, c')))"
proof -
  let ?open = "open_of (qc_nodeType c) (qc_manager c) sid"
  have nloc: "\<not> isLocalStream (qc_nodeType c) sid" using rem by (simp add: isRemoteStream_iff)
  obtain b lim where ok: "peer_ok b lim ?open (next_of m sid) (limit_of m sid)"
    using open_peer_of [OF inv nloc] m by blast
  have id: "id_ok (qc_nodeType c) (qc_settings c) (qc_manager c)" using inv by (simp add: sm_inv_def)
  have "sid < 2 ^ 63" using assms(3) by simp
  then have "ss_contains sid ?open = (sid \<in> ss_ids ?open)" using ss_contains_iff [OF open_of_typed [OF id]] by blast
  then have nopen: "ss_contains sid (if isUnidirectionalStream sid then openUnidirectionalPeerStreams (qc_manager c)
      else openBidirectionalPeerStreams (qc_manager c)) = False"
    using ok lt(1) nloc by (auto simp: peer_ok_def open_of_def)
  have side: "(qc_nodeType c = Client \<and> isClientStream sid) = False" "(qc_nodeType c = Server \<and> isServerStream sid) = False"
      "(\<not> isClientStream sid \<and> \<not> isServerStream sid) = False"
    using nloc by (auto simp: isLocalStream_def isClientStream_def isServerStream_def)
  obtain c1 where c1: "openPeerStreams sid (Some g) c = Inr (NO_ERROR, c1)" "groups_seen (qc_manager c1) sid = groups_seen m sid"
      "streamPriorityLevelsNoCtrl (qc_manager c1) = streamPriorityLevelsNoCtrl m" "sm_streams (qc_manager c1) = sm_streams m"
    using openPeerStreams_group [OF inv nloc m lt] by blast
  have get: "getStream sid (Some g) c = bind_result (instantiatePeerStream sid (Some g) c1)
      (\<lambda>(r, c1). Inr (r, upd_manager updateAppIdleState c1))"
    unfolding getStream_def getOrCreatePeerStream_def side if_False nopen using rem new m grp(1) c1(1) by simp
  have note': "notePeerStreamGroup sid (Some g) (qc_manager c1) = bind_result (ss_add g (groups_seen m sid)) (\<lambda>seen1.
      let m1 = (qc_manager c1)\<lparr>newPeerStreamGroups := insert g (newPeerStreamGroups (qc_manager c1))\<rparr>
      in Inr (if isUnidirectionalStream sid then m1\<lparr>peerUnidirectionalStreamGroupsSeen := seen1\<rparr>
              else m1\<lparr>peerBidirectionalStreamGroupsSeen := seen1\<rparr>))"
    using grp(2) c1(2) unfolding notePeerStreamGroup_def groups_seen_def by (simp add: Let_def)
  show ?thesis
  proof (cases "ss_add g (groups_seen m sid)")
    case (Inl e)
    then show ?thesis by (simp add: get instantiatePeerStream_def note')
  next
    case (Inr seen)
    then show ?thesis
      using new c1(3,4)
      by (auto simp: get instantiatePeerStream_def note' Let_def lift_manager_def addToStreamPriorityMap_def emplaceStream_def
        upd_manager_def noteNewPeerStream_def newQuicStream_def findStream_def)
  qed
qed

lemma ss_add_wrong:
  assumes "b < 4" "g mod 4 \<noteq> b" "g < 2 ^ 64"
  shows "ss_add g (newStreamIdSet b) = Inl Stream_check_failure" and "\<not> ss_contains g (newStreamIdSet b)"
proof -
  have "sub64 g b mod 4 = (g + (2 ^ 64 - b)) mod 4"
    using assms by (simp add: sub64_def mod_mod_cancel)
  moreover have "(g + (2 ^ 64 - b)) mod 4 \<noteq> 0"
  proof
    assume "(g + (2 ^ 64 - b)) mod 4 = 0"
    then have "(g + (2 ^ 64 - b) + b) mod 4 = b mod 4" by (metis add_0 mod_add_left_eq)
    moreover have "g + (2 ^ 64 - b) + b = g + 4 * 2 ^ 62" using assms(1) by simp
    ultimately show False using assms(1,2) by (simp only: mod_mult_self2 mod_less)
  qed
  ultimately show "ss_add g (newStreamIdSet b) = Inl Stream_check_failure"
    using assms(1) by (simp add: ss_add_def ss_add_range_def newStreamIdSet_def Let_def kStreamIncrement_def)
  show "\<not> ss_contains g (newStreamIdSet b)"
    by (simp add: ss_contains_def newStreamIdSet_def emptyIntervalSet_def contains_def Let_def)
qed

lemma fresh_group:
  assumes new: "newQuicStreamManager (qc_nodeType c) (qc_settings c) = Inr m" and rem: "isRemoteStream (qc_nodeType c) sid"
  shows "findStream sid m = None" "Mapping.lookup (streamPriorityLevelsNoCtrl m) sid = None" "next_of m sid \<le> sid"
    "groups_seen m sid = newStreamIdSet (sid mod kStreamIncrement)" "sm_inv (c\<lparr>qc_manager := m\<rparr>)"
proof -
  show inv: "sm_inv (c\<lparr>qc_manager := m\<rparr>)" using newQuicStreamManager_ok [OF new] .
  then have id: "id_ok (qc_nodeType c) (qc_settings c) m" by (simp add: sm_inv_def)
  have nloc: "\<not> isLocalStream (qc_nodeType c) sid" using rem by (simp add: isRemoteStream_iff)
  have fields: "sm_streams m = Mapping.empty" "streamPriorityLevelsNoCtrl m = Mapping.empty"
      "nextAcceptablePeerBidirectionalStreamId m = initialRemoteBidirectionalStreamId m"
      "nextAcceptablePeerUnidirectionalStreamId m = initialRemoteUnidirectionalStreamId m"
      "peerBidirectionalStreamGroupsSeen m = newStreamIdSet (initialRemoteBidirectionalStreamId m)"
      "peerUnidirectionalStreamGroupsSeen m = newStreamIdSet (initialRemoteUnidirectionalStreamId m)"
    using new unfolding newQuicStreamManager_def Let_def
    by (auto simp: refreshTransportSettings_def setMaxRemoteBidirectionalStreamsInternal_def
      setMaxRemoteUnidirectionalStreamsInternal_def bind_result_Inr blankManager_def)
  show "findStream sid m = None" "Mapping.lookup (streamPriorityLevelsNoCtrl m) sid = None"
    by (simp_all add: findStream_def fields)
  show "groups_seen m sid = newStreamIdSet (sid mod kStreamIncrement)"
    using kind_mod [OF id, of sid] nloc by (simp add: groups_seen_def fields)
  show "next_of m sid \<le> sid"
    using kind_mod [OF id, of sid] nloc mod_less_eq_dividend [of sid kStreamIncrement]
    by (simp add: next_of_def fields split: if_splits)
qed

lemma peerGroup_small: "peerGroupError node ts g = None \<Longrightarrow> g < 2 ^ 63"
  by (simp add: peerGroupError_def kMaxStreamGroupId_def kStreamIncrement_def split: if_splits)



section \<open>Witnesses\<close>

lemma sample_server:
  obtains m where "newQuicStreamManager Server defaultTransportSettings = Inr m" "next_of m 8 = 0" "limit_of m 8 = 8192"
    "findStream 8 m = None" "Mapping.lookup (streamPriorityLevelsNoCtrl m) 8 = None"
    "sm_inv ((sampleConn Server defaultTransportSettings)\<lparr>qc_manager := m\<rparr>)"
proof -
  have "\<not> isUnidirectionalStream 8" by (simp add: isUnidirectionalStream_def)
  then show thesis
    using that newQuicStreamManager_ok [of "sampleConn Server defaultTransportSettings"]
    by (rule_tac fresh_manager [of defaultTransportSettings 0 Server 2])
      (simp_all add: defaultTransportSettings_def kMaxMaxStreams_def next_of_def limit_of_def findStream_def kStreamIncrement_def)
qed

theorem stream_limits_hold_witness:
  "\<exists>m c'. newQuicStreamManager Server defaultTransportSettings = Inr m \<and>
     manager_run [Op_getStream 8 None] ((sampleConn Server defaultTransportSettings)\<lparr>qc_manager := m\<rparr>) = Inr c' \<and>
     ss_size (openBidirectionalPeerStreams (qc_manager c')) \<le> 2048 \<and> streamExists 8 c'"
proof -
  let ?c = "sampleConn Server defaultTransportSettings"
  obtain m where m: "newQuicStreamManager Server defaultTransportSettings = Inr m" "next_of m 8 = 0" "limit_of m 8 = 8192"
    "findStream 8 m = None" "Mapping.lookup (streamPriorityLevelsNoCtrl m) 8 = None" "sm_inv (?c\<lparr>qc_manager := m\<rparr>)"
    by (rule sample_server)
  have "isRemoteStream Server 8" by (simp add: stream_kinds)
  then obtain c' where c': "getStream 8 None (?c\<lparr>qc_manager := m\<rparr>) = Inr (Some 8, c')" "findStream 8 (qc_manager c') \<noteq> None"
    using getStream_opens [OF m(6), of 8 m] m(2-5) by auto
  then have run: "manager_run [Op_getStream 8 None] (?c\<lparr>qc_manager := m\<rparr>) = Inr c'" by simp
  show ?thesis
    using stream_limits_hold [of ?c m "[Op_getStream 8 None]" c'] m(1) run c'(2)
    by (auto simp: defaultTransportSettings_def)
qed

theorem getStream_on_peer_stream_witness:
  "\<exists>m c'. newQuicStreamManager Server defaultTransportSettings = Inr m \<and>
     getStream 8 None ((sampleConn Server defaultTransportSettings)\<lparr>qc_manager := m\<rparr>) = Inr (Some 8, c') \<and>
     next_of (qc_manager c') 8 = 12"
proof -
  obtain m where m: "newQuicStreamManager Server defaultTransportSettings = Inr m" "next_of m 8 = 0" "limit_of m 8 = 8192"
    "findStream 8 m = None" "Mapping.lookup (streamPriorityLevelsNoCtrl m) 8 = None"
    "sm_inv ((sampleConn Server defaultTransportSettings)\<lparr>qc_manager := m\<rparr>)"
    by (rule sample_server)
  have "isRemoteStream Server 8" by (simp add: stream_kinds)
  then show ?thesis
    using getStream_on_peer_stream [OF m(6), of 8 m] m by (auto simp: kStreamIncrement_def)
qed

text \<open>The default settings with sixteen groups.\<close>

definition groupSettings :: transport_settings where
  "groupSettings = defaultTransportSettings\<lparr>ts_advertisedMaxStreamGroups := 16\<rparr>"

lemma groupSettings_simps [simp]:
  "ts_advertisedInitialMaxStreamsBidi groupSettings = 2048" "ts_advertisedInitialMaxStreamsUni groupSettings = 2048"
  "ts_advertisedMaxStreamGroups groupSettings = 16"
  by (simp_all add: groupSettings_def defaultTransportSettings_def)



end
