(* ===== verification/Flow_Control.thy ===== *)
theory Flow_Control
  imports Stream_Manager
begin

text \<open>
  Flow control of streams and of the connection (\<open>flowcontrol/QuicFlowController.cpp\<close>): the
  credit given to the peer and renewed as the application reads, and the credit the peer
  gives. Offsets are 64-bit with their wrap-around, times are in nanoseconds as the clock
  has them, the round-trip time is in microseconds. A thrown internal error is
  \<open>Flow_state_overflow\<close>. Logging and statistics are left out.
\<close>

section \<open>Window updates\<close>

definition enoughTimeElapsed :: "int \<Rightarrow> transport_settings \<Rightarrow> int option \<Rightarrow> int \<Rightarrow> bool" where
  "enoughTimeElapsed srtt ts lastSendTime updateTime =
     (case lastSendTime of
        None \<Rightarrow> False
      | Some t \<Rightarrow> updateTime > t \<and> updateTime - t > int (ts_flowControlRttFrequency ts) * srtt * 1000)"

definition calculateNewWindowUpdate ::
    "nat \<Rightarrow> nat \<Rightarrow> nat \<Rightarrow> int \<Rightarrow> transport_settings \<Rightarrow> int option \<Rightarrow> int \<Rightarrow> nat option" where
  "calculateNewWindowUpdate curReadOffset curAdvertisedOffset windowSize srtt ts lastSendTime updateTime =
     (let nextAdvertisedOffset = add64 curReadOffset windowSize
      in if nextAdvertisedOffset = curAdvertisedOffset then None
         else if \<not> ts_disableFlowControlTimeBasedUpdates ts \<and> enoughTimeElapsed srtt ts lastSendTime updateTime \<and>
                 \<not> ts_autotuneReceiveConnFlowControl ts
         then Some nextAdvertisedOffset
         else if mul64 (sub64 curAdvertisedOffset curReadOffset) (ts_flowControlWindowFrequency ts) < windowSize
         then Some nextAdvertisedOffset
         else None)"

definition incrementWithOverFlowCheck :: "nat \<Rightarrow> nat \<Rightarrow> stream_error + nat" where
  "incrementWithOverFlowCheck num diff =
     (if num > 2 ^ 64 - 1 - diff then Inl Flow_state_overflow else Inr (add64 num diff))"

definition decrementWithOverFlowCheck :: "nat \<Rightarrow> nat \<Rightarrow> stream_error + nat" where
  "decrementWithOverFlowCheck num diff =
     (if num < add64 0 diff then Inl Flow_state_overflow else Inr (sub64 num diff))"

definition calculateMaximumData :: "quic_stream \<Rightarrow> nat" where
  "calculateMaximumData s =
     max (add64 (currentReadOffset s) (sf_windowSize (flowControlState s))) (sf_advertisedMaxOffset (flowControlState s))"

definition maybeIncreaseFlowControlWindow :: "int option \<Rightarrow> int \<Rightarrow> int \<Rightarrow> nat \<Rightarrow> stream_error + nat" where
  "maybeIncreaseFlowControlWindow lastUpdate updateTime srtt windowSize =
     (case lastUpdate of
        None \<Rightarrow> Inr windowSize
      | Some t \<Rightarrow>
          if srtt = 0 then Inr windowSize
          else if \<not> updateTime > t then Inl Stream_check_failure
          else if (updateTime - t) div 1000 < 2 * srtt then Inr (mul64 windowSize 2)
          else Inr windowSize)"

definition maybeIncreaseConnectionFlowControlWindow ::
    "conn_flow_control \<Rightarrow> int \<Rightarrow> int \<Rightarrow> stream_error + conn_flow_control" where
  "maybeIncreaseConnectionFlowControlWindow f updateTime srtt =
     bind_result (maybeIncreaseFlowControlWindow (cf_timeOfLastFlowControlUpdate f) updateTime srtt (cf_windowSize f))
       (\<lambda>w. Inr (f\<lparr>cf_windowSize := w\<rparr>))"

definition maybeIncreaseStreamFlowControlWindow ::
    "stream_flow_control \<Rightarrow> int \<Rightarrow> int \<Rightarrow> stream_error + stream_flow_control" where
  "maybeIncreaseStreamFlowControlWindow f updateTime srtt =
     bind_result (maybeIncreaseFlowControlWindow (sf_timeOfLastFlowControlUpdate f) updateTime srtt (sf_windowSize f))
       (\<lambda>w. Inr (f\<lparr>sf_windowSize := w\<rparr>))"

definition maybeSendConnWindowUpdate :: "int \<Rightarrow> quic_conn \<Rightarrow> stream_error + bool \<times> quic_conn" where
  "maybeSendConnWindowUpdate updateTime c =
     (if qc_connWindowUpdate c then Inr (False, c)
      else
        let f = qc_flow c
        in case calculateNewWindowUpdate (cf_sumCurReadOffset f) (cf_advertisedMaxOffset f) (cf_windowSize f) (qc_srtt c)
                  (qc_settings c) (cf_timeOfLastFlowControlUpdate f) updateTime of
             None \<Rightarrow> Inr (False, c)
           | Some _ \<Rightarrow>
               let c1 = c\<lparr>qc_connWindowUpdate := True\<rparr>
               in if ts_autotuneReceiveConnFlowControl (qc_settings c)
                  then bind_result (maybeIncreaseConnectionFlowControlWindow f updateTime (qc_srtt c))
                         (\<lambda>f1. Inr (True, c1\<lparr>qc_flow := f1\<rparr>))
                  else Inr (True, c1))"

definition maybeSendStreamWindowUpdate :: "int \<Rightarrow> quic_stream \<Rightarrow> quic_conn \<Rightarrow> bool \<times> quic_conn" where
  "maybeSendStreamWindowUpdate updateTime s c =
     (if \<not> shouldSendFlowControl s then (False, c)
      else if pendingWindowUpdate (stream_id s) (qc_manager c) then (False, c)
      else
        let f = flowControlState s
        in case calculateNewWindowUpdate (currentReadOffset s) (sf_advertisedMaxOffset f) (sf_windowSize f) (qc_srtt c)
                  (qc_settings c) (sf_timeOfLastFlowControlUpdate f) updateTime of
             None \<Rightarrow> (False, c)
           | Some _ \<Rightarrow> (True, upd_manager (queueWindowUpdate (stream_id s)) c))"

section \<open>Receiving and reading\<close>

definition updateFlowControlOnStreamData :: "nat \<Rightarrow> nat \<Rightarrow> quic_stream \<Rightarrow> quic_conn \<Rightarrow> stream_error + quic_conn" where
  "updateFlowControlOnStreamData previousMaxOffsetObserved bufferEndOffset s c =
     (if sf_advertisedMaxOffset (flowControlState s) < bufferEndOffset then Inl Flow_control_error
      else
        let curMaxOffsetObserved = max previousMaxOffsetObserved bufferEndOffset;
            diff = sub64 curMaxOffsetObserved previousMaxOffsetObserved;
            f = qc_flow c
        in bind_result (incrementWithOverFlowCheck (cf_sumMaxObservedOffset f) diff) (\<lambda>connMaxObservedOffset.
           if connMaxObservedOffset > cf_advertisedMaxOffset f then Inl Flow_control_error
           else bind_result (incrementWithOverFlowCheck (cf_sumMaxObservedOffset f) diff) (\<lambda>n.
                  Inr (c\<lparr>qc_flow := f\<lparr>cf_sumMaxObservedOffset := n\<rparr>\<rparr>))))"

definition updateFlowControlOnRead :: "nat \<Rightarrow> int \<Rightarrow> quic_stream \<Rightarrow> quic_conn \<Rightarrow> stream_error + quic_conn" where
  "updateFlowControlOnRead lastReadOffset readTime s c =
     (let diff = sub64 (currentReadOffset s) lastReadOffset
      in bind_result (incrementWithOverFlowCheck (cf_sumCurReadOffset (qc_flow c)) diff) (\<lambda>n.
         bind_result (maybeSendConnWindowUpdate readTime (upd_flow (\<lambda>f. f\<lparr>cf_sumCurReadOffset := n\<rparr>) c)) (\<lambda>(_, c1).
         Inr (snd (maybeSendStreamWindowUpdate readTime s c1)))))"

section \<open>Credit from the peer\<close>

definition getSendStreamFlowControlBytesWire :: "quic_stream \<Rightarrow> nat" where
  "getSendStreamFlowControlBytesWire s = sub64 (sf_peerAdvertisedMaxOffset (flowControlState s)) (nextOffsetToWrite s)"

definition getSendStreamFlowControlBytesAPI :: "quic_stream \<Rightarrow> nat" where
  "getSendStreamFlowControlBytesAPI s =
     (let sendFlowControlBytes = getSendStreamFlowControlBytesWire s;
          dataInBuffer = add64 (length (pendingWrites s)) (bm_length (writeBufMeta s))
      in if dataInBuffer > sendFlowControlBytes then 0 else sendFlowControlBytes - dataInBuffer)"

definition getSendConnFlowControlBytesWire :: "quic_conn \<Rightarrow> nat" where
  "getSendConnFlowControlBytesWire c = sub64 (cf_peerAdvertisedMaxOffset (qc_flow c)) (cf_sumCurWriteOffset (qc_flow c))"

definition getSendConnFlowControlBytesAPI :: "quic_conn \<Rightarrow> nat" where
  "getSendConnFlowControlBytesAPI c =
     (let connFlowControlBytes = getSendConnFlowControlBytesWire c
      in if cf_sumCurStreamBufferLen (qc_flow c) > connFlowControlBytes then 0
         else connFlowControlBytes - cf_sumCurStreamBufferLen (qc_flow c))"

definition getRecvStreamFlowControlBytes :: "quic_stream \<Rightarrow> nat" where
  "getRecvStreamFlowControlBytes s =
     (if sf_advertisedMaxOffset (flowControlState s) < currentReadOffset s then 0
      else sf_advertisedMaxOffset (flowControlState s) - currentReadOffset s)"

definition getRecvConnFlowControlBytes :: "quic_conn \<Rightarrow> nat" where
  "getRecvConnFlowControlBytes c = sub64 (cf_advertisedMaxOffset (qc_flow c)) (cf_sumCurReadOffset (qc_flow c))"

definition updateFlowControlOnWriteToSocket :: "nat \<Rightarrow> quic_conn \<Rightarrow> stream_error + quic_conn" where
  "updateFlowControlOnWriteToSocket len c =
     bind_result (incrementWithOverFlowCheck (cf_sumCurWriteOffset (qc_flow c)) len) (\<lambda>n.
       Inr (upd_flow (\<lambda>f. f\<lparr>cf_sumCurWriteOffset := n,
         cf_sumCurStreamBufferLen := sub64 (cf_sumCurStreamBufferLen f) len\<rparr>) c))"

definition updateFlowControlOnWriteToStream :: "nat \<Rightarrow> quic_conn \<Rightarrow> stream_error + quic_conn" where
  "updateFlowControlOnWriteToStream len c =
     bind_result (incrementWithOverFlowCheck (cf_sumCurStreamBufferLen (qc_flow c)) len) (\<lambda>n.
       Inr (upd_flow (\<lambda>f. f\<lparr>cf_sumCurStreamBufferLen := n\<rparr>) c))"

definition updateFlowControlOnResetStream :: "quic_stream \<Rightarrow> quic_conn \<Rightarrow> stream_error + quic_conn" where
  "updateFlowControlOnResetStream s c =
     bind_result (decrementWithOverFlowCheck (cf_sumCurStreamBufferLen (qc_flow c))
        (add64 (length (pendingWrites s)) (bm_length (writeBufMeta s)))) (\<lambda>n.
       Inr (upd_flow (\<lambda>f. f\<lparr>cf_sumCurStreamBufferLen := n\<rparr>) c))"

definition maybeWriteBlockAfterAPIWrite :: "quic_stream \<Rightarrow> quic_conn \<Rightarrow> quic_conn" where
  "maybeWriteBlockAfterAPIWrite s c =
     (if getSendStreamFlowControlBytesWire s = 0 \<and> pendingWrites s = [] \<and> bm_length (writeBufMeta s) = 0
      then upd_manager (queueBlocked (stream_id s) (sf_peerAdvertisedMaxOffset (flowControlState s))) c
      else c)"

definition maybeWriteDataBlockedAfterSocketWrite :: "quic_conn \<Rightarrow> quic_conn" where
  "maybeWriteDataBlockedAfterSocketWrite c =
     (if getSendConnFlowControlBytesWire c = 0 then c\<lparr>qc_sendDataBlocked := True\<rparr> else c)"

definition maybeWriteBlockAfterSocketWrite :: "quic_stream \<Rightarrow> quic_conn \<Rightarrow> quic_stream \<times> quic_conn" where
  "maybeWriteBlockAfterSocketWrite s c =
     (if streamWriteError s \<noteq> None then (s, c)
      else if finalWriteOffset s \<noteq> None \<and> hasSentFIN s then (s, c)
      else
        let shouldEmitStreamBlockedFrame =
              (if ts_useNewStreamBlockedCondition (qc_settings c) then getSendStreamFlowControlBytesWire s = 0
               else getSendStreamFlowControlBytesWire s = 0 \<and> (pendingWrites s \<noteq> [] \<or> bm_length (writeBufMeta s) > 0))
        in if shouldEmitStreamBlockedFrame \<and> \<not> sf_pendingBlockedFrame (flowControlState s)
           then (s\<lparr>flowControlState := (flowControlState s)\<lparr>sf_pendingBlockedFrame := True\<rparr>\<rparr>,
                 upd_manager (queueBlocked (stream_id s) (sf_peerAdvertisedMaxOffset (flowControlState s))) c)
           else (s, c))"

definition updateFlowControlList :: "quic_stream \<Rightarrow> quic_conn \<Rightarrow> quic_conn" where
  "updateFlowControlList s c = upd_manager (queueFlowControlUpdated (stream_id s)) c"

definition handleStreamWindowUpdate :: "nat \<Rightarrow> quic_stream \<Rightarrow> quic_conn \<Rightarrow> stream_error + quic_stream \<times> quic_conn" where
  "handleStreamWindowUpdate maximumData s c =
     (if sf_peerAdvertisedMaxOffset (flowControlState s) \<le> maximumData
      then
        let s1 = s\<lparr>flowControlState := (flowControlState s)\<lparr>sf_peerAdvertisedMaxOffset := maximumData, sf_pendingBlockedFrame := False\<rparr>\<rparr>;
            c1 = (if maximumData > add64 (add64 (currentWriteOffset s) (length (pendingWrites s))) (bm_length (writeBufMeta s))
                  then updateFlowControlList s1 c else c)
        in bind_result (updateWritableStreams s1 (qc_manager c1)) (\<lambda>m. Inr (s1, c1\<lparr>qc_manager := m\<rparr>))
      else Inr (s, c))"

definition handleConnWindowUpdate :: "nat \<Rightarrow> quic_conn \<Rightarrow> quic_conn" where
  "handleConnWindowUpdate maximumData c =
     (if cf_peerAdvertisedMaxOffset (qc_flow c) \<le> maximumData
      then upd_flow (\<lambda>f. f\<lparr>cf_peerAdvertisedMaxOffset := maximumData\<rparr>) c else c)"

definition handleConnBlocked :: "quic_conn \<Rightarrow> quic_conn" where
  "handleConnBlocked c = c\<lparr>qc_connWindowUpdate := True\<rparr>"

definition handleStreamBlocked :: "int \<Rightarrow> quic_stream \<Rightarrow> quic_conn \<Rightarrow> stream_error + quic_stream \<times> quic_conn" where
  "handleStreamBlocked now s c =
     bind_result
       (if ts_autotuneReceiveStreamFlowControl (qc_settings c)
        then bind_result (maybeIncreaseStreamFlowControlWindow (flowControlState s) now (qc_srtt c))
               (\<lambda>f. Inr (s\<lparr>flowControlState := f\<rparr>))
        else Inr s)
       (\<lambda>s1. Inr (s1, upd_manager (queueWindowUpdate (stream_id s)) c))"

section \<open>Sending, losing and building window updates\<close>

definition onConnWindowUpdateSent :: "nat \<Rightarrow> int \<Rightarrow> quic_conn \<Rightarrow> quic_conn" where
  "onConnWindowUpdateSent maximumDataSent sentTime c =
     (upd_flow (\<lambda>f. f\<lparr>cf_advertisedMaxOffset := maximumDataSent, cf_timeOfLastFlowControlUpdate := Some sentTime\<rparr>) c)
       \<lparr>qc_connWindowUpdate := False\<rparr>"

definition onStreamWindowUpdateSent :: "nat \<Rightarrow> int \<Rightarrow> quic_stream \<Rightarrow> quic_conn \<Rightarrow> quic_stream \<times> quic_conn" where
  "onStreamWindowUpdateSent maximumDataSent sentTime s c =
     (s\<lparr>flowControlState := (flowControlState s)
         \<lparr>sf_advertisedMaxOffset := maximumDataSent, sf_timeOfLastFlowControlUpdate := Some sentTime\<rparr>\<rparr>,
      upd_manager (removeWindowUpdate (stream_id s)) c)"

definition onConnWindowUpdateLost :: "quic_conn \<Rightarrow> quic_conn" where
  "onConnWindowUpdateLost c = c\<lparr>qc_connWindowUpdate := True\<rparr>"

definition onStreamWindowUpdateLost :: "quic_stream \<Rightarrow> quic_conn \<Rightarrow> quic_conn" where
  "onStreamWindowUpdateLost s c =
     (if \<not> shouldSendFlowControl s then c else upd_manager (queueWindowUpdate (stream_id s)) c)"

definition onBlockedLost :: "quic_stream \<Rightarrow> quic_conn \<Rightarrow> quic_stream \<times> quic_conn" where
  "onBlockedLost s c = maybeWriteBlockAfterSocketWrite s c"

definition onDataBlockedLost :: "quic_conn \<Rightarrow> quic_conn" where
  "onDataBlockedLost c = maybeWriteDataBlockedAfterSocketWrite c"

definition updateFlowControlStateWithSettings :: "conn_flow_control \<Rightarrow> transport_settings \<Rightarrow> conn_flow_control" where
  "updateFlowControlStateWithSettings f ts =
     f\<lparr>cf_windowSize := ts_advertisedInitialConnectionFlowControlWindow ts,
       cf_advertisedMaxOffset := ts_advertisedInitialConnectionFlowControlWindow ts\<rparr>"

definition generateMaxDataFrame :: "quic_conn \<Rightarrow> nat" where
  "generateMaxDataFrame c =
     max (add64 (cf_sumCurReadOffset (qc_flow c)) (cf_windowSize (qc_flow c))) (cf_advertisedMaxOffset (qc_flow c))"

definition generateMaxStreamDataFrame :: "quic_stream \<Rightarrow> nat \<times> nat" where
  "generateMaxStreamDataFrame s = (stream_id s, calculateMaximumData s)"

section \<open>Credit is renewed\<close>

lemma incrementWithOverFlowCheck_iff:
  assumes "a < 2 ^ 64" "d < 2 ^ 64"
  shows "incrementWithOverFlowCheck a d = (if a + d < 2 ^ 64 then Inr (a + d) else Inl Flow_state_overflow)"
  using assms by (auto simp: incrementWithOverFlowCheck_def add64_def)

text \<open>No update is due only while the unused credit is a fair share of the window.\<close>

lemma no_update_credit:
  assumes "calculateNewWindowUpdate read adv window srtt ts lastSendTime now = None"
    and "read \<le> adv" "adv < 2 ^ 64" "(adv - read) * ts_flowControlWindowFrequency ts < 2 ^ 64" "read + window < 2 ^ 64"
    and "0 < ts_flowControlWindowFrequency ts"
  shows "window \<le> (adv - read) * ts_flowControlWindowFrequency ts"
proof (cases "read + window = adv")
  case True
  then have "window = adv - read" by simp
  then show ?thesis using assms(6) by simp
next
  case False
  then show ?thesis using assms by (simp add: calculateNewWindowUpdate_def add64_eq sub64_eq mul64_eq Let_def split: if_splits)
qed

lemma maybeSendConnWindowUpdate_credit:
  assumes "maybeSendConnWindowUpdate now c = Inr (b, c')" and f: "f = qc_flow c"
    and "cf_sumCurReadOffset f \<le> cf_advertisedMaxOffset f" "cf_advertisedMaxOffset f < 2 ^ 64"
    and "(cf_advertisedMaxOffset f - cf_sumCurReadOffset f) * ts_flowControlWindowFrequency (qc_settings c) < 2 ^ 64"
    and "cf_sumCurReadOffset f + cf_windowSize f < 2 ^ 64" and "0 < ts_flowControlWindowFrequency (qc_settings c)"
  shows "qc_connWindowUpdate c' \<or>
    cf_windowSize f \<le> (cf_advertisedMaxOffset f - cf_sumCurReadOffset f) * ts_flowControlWindowFrequency (qc_settings c)"
proof (cases "qc_connWindowUpdate c'")
  case False
  then have "calculateNewWindowUpdate (cf_sumCurReadOffset f) (cf_advertisedMaxOffset f) (cf_windowSize f) (qc_srtt c)
      (qc_settings c) (cf_timeOfLastFlowControlUpdate f) now = None"
    using assms(1) f by (auto simp: maybeSendConnWindowUpdate_def Let_def bind_result_Inr split: if_splits option.splits)
  then show ?thesis using no_update_credit assms(3-7) by blast
qed simp

lemma maybeSendConnWindowUpdate_keeps:
  assumes "maybeSendConnWindowUpdate now c = Inr (b, c')"
  shows "cf_sumCurReadOffset (qc_flow c') = cf_sumCurReadOffset (qc_flow c) \<and>
    cf_advertisedMaxOffset (qc_flow c') = cf_advertisedMaxOffset (qc_flow c) \<and> qc_settings c' = qc_settings c \<and>
    qc_manager c' = qc_manager c \<and> qc_srtt c' = qc_srtt c \<and> qc_nodeType c' = qc_nodeType c"
  using assms by (auto simp: maybeSendConnWindowUpdate_def maybeIncreaseConnectionFlowControlWindow_def Let_def bind_result_Inr
    split: if_splits option.splits)

lemma maybeSendStreamWindowUpdate_credit:
  assumes "shouldSendFlowControl s" and f: "f = flowControlState s"
    and "currentReadOffset s \<le> sf_advertisedMaxOffset f" "sf_advertisedMaxOffset f < 2 ^ 64"
    and "(sf_advertisedMaxOffset f - currentReadOffset s) * ts_flowControlWindowFrequency (qc_settings c) < 2 ^ 64"
    and "currentReadOffset s + sf_windowSize f < 2 ^ 64" and "0 < ts_flowControlWindowFrequency (qc_settings c)"
  shows "pendingWindowUpdate (stream_id s) (qc_manager (snd (maybeSendStreamWindowUpdate now s c))) \<or>
    sf_windowSize f \<le> (sf_advertisedMaxOffset f - currentReadOffset s) * ts_flowControlWindowFrequency (qc_settings c)"
  using no_update_credit [OF _ assms(3-7)] assms(1,2)
  by (auto simp: maybeSendStreamWindowUpdate_def upd_manager_def queueWindowUpdate_def pendingWindowUpdate_def Let_def split: option.splits)

lemma maybeSendStreamWindowUpdate_conn:
  "qc_flow (snd (maybeSendStreamWindowUpdate now s c)) = qc_flow c"
  "qc_connWindowUpdate (snd (maybeSendStreamWindowUpdate now s c)) = qc_connWindowUpdate c"
  by (auto simp: maybeSendStreamWindowUpdate_def upd_manager_def Let_def split: option.splits)

text \<open>
  C20. Reading never leaves the peer starved of credit: after a read either an update of the
  window is pending or the credit the peer has left is at least the window divided by
  the update frequency, for the connection and for an open stream; and sending the frame
  that is then built restores a full window beyond what was read, without ever taking
  credit back.
\<close>

theorem read_renews_credit:
  assumes "updateFlowControlOnRead lastReadOffset now s c = Inr c'"
    and "freq = ts_flowControlWindowFrequency (qc_settings c)" "0 < freq"
    and "read = cf_sumCurReadOffset (qc_flow c')" "adv = cf_advertisedMaxOffset (qc_flow c)" "win = cf_windowSize (qc_flow c)"
    and "read \<le> adv" "adv < 2 ^ 64" "(adv - read) * freq < 2 ^ 64" "read + win < 2 ^ 64"
    and "sread = currentReadOffset s" "sadv = sf_advertisedMaxOffset (flowControlState s)" "swin = sf_windowSize (flowControlState s)"
    and "sread \<le> sadv" "sadv < 2 ^ 64" "(sadv - sread) * freq < 2 ^ 64" "sread + swin < 2 ^ 64" "shouldSendFlowControl s"
  shows "(qc_connWindowUpdate c' \<or> win \<le> (adv - read) * freq) \<and>
    (pendingWindowUpdate (stream_id s) (qc_manager c') \<or> swin \<le> (sadv - sread) * freq) \<and>
    (let c'' = onConnWindowUpdateSent (generateMaxDataFrame c') t c'
     in adv \<le> cf_advertisedMaxOffset (qc_flow c'') \<and> \<not> qc_connWindowUpdate c'' \<and>
        (cf_windowSize (qc_flow c') = win \<longrightarrow> read + win \<le> cf_advertisedMaxOffset (qc_flow c''))) \<and>
    (let (s'', c'') = onStreamWindowUpdateSent (snd (generateMaxStreamDataFrame s)) t s c'
     in sadv \<le> sf_advertisedMaxOffset (flowControlState s'') \<and> sread + swin \<le> sf_advertisedMaxOffset (flowControlState s'') \<and>
        \<not> pendingWindowUpdate (stream_id s) (qc_manager c''))"
proof -
  obtain n b c1 where c1: "maybeSendConnWindowUpdate now (upd_flow (\<lambda>f. f\<lparr>cf_sumCurReadOffset := n\<rparr>) c) = Inr (b, c1)"
    and c': "c' = snd (maybeSendStreamWindowUpdate now s c1)"
    using assms(1) by (auto simp: updateFlowControlOnRead_def Let_def bind_result_Inr)
  note k = maybeSendConnWindowUpdate_keeps [OF c1]
  have n: "read = n" "cf_advertisedMaxOffset (qc_flow c') = adv" "qc_settings c1 = qc_settings c"
    using k assms(4,5) by (simp_all add: c' maybeSendStreamWindowUpdate_conn upd_flow_def)
  have "qc_connWindowUpdate c1 \<or> win \<le> (adv - read) * freq"
    using maybeSendConnWindowUpdate_credit [OF c1 refl] assms(2,3,5-10) n by (simp add: upd_flow_def)
  moreover have "pendingWindowUpdate (stream_id s) (qc_manager c') \<or> swin \<le> (sadv - sread) * freq"
    using maybeSendStreamWindowUpdate_credit [OF assms(18) refl, of c1 now] assms(2,3,11-17) n by (simp add: c')
  ultimately show ?thesis
    using n assms(4,10,11-13,17)
    by (simp add: c' maybeSendStreamWindowUpdate_conn onConnWindowUpdateSent_def upd_flow_def generateMaxDataFrame_def
      onStreamWindowUpdateSent_def upd_manager_def removeWindowUpdate_def pendingWindowUpdate_def
      generateMaxStreamDataFrame_def calculateMaximumData_def add64_eq Let_def)
qed

section \<open>Blocked frames and the window\<close>

fun blocked_frames :: "int list \<Rightarrow> quic_stream \<Rightarrow> quic_conn \<Rightarrow> stream_error + quic_stream \<times> quic_conn" where
  "blocked_frames [] s c = Inr (s, c)"
| "blocked_frames (now # nows) s c = bind_result (handleStreamBlocked now s c) (\<lambda>(s1, c1). blocked_frames nows s1 c1)"

lemma blocked_frames_window:
  assumes "ts_autotuneReceiveStreamFlowControl (qc_settings c)" and "sf_timeOfLastFlowControlUpdate (flowControlState s) = Some t"
    and "\<And>now. now \<in> set nows \<Longrightarrow> t < now \<and> (now - t) div 1000 < 2 * qc_srtt c" and "sf_windowSize (flowControlState s) < 2 ^ 64"
  shows "\<exists>c'. blocked_frames nows s c = Inr (s\<lparr>flowControlState := (flowControlState s)\<lparr>sf_windowSize :=
      sf_windowSize (flowControlState s) * 2 ^ length nows mod 2 ^ 64\<rparr>\<rparr>, c')"
  using assms
proof (induction nows arbitrary: s c)
  case (Cons now nows)
  let ?s = "s\<lparr>flowControlState := (flowControlState s)\<lparr>sf_windowSize := mul64 (sf_windowSize (flowControlState s)) 2\<rparr>\<rparr>"
  let ?c = "upd_manager (queueWindowUpdate (stream_id s)) c"
  have "t < now" "(now - t) div 1000 < 2 * qc_srtt c" using Cons.prems(3) by simp_all
  then have "qc_srtt c \<noteq> 0" using pos_imp_zdiv_nonneg_iff [of 1000 "now - t"] by auto
  then have step: "handleStreamBlocked now s c = Inr (?s, ?c)"
    using Cons.prems(1-3) by (simp add: handleStreamBlocked_def maybeIncreaseStreamFlowControlWindow_def maybeIncreaseFlowControlWindow_def)
  have "\<exists>c'. blocked_frames nows ?s ?c = Inr (?s\<lparr>flowControlState := (flowControlState ?s)\<lparr>sf_windowSize :=
      sf_windowSize (flowControlState ?s) * 2 ^ length nows mod 2 ^ 64\<rparr>\<rparr>, c')"
    by (rule Cons.IH) (use Cons.prems in \<open>auto simp: upd_manager_def mul64_def\<close>)
  then show ?case
    by (simp add: step mul64_def mod_mult_left_eq mult.assoc)
qed simp


section \<open>Updates from the peer\<close>

lemma handleConnWindowUpdate_max:
  "handleConnWindowUpdate x c =
     c\<lparr>qc_flow := (qc_flow c)\<lparr>cf_peerAdvertisedMaxOffset := max (cf_peerAdvertisedMaxOffset (qc_flow c)) x\<rparr>\<rparr>"
  by (auto simp: handleConnWindowUpdate_def upd_flow_def max_def)

text \<open>
  C37. The order in which the peer's connection window updates arrive does not matter, nor does
  a repetition: the credit is the largest value ever received, and nothing else changes.
\<close>

theorem conn_window_updates_commute:
  "fold handleConnWindowUpdate frames c =
     c\<lparr>qc_flow := (qc_flow c)\<lparr>cf_peerAdvertisedMaxOffset := Max (insert (cf_peerAdvertisedMaxOffset (qc_flow c)) (set frames))\<rparr>\<rparr>"
proof (induction frames arbitrary: c)
  case (Cons x frames)
  have "fold handleConnWindowUpdate (x # frames) c = fold handleConnWindowUpdate frames (handleConnWindowUpdate x c)" by simp
  also have "\<dots> = c\<lparr>qc_flow := (qc_flow c)\<lparr>cf_peerAdvertisedMaxOffset :=
      Max (insert (max (cf_peerAdvertisedMaxOffset (qc_flow c)) x) (set frames))\<rparr>\<rparr>"
    unfolding Cons.IH by (simp add: handleConnWindowUpdate_max)
  also have "Max (insert (max (cf_peerAdvertisedMaxOffset (qc_flow c)) x) (set frames)) =
      Max (insert (cf_peerAdvertisedMaxOffset (qc_flow c)) (set (x # frames)))"
    by (cases "set frames = {}") (simp_all add: max.assoc)
  finally show ?case .
qed simp

section \<open>Violations\<close>

text \<open>
  C21. Received data is charged to both credits exactly: an end offset beyond the stream's
  credit, or a growth of the highest offset beyond the connection's credit, is a flow
  control error; otherwise the connection is charged the growth and nothing else, which
  keeps it within its credit. A sum that does not fit is an internal error, never a wrap.
\<close>

theorem stream_data_is_charged:
  assumes "prev < 2 ^ 64" "bend < 2 ^ 64" "f = qc_flow c" "cf_sumMaxObservedOffset f < 2 ^ 64"
    and "grow = max prev bend - prev"
  shows "updateFlowControlOnStreamData prev bend s c =
    (if sf_advertisedMaxOffset (flowControlState s) < bend then Inl Flow_control_error
     else if 2 ^ 64 \<le> cf_sumMaxObservedOffset f + grow then Inl Flow_state_overflow
     else if cf_advertisedMaxOffset f < cf_sumMaxObservedOffset f + grow then Inl Flow_control_error
     else Inr (c\<lparr>qc_flow := f\<lparr>cf_sumMaxObservedOffset := cf_sumMaxObservedOffset f + grow\<rparr>\<rparr>))"
proof -
  have d: "sub64 (max prev bend) prev = grow" "grow < 2 ^ 64" using assms by (auto simp: sub64_eq)
  show ?thesis
    using assms(3,4) d(2) by (simp add: updateFlowControlOnStreamData_def d(1) Let_def incrementWithOverFlowCheck_iff)
qed

section \<open>Witnesses\<close>

definition sampleStream :: quic_stream where
  "sampleStream = (newQuicStream 0 None (sampleConn Server defaultTransportSettings))
     \<lparr>currentReadOffset := 40000, maxOffsetObserved := 50000\<rparr>"

definition sampleSettings :: transport_settings where
  "sampleSettings = defaultTransportSettings\<lparr>ts_autotuneReceiveStreamFlowControl := True\<rparr>"

lemmas sample_flow = sampleStream_def sampleConn_def newQuicStream_def initialWindow_def initialPeerOffset_def
  defaultTransportSettings_def sampleSettings_def isUnidirectionalStream_def isLocalStream_def isClientStream_def
  isServerStream_def isBidirectionalStream_def

lemma sampleStream_simps:
  "stream_id sampleStream = 0" "currentReadOffset sampleStream = 40000" "recvState sampleStream = Recv_Open"
  "sf_windowSize (flowControlState sampleStream) = 66560" "sf_advertisedMaxOffset (flowControlState sampleStream) = 66560"
  "sf_timeOfLastFlowControlUpdate (flowControlState sampleStream) = None"
  by (simp_all add: sample_flow)

lemma sampleConn_flow:
  "cf_sumCurReadOffset (qc_flow (sampleConn node ts)) = 0" "cf_advertisedMaxOffset (qc_flow (sampleConn node ts)) = 1048576"
  "cf_windowSize (qc_flow (sampleConn node ts)) = 1048576" "qc_connWindowUpdate (sampleConn node ts) = False"
  "cf_timeOfLastFlowControlUpdate (qc_flow (sampleConn node ts)) = None" "qc_srtt (sampleConn node ts) = 0"
  "cf_sumMaxObservedOffset (qc_flow (sampleConn node ts)) = 0"
  by (simp_all add: sampleConn_def)

lemma sampleSettings_simps:
  "ts_flowControlWindowFrequency defaultTransportSettings = 2" "ts_flowControlWindowFrequency sampleSettings = 2"
  "ts_autotuneReceiveStreamFlowControl sampleSettings"
  by (simp_all add: sample_flow)

lemma sample_read:
  obtains c' where "updateFlowControlOnRead 0 5 sampleStream (sampleConn Server defaultTransportSettings) = Inr c'"
    "cf_sumCurReadOffset (qc_flow c') = 40000"
proof -
  let ?c = "upd_flow (\<lambda>f. f\<lparr>cf_sumCurReadOffset := 40000\<rparr>) (sampleConn Server defaultTransportSettings)"
  have "calculateNewWindowUpdate 40000 1048576 1048576 0 defaultTransportSettings None 5 = None"
    by (simp add: calculateNewWindowUpdate_def enoughTimeElapsed_def add64_def sub64_def mul64_def sampleSettings_simps)
  then have "maybeSendConnWindowUpdate 5 ?c = Inr (False, ?c)"
    by (simp add: maybeSendConnWindowUpdate_def upd_flow_def sampleConn_flow)
  then have "updateFlowControlOnRead 0 5 sampleStream (sampleConn Server defaultTransportSettings) =
      Inr (snd (maybeSendStreamWindowUpdate 5 sampleStream ?c))"
    by (simp add: updateFlowControlOnRead_def sampleStream_simps sampleConn_flow sub64_def incrementWithOverFlowCheck_def add64_def)
  then show thesis by (rule that) (simp add: maybeSendStreamWindowUpdate_conn upd_flow_def)
qed

theorem read_renews_credit_witness:
  "\<exists>c'. updateFlowControlOnRead 0 5 sampleStream (sampleConn Server defaultTransportSettings) = Inr c' \<and>
     pendingWindowUpdate 0 (qc_manager c')"
proof (rule sample_read)
  fix c' assume c': "updateFlowControlOnRead 0 5 sampleStream (sampleConn Server defaultTransportSettings) = Inr c'"
    "cf_sumCurReadOffset (qc_flow c') = 40000"
  have "pendingWindowUpdate (stream_id sampleStream) (qc_manager c') \<or> (66560::nat) \<le> (66560 - 40000) * 2"
    using read_renews_credit [OF c'(1) refl _ refl refl refl _ _ _ _ refl refl refl, THEN conjunct2, THEN conjunct1] c'(2)
    unfolding sampleStream_simps sampleConn_flow sampleConn_simps sampleSettings_simps shouldSendFlowControl_def c'(2) by simp
  then show ?thesis using c'(1) by (simp add: sampleStream_simps)
qed


theorem stream_data_is_charged_witness:
  "updateFlowControlOnStreamData 50000 60000 sampleStream (sampleConn Server defaultTransportSettings) =
     Inr ((sampleConn Server defaultTransportSettings)\<lparr>qc_flow :=
       (qc_flow (sampleConn Server defaultTransportSettings))\<lparr>cf_sumMaxObservedOffset := 10000\<rparr>\<rparr>) \<and>
   updateFlowControlOnStreamData 50000 70000 sampleStream (sampleConn Server defaultTransportSettings) = Inl Flow_control_error"
  using stream_data_is_charged [of 50000 60000 "qc_flow (sampleConn Server defaultTransportSettings)"
      "sampleConn Server defaultTransportSettings" 10000 sampleStream]
    stream_data_is_charged [of 50000 70000 "qc_flow (sampleConn Server defaultTransportSettings)"
      "sampleConn Server defaultTransportSettings" 20000 sampleStream]
  by (simp add: sampleStream_simps sampleConn_flow)

end
