(* ===== verification/Stream_Functions.thy ===== *)
theory Stream_Functions
  imports Flow_Control
begin

text \<open>
  Writing to and reading from a stream (\<open>state/QuicStreamFunctions.cpp\<close>), resets
  (\<open>state/stream/StreamStateFunctions.cpp\<close>) and the send and receive state machines
  (\<open>StreamSendHandlers.cpp\<close>, \<open>StreamReceiveHandlers.cpp\<close>). A handler takes the stream and its
  connection and returns both; \<open>Clock::now()\<close> is an argument, once per call. A thrown
  exception is an \<open>Inl\<close>; the state is then not used any more, because the connection closes.
\<close>

section \<open>Writing\<close>

definition writeDataToQuicStream :: "u8 list \<Rightarrow> bool \<Rightarrow> quic_stream \<Rightarrow> quic_conn \<Rightarrow> stream_error + quic_stream \<times> quic_conn" where
  "writeDataToQuicStream data eof s c =
     (if bm_offset (writeBufMeta s) \<noteq> 0 then Inl Stream_check_failure
      else if eof \<and> dsrSender s then Inl Stream_check_failure
      else
        let len = length data;
            c1 = (if len > 0 then maybeWriteBlockAfterAPIWrite s c else c);
            s1 = s\<lparr>pendingWrites := pendingWrites s @ data, writeBuffer := writeBuffer s @ data\<rparr>;
            s2 = (if eof then s1\<lparr>finalWriteOffset := Some (add64 (currentWriteOffset s1) (length (pendingWrites s1)))\<rparr> else s1)
        in bind_result (updateFlowControlOnWriteToStream len c1) (\<lambda>c2.
           bind_result (lift_manager (updateWritableStreams s2) c2) (\<lambda>c3. Inr (s2, c3))))"

definition writeBufMetaToQuicStream :: "nat \<Rightarrow> bool \<Rightarrow> quic_stream \<Rightarrow> quic_conn \<Rightarrow> stream_error + quic_stream \<times> quic_conn" where
  "writeBufMetaToQuicStream len eof s c =
     (let c1 = (if len > 0 then maybeWriteBlockAfterAPIWrite s c else c);
          realDataLength = add64 (currentWriteOffset s) (length (pendingWrites s));
          m = writeBufMeta s
      in if \<not> realDataLength > 0 then Inl Stream_check_failure
         else if bm_offset m = 0 \<and> finalWriteOffset s \<noteq> None then Inl Stream_check_failure
         else
           let m1 = (if bm_offset m = 0 then m\<lparr>bm_offset := realDataLength\<rparr> else m);
               m2 = m1\<lparr>bm_length := add64 (bm_length m1) len\<rparr>;
               s1 = (if eof then s\<lparr>writeBufMeta := m2\<lparr>bm_eof := True\<rparr>, finalWriteOffset := Some (add64 (bm_offset m2) (bm_length m2))\<rparr>
                     else s\<lparr>writeBufMeta := m2\<rparr>)
           in bind_result (updateFlowControlOnWriteToStream len c1) (\<lambda>c2.
              bind_result (lift_manager (updateWritableStreams s1) c2) (\<lambda>c3. Inr (s1, c3))))"

section \<open>Receiving and reading\<close>

text \<open>The visitor of the common append charges the connection.\<close>

definition appendDataToReadBuffer :: "stream_buffer \<Rightarrow> quic_stream \<Rightarrow> quic_conn \<Rightarrow> stream_error + quic_stream \<times> quic_conn" where
  "appendDataToReadBuffer b s c =
     appendDataToReadBufferCommon b (\<lambda>prev bend c. updateFlowControlOnStreamData prev bend s c) s c"

text \<open>\<open>updateReadableStreams\<close> and \<open>updatePeekableStreams\<close>, which end every read.\<close>

definition updateReadPeek :: "int \<Rightarrow> quic_stream \<Rightarrow> quic_conn \<Rightarrow> quic_stream \<times> quic_conn" where
  "updateReadPeek now s c = (let (s1, c1) = updateReadableStreams now s c in (s1, updatePeekableStreams s1 c1))"

definition readDataFromQuicStream ::
    "nat \<Rightarrow> int \<Rightarrow> int \<Rightarrow> quic_stream \<Rightarrow> quic_conn \<Rightarrow> stream_error + (quic_stream \<times> quic_conn) \<times> u8 list \<times> bool" where
  "readDataFromQuicStream amount now now2 s c =
     (if (case finalReadOffset s of None \<Rightarrow> False | Some f \<Rightarrow> currentReadOffset s \<ge> f)
      then
        let s1 = (if finalReadOffset s = Some (currentReadOffset s) then s\<lparr>currentReadOffset := add64 (currentReadOffset s) 1\<rparr> else s)
        in Inr (updateReadPeek now2 s1 c, [], True)
      else
        bind_result (readDataInOrderFromReadBuffer amount s) (\<lambda>(s1, data, _).
        bind_result (updateFlowControlOnRead (currentReadOffset s) now s1 c) (\<lambda>c1.
        let eof = (finalReadOffset s1 = Some (currentReadOffset s1));
            s2 = (if eof then s1\<lparr>currentReadOffset := add64 (currentReadOffset s1) 1\<rparr> else s1)
        in Inr (updateReadPeek now2 s2 c1, data, eof))))"

definition consumeDataFromQuicStream ::
    "nat \<Rightarrow> int \<Rightarrow> int \<Rightarrow> quic_stream \<Rightarrow> quic_conn \<Rightarrow> stream_error + quic_stream \<times> quic_conn" where
  "consumeDataFromQuicStream amount now now2 s c =
     (if (case finalReadOffset s of None \<Rightarrow> False | Some f \<Rightarrow> currentReadOffset s \<ge> f)
      then
        let s1 = (if finalReadOffset s = Some (currentReadOffset s) then s\<lparr>currentReadOffset := add64 (currentReadOffset s) 1\<rparr> else s)
        in Inr (updateReadPeek now2 s1 c)
      else
        bind_result (readDataInOrderFromReadBuffer amount s) (\<lambda>(s1, _, _).
        bind_result (updateFlowControlOnRead (currentReadOffset s) now s1 c) (\<lambda>c1.
        let eof = (finalReadOffset s1 = Some (currentReadOffset s1));
            s2 = (if eof then s1\<lparr>currentReadOffset := add64 (currentReadOffset s1) 1\<rparr> else s1)
        in Inr (updateReadPeek now2 s2 c1))))"

section \<open>Queries\<close>

text \<open>The conjunction is evaluated from the left and stops at the first false conjunct.\<close>

definition allBytesTillFinAcked :: "quic_stream \<Rightarrow> stream_error + bool" where
  "allBytesTillFinAcked s =
     (if hasSentFIN s \<and> Mapping.keys (retransmissionBuffer s) = {} \<and> Mapping.keys (retransmissionBufMetas s) = {} \<and>
         pendingWrites s = []
      then bind_result (hasWritableBufMeta s) (\<lambda>w. Inr (\<not> w \<and> lossBuffer s = [] \<and> lossBufMetas s = []))
      else Inr False)"

definition appendPendingStreamReset :: "quic_stream \<Rightarrow> nat \<Rightarrow> quic_conn \<Rightarrow> quic_conn" where
  "appendPendingStreamReset s errorCode c =
     (let writeBufWritten = (bm_offset (writeBufMeta s) \<noteq> 0 \<and>
            add64 (currentWriteOffset s) (length (pendingWrites s)) \<noteq> bm_offset (writeBufMeta s));
          off = min (if writeBufWritten then bm_offset (writeBufMeta s) else currentWriteOffset s)
                    (case finalWriteOffset s of None \<Rightarrow> 2 ^ 64 - 1 | Some f \<Rightarrow> f)
      in c\<lparr>qc_resets := map_emplace (stream_id s)
             \<lparr>rst_streamId = stream_id s, rst_errorCode = errorCode, rst_offset = off\<rparr> (qc_resets c)\<rparr>)"

definition getLargestWriteOffsetSeen :: "quic_stream \<Rightarrow> nat" where
  "getLargestWriteOffsetSeen s =
     (case finalWriteOffset s of
        Some f \<Rightarrow> f
      | None \<Rightarrow> max (add64 (currentWriteOffset s) (length (pendingWrites s)))
                    (add64 (bm_offset (writeBufMeta s)) (bm_length (writeBufMeta s))))"

definition getLargestWriteOffsetTxed :: "quic_stream \<Rightarrow> nat option" where
  "getLargestWriteOffsetTxed s =
     (if currentWriteOffset s = 0 \<and> bm_offset (writeBufMeta s) = 0 then None
      else Some (max (currentWriteOffset s) (bm_offset (writeBufMeta s)) - 1))"

definition getLargestDeliverableOffset :: "quic_stream \<Rightarrow> nat option" where
  "getLargestDeliverableOffset s =
     (case is_intervals (ackedIntervals s) of
        [] \<Rightarrow> None
      | i # _ \<Rightarrow> if iv_start i \<noteq> 0 then None else Some (iv_end i))"

text \<open>The acknowledged part of the handshake data leaves the retransmission buffer.\<close>

definition processCryptoStreamAck :: "nat \<Rightarrow> nat \<Rightarrow> (nat, write_stream_buffer) mapping \<Rightarrow> (nat, write_stream_buffer) mapping" where
  "processCryptoStreamAck off len rtx =
     (case Mapping.lookup rtx off of
        None \<Rightarrow> rtx
      | Some b \<Rightarrow> if wb_offset b \<noteq> off \<or> length (wb_data b) \<noteq> len then rtx else Mapping.delete off rtx)"

definition processTxStopSending :: "quic_stream \<Rightarrow> quic_conn \<Rightarrow> quic_stream \<times> quic_conn" where
  "processTxStopSending s c =
     (let s1 = s\<lparr>recvState := Recv_Closed, readBuffer := []\<rparr>;
          c1 = upd_manager (\<lambda>m. m\<lparr>readableStreams := readableStreams m - {stream_id s}\<rparr>) c
      in (s1, if inTerminalStates s1 then upd_manager (addClosed (stream_id s)) c1 else c1))"

section \<open>Resets\<close>

definition resetQuicStream :: "nat \<Rightarrow> int \<Rightarrow> quic_stream \<Rightarrow> quic_conn \<Rightarrow> stream_error + quic_stream \<times> quic_conn" where
  "resetQuicStream err now s c =
     bind_result (updateFlowControlOnResetStream s c) (\<lambda>c1.
     let s1 = s\<lparr>retransmissionBuffer := Mapping.empty, writeBuffer := [], pendingWrites := [], readBuffer := [],
                lossBuffer := [], streamWriteError := Some err, writeBufMeta := (writeBufMeta s)\<lparr>bm_length := 0\<rparr>,
                retransmissionBufMetas := Mapping.empty, lossBufMetas := [], dsrSender := False\<rparr>;
         (s2, c2) = updateReadableStreams now s1 c1
     in bind_result (lift_manager (updateWritableStreams s2) c2) (\<lambda>c3. Inr (s2, c3)))"

definition onResetQuicStream :: "rst_stream_frame \<Rightarrow> int \<Rightarrow> int \<Rightarrow> quic_stream \<Rightarrow> quic_conn \<Rightarrow> stream_error + quic_stream \<times> quic_conn" where
  "onResetQuicStream rst now now2 s c =
     (if (case finalReadOffset s of None \<Rightarrow> False | Some f \<Rightarrow> f \<noteq> rst_offset rst) then Inl Final_size_error
      else if maxOffsetObserved s > rst_offset rst then Inl Final_size_error
      else bind_result (updateFlowControlOnStreamData (maxOffsetObserved s) (rst_offset rst) s c) (\<lambda>c1.
        let s1 = s\<lparr>readBuffer := [], finalReadOffset := Some (rst_offset rst), streamReadError := Some (rst_errorCode rst)\<rparr>
        in bind_result
             (if currentReadOffset s1 > rst_offset rst then Inr (s1, c1)
              else
                let s2 = s1\<lparr>currentReadOffset := rst_offset rst, maxOffsetObserved := rst_offset rst\<rparr>
                in bind_result (updateFlowControlOnRead (currentReadOffset s1) now s2 c1) (\<lambda>c2. Inr (s2, c2)))
             (\<lambda>(s2, c2).
                let (s3, c3) = updateReadableStreams now2 s2 c2
                in bind_result (lift_manager (updateWritableStreams s3) c3) (\<lambda>c4. Inr (s3, c4)))))"

definition isAllDataReceived :: "quic_stream \<Rightarrow> bool" where
  "isAllDataReceived s =
     (case finalReadOffset s of
        None \<Rightarrow> False
      | Some f \<Rightarrow>
          f \<le> currentReadOffset s \<or>
          (case readBuffer s of [b] \<Rightarrow> currentReadOffset s = sb_offset b \<and> sb_end b = f | _ \<Rightarrow> False))"

section \<open>The receive state machine\<close>

definition closedIfTerminal :: "quic_stream \<Rightarrow> quic_conn \<Rightarrow> quic_conn" where
  "closedIfTerminal s c = (if inTerminalStates s then upd_manager (addClosed (stream_id s)) c else c)"

definition receiveReadStreamFrameSMHandler ::
    "stream_buffer \<Rightarrow> int \<Rightarrow> quic_stream \<Rightarrow> quic_conn \<Rightarrow> stream_error + quic_stream \<times> quic_conn" where
  "receiveReadStreamFrameSMHandler frame now s c =
     (case recvState s of
        Recv_Open \<Rightarrow>
          bind_result (appendDataToReadBuffer frame s c) (\<lambda>(s1, c1).
          let (s2, c2) = (if isAllDataReceived s1
                          then let s2 = s1\<lparr>recvState := Recv_Closed\<rparr> in (s2, closedIfTerminal s2 c1)
                          else (s1, c1))
          in Inr (updateReadPeek now s2 c2))
      | Recv_Closed \<Rightarrow> if isSendingStream (qc_nodeType c) (stream_id s) then Inl Stream_check_failure else Inr (s, c)
      | Recv_Invalid \<Rightarrow> Inl Stream_state_error)"

definition receiveRstStreamSMHandler ::
    "rst_stream_frame \<Rightarrow> int \<Rightarrow> int \<Rightarrow> quic_stream \<Rightarrow> quic_conn \<Rightarrow> stream_error + quic_stream \<times> quic_conn" where
  "receiveRstStreamSMHandler rst now now2 s c =
     (case recvState s of
        Recv_Closed \<Rightarrow> onResetQuicStream rst now now2 s c
      | Recv_Open \<Rightarrow>
          let s1 = s\<lparr>recvState := Recv_Closed\<rparr>
          in onResetQuicStream rst now now2 s1 (closedIfTerminal s1 c)
      | Recv_Invalid \<Rightarrow> Inl Stream_state_error)"

section \<open>The send state machine\<close>

definition sendStopSendingSMHandler :: "nat \<Rightarrow> quic_stream \<Rightarrow> quic_conn \<Rightarrow> stream_error + quic_stream \<times> quic_conn" where
  "sendStopSendingSMHandler errorCode s c =
     (case sendState s of
        Send_Open \<Rightarrow>
          if isBidirectionalStream (stream_id s) \<or> isSendingStream (qc_nodeType c) (stream_id s)
          then Inr (s, upd_manager (addStopSending (stream_id s) errorCode) c)
          else Inl Stream_check_failure
      | Send_Closed \<Rightarrow> Inr (s, c)
      | Send_ResetSent \<Rightarrow> Inr (s, c)
      | Send_Invalid \<Rightarrow> Inl Stream_state_error)"

definition sendRstSMHandler :: "nat \<Rightarrow> int \<Rightarrow> quic_stream \<Rightarrow> quic_conn \<Rightarrow> stream_error + quic_stream \<times> quic_conn" where
  "sendRstSMHandler errorCode now s c =
     (case sendState s of
        Send_Open \<Rightarrow>
          bind_result (resetQuicStream errorCode now s c) (\<lambda>(s1, c1).
          Inr (s1\<lparr>sendState := Send_ResetSent\<rparr>, appendPendingStreamReset s1 errorCode c1))
      | Send_Closed \<Rightarrow> Inr (s, c)
      | Send_ResetSent \<Rightarrow> Inr (s, c)
      | Send_Invalid \<Rightarrow> Inl Stream_state_error)"

text \<open>The part of \<open>sendAckSMHandler\<close> that takes the acked buffer out of the retransmission buffer.\<close>

definition ackBuffer :: "write_stream_frame \<Rightarrow> quic_stream \<Rightarrow> stream_error + quic_stream" where
  "ackBuffer frame s =
     (if \<not> wf_fromBufMeta frame
      then case Mapping.lookup (retransmissionBuffer s) (wf_offset frame) of
             None \<Rightarrow> Inr s
           | Some b \<Rightarrow>
               if wf_offset frame \<noteq> wb_offset b \<or> wf_len frame \<noteq> length (wb_data b) \<or> wf_fin frame \<noteq> wb_eof b
               then Inl Stream_check_failure
               else bind_result (updateAckedIntervals (wb_offset b) (length (wb_data b)) (wb_eof b) s) (\<lambda>s1.
                      Inr (s1\<lparr>retransmissionBuffer := Mapping.delete (wf_offset frame) (retransmissionBuffer s1)\<rparr>))
      else case Mapping.lookup (retransmissionBufMetas s) (wf_offset frame) of
             None \<Rightarrow> Inr s
           | Some b \<Rightarrow>
               if wf_offset frame \<noteq> bm_offset b \<or> wf_len frame \<noteq> bm_length b \<or> wf_fin frame \<noteq> bm_eof b
               then Inl Stream_check_failure
               else bind_result (updateAckedIntervals (bm_offset b) (bm_length b) (bm_eof b) s) (\<lambda>s1.
                      Inr (s1\<lparr>retransmissionBufMetas := Mapping.delete (wf_offset frame) (retransmissionBufMetas s1)\<rparr>)))"

definition sendAckSMHandler :: "write_stream_frame \<Rightarrow> quic_stream \<Rightarrow> quic_conn \<Rightarrow> stream_error + quic_stream \<times> quic_conn" where
  "sendAckSMHandler frame s c =
     (case sendState s of
        Send_Open \<Rightarrow>
          bind_result (ackBuffer frame s) (\<lambda>s1.
          let c1 = upd_manager (addDeliverable (stream_id s)) c
          in bind_result (allBytesTillFinAcked s1) (\<lambda>all.
             if all then let s2 = s1\<lparr>sendState := Send_Closed\<rparr> in Inr (s2, closedIfTerminal s2 c1)
             else Inr (s1, c1)))
      | Send_Closed \<Rightarrow> Inr (s, c)
      | Send_ResetSent \<Rightarrow> Inr (s, c)
      | Send_Invalid \<Rightarrow> Inl Stream_state_error)"

definition sendRstAckSMHandler :: "quic_stream \<Rightarrow> quic_conn \<Rightarrow> stream_error + quic_stream \<times> quic_conn" where
  "sendRstAckSMHandler s c =
     (case sendState s of
        Send_ResetSent \<Rightarrow> let s1 = s\<lparr>sendState := Send_Closed\<rparr> in Inr (s1, closedIfTerminal s1 c)
      | Send_Closed \<Rightarrow> Inr (s, c)
      | Send_Open \<Rightarrow> Inl Stream_state_error
      | Send_Invalid \<Rightarrow> Inl Stream_state_error)"

section \<open>What the operations leave alone\<close>

text \<open>The states of a stream, and the closed streams of a connection, before and after.\<close>

definition same_states :: "quic_stream \<Rightarrow> quic_stream \<Rightarrow> bool" where
  "same_states s s' \<longleftrightarrow> stream_id s' = stream_id s \<and> sendState s' = sendState s \<and> recvState s' = recvState s"

definition same_closed :: "quic_conn \<Rightarrow> quic_conn \<Rightarrow> bool" where
  "same_closed c c' \<longleftrightarrow> closedStreams (qc_manager c') = closedStreams (qc_manager c) \<and> qc_nodeType c' = qc_nodeType c"

lemma same_trans:
  "same_states s t \<Longrightarrow> same_states t u \<Longrightarrow> same_states s u" "same_closed c d \<Longrightarrow> same_closed d e \<Longrightarrow> same_closed c e"
  by (simp_all add: same_states_def same_closed_def)

lemma same_refl [simp]: "same_states s s" "same_closed c c"
  by (simp_all add: same_states_def same_closed_def)

named_theorems kept \<open>frame conditions of the stream operations\<close>

lemma updateWritableStreams_kept [kept]:
  assumes "updateWritableStreams s m = Inr m'"
  shows "closedStreams m' = closedStreams m"
proof -
  have "returns (\<lambda>m'. closedStreams m' = closedStreams m) (updateWritableStreams s m)"
    unfolding updateWritableStreams_def Let_def
    by (intro returns_if returns_then) (simp_all add: removeWritable_def)
  then show ?thesis using assms by (rule returnsD)
qed

lemma lift_writable_kept [kept]:
  "lift_manager (updateWritableStreams s) c = Inr c' \<Longrightarrow> same_closed c c'"
  by (auto simp: lift_manager_def result_simps same_closed_def dest: updateWritableStreams_kept)

lemma updateHolBlockedTime_kept: "same_states s (updateHolBlockedTime now s)"
  by (auto simp: updateHolBlockedTime_def same_states_def split: option.splits)

lemma updateReadableStreams_kept [kept]:
  "updateReadableStreams now s c = (s', c') \<Longrightarrow> same_states s s' \<and> same_closed c c'"
  using updateHolBlockedTime_kept [of s now]
  by (auto simp: updateReadableStreams_def same_closed_def addToReadableStreams_def removeFromReadableStreams_def upd_manager_def
    Let_def split: if_splits)

lemma updateReadPeek_kept [kept]:
  assumes "updateReadPeek now s c = (s', c')"
  shows "same_states s s' \<and> same_closed c c'"
proof (cases "updateReadableStreams now s c")
  case (Pair s1 c1)
  then have "s' = s1" "same_closed c1 c'"
    using assms by (simp_all add: updateReadPeek_def updatePeekableStreams_def same_closed_def upd_manager_def)
      (auto simp: same_closed_def)
  then show ?thesis using updateReadableStreams_kept [OF Pair] same_trans(2) by blast
qed

lemma updateFlowControl_kept [kept]:
  "updateFlowControlOnWriteToStream n c = Inr c' \<Longrightarrow> same_closed c c'"
  "updateFlowControlOnResetStream s c = Inr c' \<Longrightarrow> same_closed c c'"
  by (auto simp: updateFlowControlOnWriteToStream_def updateFlowControlOnResetStream_def result_simps upd_flow_def same_closed_def)

lemma updateFlowControlOnStreamData_kept [kept]:
  assumes "updateFlowControlOnStreamData a b s c = Inr c'"
  shows "same_closed c c'"
proof -
  have "returns (same_closed c) (updateFlowControlOnStreamData a b s c)"
    unfolding updateFlowControlOnStreamData_def Let_def
    by (intro returns_if returns_then) (simp_all add: same_closed_def)
  then show ?thesis using assms by (rule returnsD)
qed

lemma updateFlowControlOnRead_kept [kept]:
  assumes "updateFlowControlOnRead a now s c = Inr c'"
  shows "same_closed c c'"
proof -
  obtain n b c1 where "maybeSendConnWindowUpdate now (upd_flow (\<lambda>f. f\<lparr>cf_sumCurReadOffset := n\<rparr>) c) = Inr (b, c1)"
    and c': "c' = snd (maybeSendStreamWindowUpdate now s c1)"
    using assms by (auto simp: updateFlowControlOnRead_def Let_def result_simps)
  then have "qc_manager c1 = qc_manager c" "qc_nodeType c1 = qc_nodeType c"
    using maybeSendConnWindowUpdate_keeps by (fastforce simp: upd_flow_def)+
  then show ?thesis
    by (auto simp: c' same_closed_def maybeSendStreamWindowUpdate_def queueWindowUpdate_def upd_manager_def Let_def
      split: option.splits)
qed

lemma appendDataToReadBuffer_kept [kept]:
  assumes "appendDataToReadBuffer b s c = Inr (s', c')"
  shows "same_states s s' \<and> same_closed c c'"
proof -
  have eof: "same_states s t" if "checkEof b s = Inr t" for t
    using that by (auto simp: checkEof_def same_states_def split: option.splits bool.splits if_splits)
  have store: "same_states t (storeBuffer b (t\<lparr>maxOffsetObserved := n\<rparr>))" for t n
    by (simp add: storeBuffer_def same_states_def Let_def)
  from assms show ?thesis
    unfolding appendDataToReadBuffer_def appendDataToReadBufferCommon_def
    by (auto simp: result_simps Let_def split: if_splits intro: updateFlowControlOnStreamData_kept same_trans(1) [OF eof store])
qed

lemma readDataInOrder_kept [kept]:
  fixes s s' :: quic_stream
  assumes "readDataInOrderFromReadBuffer n s = Inr (s', d, e)"
  shows "same_states s s'"
  using assms by (auto simp: readDataInOrderFromReadBuffer_def result_simps same_states_def)

section \<open>The events of a stream\<close>

datatype stream_event =
    App_write "u8 list" bool
  | App_write_meta nat bool
  | App_read nat int int
  | App_consume nat int int
  | App_reset nat int
  | App_stop_sending
  | Got_frame stream_buffer int
  | Got_reset rst_stream_frame int int
  | Got_stop_sending nat
  | Got_ack write_stream_frame
  | Got_reset_ack
  | Got_window nat
  | Got_blocked int

fun stream_step :: "quic_stream \<times> quic_conn \<Rightarrow> stream_event \<Rightarrow> stream_error + quic_stream \<times> quic_conn" where
  "stream_step (s, c) (App_write data eof) = writeDataToQuicStream data eof s c"
| "stream_step (s, c) (App_write_meta len eof) = writeBufMetaToQuicStream len eof s c"
| "stream_step (s, c) (App_read n now now2) = bind_result (readDataFromQuicStream n now now2 s c) (\<lambda>(r, _). Inr r)"
| "stream_step (s, c) (App_consume n now now2) = consumeDataFromQuicStream n now now2 s c"
| "stream_step (s, c) (App_reset err now) = sendRstSMHandler err now s c"
| "stream_step (s, c) App_stop_sending = Inr (processTxStopSending s c)"
| "stream_step (s, c) (Got_frame b now) = receiveReadStreamFrameSMHandler b now s c"
| "stream_step (s, c) (Got_reset rst now now2) = receiveRstStreamSMHandler rst now now2 s c"
| "stream_step (s, c) (Got_stop_sending err) = sendStopSendingSMHandler err s c"
| "stream_step (s, c) (Got_ack f) = sendAckSMHandler f s c"
| "stream_step (s, c) Got_reset_ack = sendRstAckSMHandler s c"
| "stream_step (s, c) (Got_window n) = handleStreamWindowUpdate n s c"
| "stream_step (s, c) (Got_blocked now) = handleStreamBlocked now s c"

text \<open>The two state machines as the comments of the handlers draw them.\<close>

inductive send_transition :: "stream_event \<Rightarrow> stream_send_state \<Rightarrow> stream_send_state \<Rightarrow> bool" where
  Reset_sent: "send_transition (App_reset err now) Send_Open Send_ResetSent"
| All_acked: "send_transition (Got_ack f) Send_Open Send_Closed"
| Reset_acked: "send_transition Got_reset_ack Send_ResetSent Send_Closed"

inductive recv_transition :: "stream_event \<Rightarrow> stream_recv_state \<Rightarrow> stream_recv_state \<Rightarrow> bool" where
  All_received: "recv_transition (Got_frame b now) Recv_Open Recv_Closed"
| Reset_received: "recv_transition (Got_reset rst now now2) Recv_Open Recv_Closed"
| Stopped: "recv_transition App_stop_sending r Recv_Closed"

code_pred send_transition .
code_pred recv_transition .

inductive_simps send_transition_iff [simp]: "send_transition v a b"
inductive_simps recv_transition_iff [simp]: "recv_transition v a b"

text \<open>
  What one event does to the states and to the set of closed streams: nothing, or a move of
  one machine, after which the stream is closed if both machines are at their end.
\<close>

definition closed_follows :: "stream_event \<Rightarrow> quic_stream \<Rightarrow> quic_conn \<Rightarrow> quic_stream \<Rightarrow> quic_conn \<Rightarrow> bool" where
  "closed_follows v s c s' c' \<longleftrightarrow> stream_id s' = stream_id s \<and> qc_nodeType c' = qc_nodeType c \<and>
     (sendState s' = sendState s \<or> send_transition v (sendState s) (sendState s')) \<and>
     (recvState s' = recvState s \<or> recv_transition v (recvState s) (recvState s')) \<and>
     (same_states s s' \<and> same_closed c c' \<or> same_closed (closedIfTerminal s' c) c')"

lemma closed_follows_same: "same_states s s' \<Longrightarrow> same_closed c c' \<Longrightarrow> closed_follows v s c s' c'"
  by (simp add: closed_follows_def same_states_def same_closed_def)

section \<open>Each event moves the machines as drawn\<close>

lemma block_kept: "same_closed c (maybeWriteBlockAfterAPIWrite s c)"
  by (simp add: maybeWriteBlockAfterAPIWrite_def queueBlocked_def same_closed_def upd_manager_def)

text \<open>The end of both write functions.\<close>

lemma charge_write_kept:
  assumes "bind_result (updateFlowControlOnWriteToStream n c) (\<lambda>c2.
      bind_result (lift_manager (updateWritableStreams s2) c2) (\<lambda>c3. Inr (s2, c3))) = Inr (s', c')"
  shows "s' = s2 \<and> same_closed c c'"
  using assms by (auto simp: result_simps dest!: kept intro: same_trans(2))

lemma write_follows:
  assumes "writeDataToQuicStream data eof s c = Inr (s', c')"
  shows "same_states s s' \<and> same_closed c c'"
  using assms unfolding writeDataToQuicStream_def Let_def
  by (auto simp: same_states_def split: if_split_asm dest!: charge_write_kept intro: same_trans(2) [OF block_kept])

lemma write_meta_follows:
  assumes "writeBufMetaToQuicStream len eof s c = Inr (s', c')"
  shows "same_states s s' \<and> same_closed c c'"
  using assms unfolding writeBufMetaToQuicStream_def Let_def
  by (auto simp: same_states_def split: if_split_asm dest!: charge_write_kept intro: same_trans(2) [OF block_kept])

lemma read_follows:
  assumes "readDataFromQuicStream n now now2 s c = Inr ((s', c'), r)"
  shows "same_states s s' \<and> same_closed c c'"
proof -
  have bump: "same_states (s\<lparr>currentReadOffset := k\<rparr>) t = same_states s t" for s t k by (simp add: same_states_def)
  show ?thesis
    using assms unfolding readDataFromQuicStream_def Let_def
    by (auto simp: result_simps bump split: if_split_asm option.split_asm dest!: kept intro: same_trans)
qed

lemma consume_follows:
  "consumeDataFromQuicStream n now now2 s c =
     bind_result (readDataFromQuicStream n now now2 s c) (\<lambda>(r, _). Inr r)"
  unfolding consumeDataFromQuicStream_def readDataFromQuicStream_def Let_def
  by (auto simp: bind_result_assoc case_prod_unfold split: option.split)

text \<open>The end of both resets.\<close>

lemma settle_kept:
  assumes "(case updateReadableStreams now s c of (s2, c2) \<Rightarrow>
      bind_result (lift_manager (updateWritableStreams s2) c2) (\<lambda>c3. Inr (s2, c3))) = Inr (s', c')"
  shows "same_states s s' \<and> same_closed c c'"
proof (cases "updateReadableStreams now s c")
  case (Pair s2 c2)
  with assms show ?thesis by (auto simp: result_simps dest!: kept intro: same_trans)
qed

lemma resetQuicStream_follows:
  assumes "resetQuicStream err now s c = Inr (s', c')"
  shows "same_states s s' \<and> same_closed c c'"
  using assms unfolding resetQuicStream_def Let_def
  by (auto simp: bind_result_Inr [where m = "updateFlowControlOnResetStream s c"] dest!: settle_kept kept intro: same_trans)
    (simp_all add: same_states_def)

lemma onResetQuicStream_follows:
  assumes "onResetQuicStream rst now now2 s c = Inr (s', c')"
  shows "same_states s s' \<and> same_closed c c'"
proof -
  obtain s2 c1 c2 where "updateFlowControlOnStreamData (maxOffsetObserved s) (rst_offset rst) s c = Inr c1"
    and "(case updateReadableStreams now2 s2 c2 of (s3, c3) \<Rightarrow>
      bind_result (lift_manager (updateWritableStreams s3) c3) (\<lambda>c4. Inr (s3, c4))) = Inr (s', c')"
    and "same_states s s2" "same_closed c1 c2"
    using assms unfolding onResetQuicStream_def Let_def
    by (cases "updateFlowControlOnStreamData (maxOffsetObserved s) (rst_offset rst) s c")
      (auto simp: bind_result_Inr [where m = "updateFlowControlOnRead _ _ _ _"] same_states_def
        bind_result_Inr [where m = "bind_result _ _"] split: if_split_asm option.split_asm dest: updateFlowControlOnRead_kept)
  then show ?thesis by (auto dest!: settle_kept kept intro: same_trans)
qed

lemma ackBuffer_kept:
  assumes "ackBuffer f s = Inr s'"
  shows "same_states s s'"
  using assms
  by (auto simp: ackBuffer_def updateAckedIntervals_def same_states_def result_simps Let_def
    split: if_split_asm option.split_asm sum.split_asm)

lemma closed_follows_moved:
  assumes "stream_id s' = stream_id s" "same_closed (closedIfTerminal s' c) c'"
    and "sendState s' = sendState s \<or> send_transition v (sendState s) (sendState s')"
    and "recvState s' = recvState s \<or> recv_transition v (recvState s) (recvState s')"
  shows "closed_follows v s c s' c'"
  using assms by (simp add: closed_follows_def same_closed_def closedIfTerminal_def upd_manager_def split: if_split_asm)

lemma closedIfTerminal_same: "same_closed c d \<Longrightarrow> same_closed (closedIfTerminal s c) (closedIfTerminal s d)"
  by (simp add: closedIfTerminal_def same_closed_def upd_manager_def addClosed_def)

lemma frame_cases:
  assumes "receiveReadStreamFrameSMHandler b now s c = Inr (s', c')" "recvState s = Recv_Open"
  obtains s1 c1 where "appendDataToReadBuffer b s c = Inr (s1, c1)"
    "updateReadPeek now (if isAllDataReceived s1 then s1\<lparr>recvState := Recv_Closed\<rparr> else s1)
      (if isAllDataReceived s1 then closedIfTerminal (s1\<lparr>recvState := Recv_Closed\<rparr>) c1 else c1) = (s', c')"
  using assms by (auto simp: receiveReadStreamFrameSMHandler_def result_simps Let_def split: if_split_asm)

lemma receive_frame_follows:
  assumes "receiveReadStreamFrameSMHandler b now s c = Inr (s', c')"
  shows "closed_follows (Got_frame b now) s c s' c'"
proof (cases "recvState s")
  case Recv_Open
  then obtain s1 c1 where "appendDataToReadBuffer b s c = Inr (s1, c1)"
    and fin: "updateReadPeek now (if isAllDataReceived s1 then s1\<lparr>recvState := Recv_Closed\<rparr> else s1)
      (if isAllDataReceived s1 then closedIfTerminal (s1\<lparr>recvState := Recv_Closed\<rparr>) c1 else c1) = (s', c')"
    by (rule frame_cases [OF assms])
  then have app: "same_states s s1" "same_closed c c1" using appendDataToReadBuffer_kept by blast+
  show ?thesis
  proof (cases "isAllDataReceived s1")
    case True
    then show ?thesis
      using app updateReadPeek_kept [OF fin] Recv_Open
      by (intro closed_follows_moved)
        (auto simp: same_states_def same_closed_def closedIfTerminal_def inTerminalStates_def upd_manager_def addClosed_def)
  next
    case False
    then show ?thesis
      using app updateReadPeek_kept [OF fin] closed_follows_same same_trans by (metis (full_types))
  qed
qed (use assms in \<open>auto simp: receiveReadStreamFrameSMHandler_def closed_follows_same split: if_split_asm\<close>)

lemma receive_reset_follows:
  assumes "receiveRstStreamSMHandler rst now now2 s c = Inr (s', c')"
  shows "closed_follows (Got_reset rst now now2) s c s' c'"
proof (cases "recvState s")
  case Recv_Open
  let ?s = "s\<lparr>recvState := Recv_Closed\<rparr>"
  have "same_states ?s s'" "same_closed (closedIfTerminal ?s c) c'"
    using assms Recv_Open onResetQuicStream_follows by (simp_all add: receiveRstStreamSMHandler_def Let_def)
  then show ?thesis
    using Recv_Open
    by (intro closed_follows_moved) (auto simp: same_states_def same_closed_def closedIfTerminal_def inTerminalStates_def)
qed (use assms in \<open>auto simp: receiveRstStreamSMHandler_def intro: closed_follows_same dest: onResetQuicStream_follows\<close>)

lemma ack_cases:
  assumes "sendAckSMHandler f s c = Inr (s', c')" "sendState s = Send_Open"
  obtains s1 b where "ackBuffer f s = Inr s1" "allBytesTillFinAcked s1 = Inr b"
    "(if b then (s1\<lparr>sendState := Send_Closed\<rparr>,
        closedIfTerminal (s1\<lparr>sendState := Send_Closed\<rparr>) (upd_manager (addDeliverable (stream_id s)) c))
      else (s1, upd_manager (addDeliverable (stream_id s)) c)) = (s', c')"
  using assms unfolding sendAckSMHandler_def Let_def by (auto simp: result_simps simp flip: if_distrib [where f = Inr])

lemma ack_follows:
  assumes "sendAckSMHandler f s c = Inr (s', c')"
  shows "closed_follows (Got_ack f) s c s' c'"
proof (cases "sendState s")
  case Send_Open
  let ?c = "upd_manager (addDeliverable (stream_id s)) c"
  obtain s1 b where ack: "ackBuffer f s = Inr s1"
    and fin: "(if b then (s1\<lparr>sendState := Send_Closed\<rparr>, closedIfTerminal (s1\<lparr>sendState := Send_Closed\<rparr>) ?c)
      else (s1, ?c)) = (s', c')"
    by (rule ack_cases [OF assms Send_Open]) blast
  have same: "same_states s s1" "same_closed c ?c"
    using ackBuffer_kept [OF ack] by (simp_all add: same_closed_def upd_manager_def addDeliverable_def)
  show ?thesis
  proof (cases b)
    case True
    then have "s' = s1\<lparr>sendState := Send_Closed\<rparr>" "c' = closedIfTerminal s' ?c" using fin by auto
    then show ?thesis
      using same closedIfTerminal_same Send_Open by (intro closed_follows_moved) (simp_all add: same_states_def)
  next
    case False
    then show ?thesis using fin same by (auto intro: closed_follows_same)
  qed
qed (use assms in \<open>auto simp: sendAckSMHandler_def closed_follows_same\<close>)

lemma send_reset_follows:
  assumes "sendRstSMHandler err now s c = Inr (s', c')"
  shows "closed_follows (App_reset err now) s c s' c'"
proof (cases "sendState s")
  case Send_Open
  then obtain s1 c1 where "resetQuicStream err now s c = Inr (s1, c1)"
    and "s' = s1\<lparr>sendState := Send_ResetSent\<rparr>" "c' = appendPendingStreamReset s1 err c1"
    using assms by (auto simp: sendRstSMHandler_def result_simps)
  then show ?thesis
    using resetQuicStream_follows [of err now s c s1 c1] Send_Open
    by (intro closed_follows_moved)
      (auto simp: same_states_def same_closed_def closedIfTerminal_def inTerminalStates_def appendPendingStreamReset_def Let_def)
qed (use assms in \<open>auto simp: sendRstSMHandler_def closed_follows_same\<close>)

lemma stop_follows:
  assumes "processTxStopSending s c = (s', c')"
  shows "closed_follows App_stop_sending s c s' c'"
  using assms
  by (intro closed_follows_moved)
    (auto simp: processTxStopSending_def closedIfTerminal_def same_closed_def upd_manager_def addClosed_def Let_def)

lemma window_follows:
  assumes "handleStreamWindowUpdate n s c = Inr (s', c')"
  shows "same_states s s' \<and> same_closed c c'"
proof (cases "sf_peerAdvertisedMaxOffset (flowControlState s) \<le> n")
  case True
  let ?c = "if n > add64 (add64 (currentWriteOffset s) (length (pendingWrites s))) (bm_length (writeBufMeta s))
    then updateFlowControlList s' c else c"
  have "same_states s s'" and m: "updateWritableStreams s' (qc_manager ?c) = Inr (qc_manager c')" "qc_nodeType c' = qc_nodeType ?c"
    using assms True by (auto simp: handleStreamWindowUpdate_def Let_def result_simps same_states_def)
  moreover have "closedStreams (qc_manager c') = closedStreams (qc_manager ?c)" using updateWritableStreams_kept [OF m(1)] .
  moreover have "same_closed c ?c"
    by (simp add: updateFlowControlList_def same_closed_def upd_manager_def queueFlowControlUpdated_def)
  ultimately show ?thesis unfolding same_closed_def by simp
qed (use assms in \<open>simp add: handleStreamWindowUpdate_def\<close>)

lemma stream_step_follows:
  assumes "stream_step (s, c) v = Inr (s', c')"
  shows "closed_follows v s c s' c'"
proof (cases v)
  case (Got_stop_sending err)
  then show ?thesis
    using assms by (auto simp: sendStopSendingSMHandler_def upd_manager_def addStopSending_def same_closed_def
      split: stream_send_state.split_asm if_split_asm intro!: closed_follows_same)
next
  case Got_reset_ack
  then show ?thesis
    using assms by (auto simp: sendRstAckSMHandler_def Let_def closed_follows_same intro: closed_follows_moved
      split: stream_send_state.split_asm)
next
  case (Got_blocked now)
  then show ?thesis
    using assms by (auto simp: handleStreamBlocked_def result_simps same_states_def same_closed_def upd_manager_def
      queueWindowUpdate_def split: if_split_asm intro!: closed_follows_same)
next
  case (App_consume n now now2)
  then show ?thesis
    using assms unfolding App_consume stream_step.simps consume_follows
    by (auto simp: result_simps dest!: read_follows intro: closed_follows_same)
qed (use assms in \<open>auto simp: result_simps dest!: read_follows write_follows write_meta_follows window_follows
  intro: closed_follows_same send_reset_follows stop_follows receive_frame_follows receive_reset_follows ack_follows\<close>)

section \<open>Why the machines move\<close>

lemma same_predicates:
  "hasSentFIN (s\<lparr>sendState := x\<rparr>) = hasSentFIN s" "hasWritableBufMeta (s\<lparr>sendState := x\<rparr>) = hasWritableBufMeta s"
  "allBytesTillFinAcked (s\<lparr>sendState := x\<rparr>) = allBytesTillFinAcked s"
proof -
  show *: "hasSentFIN (s\<lparr>sendState := x\<rparr>) = hasSentFIN s" "hasWritableBufMeta (s\<lparr>sendState := x\<rparr>) = hasWritableBufMeta s"
    by (simp_all add: hasSentFIN_def hasWritableBufMeta_def Let_def split: option.split)
  show "allBytesTillFinAcked (s\<lparr>sendState := x\<rparr>) = allBytesTillFinAcked s"
    by (simp add: allBytesTillFinAcked_def *)
qed

lemma isAllDataReceived_recvState: "isAllDataReceived (s\<lparr>recvState := x\<rparr>) = isAllDataReceived s"
  by (simp add: isAllDataReceived_def split: option.split list.split)

lemma updateHolBlockedTime_read:
  "readBuffer (updateHolBlockedTime now s) = readBuffer s" "currentReadOffset (updateHolBlockedTime now s) = currentReadOffset s"
  "finalReadOffset (updateHolBlockedTime now s) = finalReadOffset s" "maxOffsetObserved (updateHolBlockedTime now s) = maxOffsetObserved s"
  "flowControlState (updateHolBlockedTime now s) = flowControlState s"
  by (auto simp: updateHolBlockedTime_def split: option.split)

lemma updateReadPeek_stream: "updateReadPeek now s c = (s', c') \<Longrightarrow> s' = updateHolBlockedTime now s"
  by (auto simp: updateReadPeek_def updateReadableStreams_def Let_def)

lemma updateReadPeek_received: "updateReadPeek now s c = (s', c') \<Longrightarrow> isAllDataReceived s' = isAllDataReceived s"
  unfolding isAllDataReceived_def by (drule updateReadPeek_stream) (simp only: updateHolBlockedTime_read)

lemma ack_closes:
  assumes "sendAckSMHandler f s c = Inr (s', c')" "sendState s' \<noteq> sendState s"
  shows "allBytesTillFinAcked s' = Inr True"
proof (cases "sendState s")
  case Send_Open
  show ?thesis
  proof (rule ack_cases [OF assms(1) Send_Open])
    fix s1 b assume "ackBuffer f s = Inr s1" "allBytesTillFinAcked s1 = Inr b"
      "(if b then (s1\<lparr>sendState := Send_Closed\<rparr>,
          closedIfTerminal (s1\<lparr>sendState := Send_Closed\<rparr>) (upd_manager (addDeliverable (stream_id s)) c))
        else (s1, upd_manager (addDeliverable (stream_id s)) c)) = (s', c')"
    then show ?thesis
      using assms(2) ackBuffer_kept [of f s s1] by (cases b) (auto simp: same_predicates same_states_def)
  qed
qed (use assms in \<open>auto simp: sendAckSMHandler_def\<close>)

lemma frame_closes:
  assumes "receiveReadStreamFrameSMHandler b now s c = Inr (s', c')" "recvState s' \<noteq> recvState s"
  shows "isAllDataReceived s'"
proof (cases "recvState s")
  case Recv_Open
  then obtain s1 c1 where app: "appendDataToReadBuffer b s c = Inr (s1, c1)"
    and fin: "updateReadPeek now (if isAllDataReceived s1 then s1\<lparr>recvState := Recv_Closed\<rparr> else s1)
      (if isAllDataReceived s1 then closedIfTerminal (s1\<lparr>recvState := Recv_Closed\<rparr>) c1 else c1) = (s', c')"
    by (rule frame_cases [OF assms(1)])
  have "isAllDataReceived s1"
    using assms(2) appendDataToReadBuffer_kept [OF app] updateReadPeek_kept [OF fin]
    by (cases "isAllDataReceived s1") (auto simp: same_states_def)
  then show ?thesis using updateReadPeek_received [OF fin] by (simp add: isAllDataReceived_recvState)
qed (use assms in \<open>auto simp: receiveReadStreamFrameSMHandler_def split: if_split_asm\<close>)

section \<open>Properties\<close>


lemma closed_follows_invariant:
  assumes "closed_follows v s c s' c'"
    and "sid = stream_id s \<and> (sid \<in> closedStreams (qc_manager c) \<longleftrightarrow> inTerminalStates s) \<and> closedStreams (qc_manager c) - {sid} = A"
  shows "sid = stream_id s' \<and> (sid \<in> closedStreams (qc_manager c') \<longleftrightarrow> inTerminalStates s') \<and>
    closedStreams (qc_manager c') - {sid} = A"
proof -
  have "inTerminalStates s \<Longrightarrow> inTerminalStates s'"
    using assms(1) by (auto simp: closed_follows_def inTerminalStates_def)
  moreover have "same_states s s' \<Longrightarrow> inTerminalStates s' = inTerminalStates s"
    by (simp add: same_states_def inTerminalStates_def)
  moreover have "closedStreams (qc_manager c') = closedStreams (qc_manager c) \<and> same_states s s' \<or>
      closedStreams (qc_manager c') = (if inTerminalStates s' then insert sid (closedStreams (qc_manager c)) else closedStreams (qc_manager c))"
    using assms(1) conjunct1 [OF assms(2)] unfolding closed_follows_def same_closed_def closedIfTerminal_def upd_manager_def addClosed_def
    by (elim conjE disjE) simp_all
  moreover have "stream_id s' = stream_id s" using assms(1) by (simp add: closed_follows_def)
  ultimately show ?thesis using assms(2) by (cases "inTerminalStates s'") auto
qed


section \<open>Received data after a reset of the send half\<close>

text \<open>Nothing readable: every buffered byte lies beyond the read offset \<open>k\<close>, and so does the final size.\<close>

definition stuck_at :: "nat \<Rightarrow> quic_stream \<Rightarrow> bool" where
  "stuck_at k s \<longleftrightarrow> currentReadOffset s = k \<and> recvState s = Recv_Open \<and> separated (readBuffer s) \<and>
     (\<forall>b \<in> set (readBuffer s). k < sb_offset b) \<and> (\<forall>f. finalReadOffset s = Some f \<longrightarrow> k < f)"

lemma stuck_not_received: "stuck_at k s \<Longrightarrow> \<not> isAllDataReceived s"
  by (auto simp: stuck_at_def isAllDataReceived_def split: option.split list.split)

lemma stuck_HolBlocked: "stuck_at k (updateHolBlockedTime now s) = stuck_at k s"
  using updateHolBlockedTime_kept [of s now] unfolding stuck_at_def updateHolBlockedTime_read by (simp add: same_states_def)

lemma stuck_append:
  assumes s: "stuck_at k s" and b: "k < sb_offset b" and app: "appendDataToReadBuffer b s c = Inr (s', c')"
  shows "stuck_at k s'"
proof (cases "\<not> sb_eof b \<and> sb_data b = []")
  case True
  then show ?thesis using app s by (simp add: appendDataToReadBuffer_def appendDataToReadBufferCommon_def)
next
  case False
  then obtain t n where t: "checkEof b s = Inr t" and s': "s' = storeBuffer b (t\<lparr>maxOffsetObserved := n\<rparr>)"
    using app unfolding appendDataToReadBuffer_def appendDataToReadBufferCommon_def
    by (auto simp: result_simps Let_def split: if_split_asm)
  have "stuck_at k (t\<lparr>maxOffsetObserved := n\<rparr>)"
    using t s b by (auto simp: checkEof_def stuck_at_def sb_end_def split: option.split_asm bool.split_asm if_split_asm)
  moreover have "stuck_at k (storeBuffer b u)" if "stuck_at k u" for u
    using that b mergeBuffer_correct(1) [of "readBuffer u" b] mergeBuffer_correct(4) [of "readBuffer u" b "Suc k"]
    by (auto simp: storeBuffer_def stuck_at_def Let_def Suc_le_eq)
  ultimately show ?thesis unfolding s' by blast
qed

lemma stuck_frame:
  assumes "stuck_at k s" "k < sb_offset b" "receiveReadStreamFrameSMHandler b now s c = Inr (s', c')"
  shows "stuck_at k s'"
proof (rule frame_cases [OF assms(3)])
  show "recvState s = Recv_Open" using assms(1) by (simp add: stuck_at_def)
  fix s1 c1 assume app: "appendDataToReadBuffer b s c = Inr (s1, c1)"
    and fin: "updateReadPeek now (if isAllDataReceived s1 then s1\<lparr>recvState := Recv_Closed\<rparr> else s1)
      (if isAllDataReceived s1 then closedIfTerminal (s1\<lparr>recvState := Recv_Closed\<rparr>) c1 else c1) = (s', c')"
  have s1: "stuck_at k s1" using stuck_append [OF assms(1,2) app] .
  then show ?thesis
    using updateReadPeek_stream [OF fin] stuck_not_received [OF s1] by (simp add: stuck_HolBlocked)
qed

lemma stuck_read:
  assumes "stuck_at k s" "readDataFromQuicStream n now now2 s c = Inr ((s', c'), data, eof)"
  shows "stuck_at k s' \<and> data = [] \<and> \<not> eof"
proof -
  have "read_loop n n (readBuffer s) (currentReadOffset s) [] False = Inr (readBuffer s, currentReadOffset s, [], False)"
    using assms(1) by (subst read_loop.simps) (auto simp: stuck_at_def Let_def neq_Nil_conv)
  then have "readDataInOrderFromReadBuffer n s = Inr (s, [], False)"
    by (simp add: readDataInOrderFromReadBuffer_def)
  moreover have "finalReadOffset s \<noteq> Some (currentReadOffset s)" and
    "\<not> (case finalReadOffset s of None \<Rightarrow> False | Some f \<Rightarrow> currentReadOffset s \<ge> f)"
    using assms(1) by (auto simp: stuck_at_def split: option.split)
  ultimately have "\<exists>c1. updateReadPeek now2 s c1 = (s', c') \<and> data = [] \<and> \<not> eof"
    using assms(2) by (auto simp: readDataFromQuicStream_def result_simps)
  then show ?thesis using assms(1) by (auto simp: stuck_HolBlocked dest: updateReadPeek_stream)
qed

lemma reset_stuck:
  assumes "sendRstSMHandler err now s c = Inr (s1, c1)" "sendState s = Send_Open" "recvState s = Recv_Open"
    and "\<And>f. finalReadOffset s = Some f \<Longrightarrow> currentReadOffset s < f"
  shows "stuck_at (currentReadOffset s) s1"
proof -
  obtain t d where t: "resetQuicStream err now s c = Inr (t, d)" and s1: "s1 = t\<lparr>sendState := Send_ResetSent\<rparr>"
    using assms(1,2) by (auto simp: sendRstSMHandler_def result_simps)
  have "returns (\<lambda>(t, d). readBuffer t = [] \<and> currentReadOffset t = currentReadOffset s \<and> finalReadOffset t = finalReadOffset s)
      (resetQuicStream err now s c)"
    unfolding resetQuicStream_def Let_def updateReadableStreams_def
    by (intro returns_then) (auto simp: updateHolBlockedTime_read intro!: returns_then)
  then have "readBuffer t = [] \<and> currentReadOffset t = currentReadOffset s \<and> finalReadOffset t = finalReadOffset s"
    using returnsD [OF _ t] by auto
  then show ?thesis
    using assms(3,4) resetQuicStream_follows [OF t] by (simp add: s1 stuck_at_def separated_simps same_states_def)
qed

text \<open>Frames beyond the offset \<open>k\<close>, reads, and the acknowledgement of the reset.\<close>

fun beyond :: "nat \<Rightarrow> stream_event \<Rightarrow> bool" where
  "beyond k (Got_frame b now) = (k < sb_offset b)"
| "beyond k (App_read n now now2) = True"
| "beyond k Got_reset_ack = True"
| "beyond k _ = False"

lemma stuck_step:
  assumes "stuck_at k s" "beyond k v" "stream_step (s, c) v = Inr (s', c')"
  shows "stuck_at k s'"
proof (cases v)
  case Got_reset_ack
  then show ?thesis
    using assms by (auto simp: sendRstAckSMHandler_def stuck_at_def Let_def split: stream_send_state.split_asm)
next
  case (App_read n now now2)
  then obtain data eof where "readDataFromQuicStream n now now2 s c = Inr ((s', c'), data, eof)"
    using assms(3) by (auto simp: result_simps)
  then show ?thesis using stuck_read assms(1) by blast
qed (use assms in \<open>auto intro: stuck_frame\<close>)

lemma stuck_run:
  assumes "stuck_at k s" "list_all (beyond k) vs" "run_events stream_step (s, c) vs = Inr (s', c')"
  shows "stuck_at k s'"
  using assms
proof (induction vs arbitrary: s c)
  case (Cons v vs)
  then obtain s1 c1 where "stream_step (s, c) v = Inr (s1, c1)" "run_events stream_step (s1, c1) vs = Inr (s', c')"
    by (auto simp: result_simps)
  moreover from this have "stuck_at k s1" using Cons.prems stuck_step [of k s v c s1 c1] by simp
  ultimately show ?case using Cons by simp
qed simp

text \<open>
  C39. Resetting the send half abandons the unread data of the receive half while it stays
  open: after the reset, whatever frames arrive beyond the abandoned data, up to the FIN,
  every read returns nothing, the read offset stays where it was, and the receive half is
  never closed, so the stream is never handed over for removal.
\<close>

theorem reset_abandons_received_data:
  assumes "sendRstSMHandler err now s c = Inr (s1, c1)" "sendState s = Send_Open" "recvState s = Recv_Open"
    and "\<And>f. finalReadOffset s = Some f \<Longrightarrow> currentReadOffset s < f"
    and "list_all (beyond (currentReadOffset s)) vs" "run_events stream_step (s1, c1) vs = Inr (s2, c2)"
  shows "currentReadOffset s2 = currentReadOffset s \<and> recvState s2 = Recv_Open \<and> \<not> inTerminalStates s2 \<and>
    returns (\<lambda>(_, data, eof). data = [] \<and> \<not> eof) (readDataFromQuicStream n t t2 s2 c2)"
proof -
  have s2: "stuck_at (currentReadOffset s) s2"
    using stuck_run [OF reset_stuck [OF assms(1-4)] assms(5,6)] .
  then have "returns (\<lambda>(_, data, eof). data = [] \<and> \<not> eof) (readDataFromQuicStream n t t2 s2 c2)"
    by (auto simp: returns_def dest: stuck_read)
  then show ?thesis using s2 by (simp add: stuck_at_def inTerminalStates_def)
qed

section \<open>Witnesses\<close>

text \<open>A server resets the send half of stream 0 while three received bytes are unread; the fourth, with FIN, follows.\<close>

definition resetStream :: quic_stream where
  "resetStream = (newQuicStream 0 None (sampleConn Server defaultTransportSettings))
     \<lparr>readBuffer := [\<lparr>sb_data = [1, 2, 3], sb_offset = 0, sb_eof = False\<rparr>], maxOffsetObserved := 3\<rparr>"

definition lastFrame :: stream_buffer where
  "lastFrame = \<lparr>sb_data = [4], sb_offset = 3, sb_eof = True\<rparr>"



lemma reset_returns:
  obtains s1 c1 where "sendRstSMHandler 7 0 resetStream (sampleConn Server defaultTransportSettings) = Inr (s1, c1)"
    "recvState s1 = Recv_Open" "finalReadOffset s1 = None" "maxOffsetObserved s1 = 3"
    "sf_advertisedMaxOffset (flowControlState s1) = 66560"
    "cf_sumMaxObservedOffset (qc_flow c1) = 0" "cf_advertisedMaxOffset (qc_flow c1) = 1048576"
  by (simp add: sendRstSMHandler_def resetStream_def resetQuicStream_def updateFlowControlOnResetStream_def sample_flow
    decrementWithOverFlowCheck_def add64_def sub64_def updateReadableStreams_def updateHolBlockedTime_def upd_flow_def
    addToReadableStreams_def removeFromReadableStreams_def separateUni_def upd_manager_def hasReadableData_def
    lift_manager_def updateWritableStreams_def appendPendingStreamReset_def Let_def)

theorem reset_abandons_received_data_witness:
  "\<exists>s1 c1 s2 c2. sendRstSMHandler 7 0 resetStream (sampleConn Server defaultTransportSettings) = Inr (s1, c1) \<and>
     run_events stream_step (s1, c1) [Got_frame lastFrame 1] = Inr (s2, c2) \<and> recvState s2 = Recv_Open \<and>
     returns (\<lambda>(_, data, eof). data = [] \<and> \<not> eof) (readDataFromQuicStream 0 2 3 s2 c2)"
proof (rule reset_returns)
  fix s1 c1
  assume reset: "sendRstSMHandler 7 0 resetStream (sampleConn Server defaultTransportSettings) = Inr (s1, c1)"
    and s1: "recvState s1 = Recv_Open" "finalReadOffset s1 = None" "maxOffsetObserved s1 = 3"
      "sf_advertisedMaxOffset (flowControlState s1) = 66560"
      "cf_sumMaxObservedOffset (qc_flow c1) = 0" "cf_advertisedMaxOffset (qc_flow c1) = 1048576"
  have "\<exists>r. appendDataToReadBuffer lastFrame s1 c1 = Inr r"
    by (simp add: appendDataToReadBuffer_def appendDataToReadBufferCommon_def lastFrame_def checkEof_def s1 sb_end_def
      updateFlowControlOnStreamData_def incrementWithOverFlowCheck_def add64_def sub64_def)
  then obtain s2 c2 where run: "run_events stream_step (s1, c1) [Got_frame lastFrame 1] = Inr (s2, c2)"
    by (auto simp: receiveReadStreamFrameSMHandler_def s1 case_prod_unfold Let_def) (metis prod.collapse)
  have "sendState resetStream = Send_Open" "recvState resetStream = Recv_Open" "finalReadOffset resetStream = None"
    "currentReadOffset resetStream = 0"
    by (simp_all add: resetStream_def sample_flow)
  then show ?thesis
    using reset_abandons_received_data [OF reset _ _ _ _ run, of 0 2 3] reset run by (auto simp: lastFrame_def)
qed

end
