(* ===== verification/Stream_Credit.thy ===== *)
theory Stream_Credit
  imports Stream_Functions
begin

text \<open>
  The receive-side accounts of flow control over the life of a stream. The connection keeps
  two sums over its streams, the highest offsets observed and the offsets read; the
  handlers of \<open>Stream_Functions\<close> and the window updates of \<open>Flow_Control\<close> change them
  together with the offsets of the stream. The lemmas follow the share of one stream in both
  sums through every event.
\<close>

section \<open>What most operations leave alone\<close>

definition read_view :: "quic_stream \<Rightarrow> stream_buffer list \<times> nat \<times> nat \<times> nat option \<times> nat" where
  "read_view s = (readBuffer s, currentReadOffset s, maxOffsetObserved s, finalReadOffset s, sf_advertisedMaxOffset (flowControlState s))"

definition sum_view :: "quic_conn \<Rightarrow> nat \<times> nat \<times> nat" where
  "sum_view c = (cf_sumMaxObservedOffset (qc_flow c), cf_sumCurReadOffset (qc_flow c), cf_advertisedMaxOffset (qc_flow c))"

lemma sum_view_manager [simp]: "sum_view (upd_manager f c) = sum_view c" "sum_view (c\<lparr>qc_manager := m\<rparr>) = sum_view c"
  by (simp_all add: sum_view_def upd_manager_def)

lemma lift_manager_sums: "lift_manager f c = Inr c' \<Longrightarrow> sum_view c' = sum_view c"
  by (auto simp: lift_manager_def result_simps)

lemma updateReadableStreams_views:
  "updateReadableStreams now s c = (s', c') \<Longrightarrow> read_view s' = read_view s \<and> sum_view c' = sum_view c"
  by (auto simp: updateReadableStreams_def Let_def read_view_def updateHolBlockedTime_read addToReadableStreams_def
    removeFromReadableStreams_def)

lemma updateReadPeek_views:
  assumes "updateReadPeek now s c = (s', c')"
  shows "read_view s' = read_view s \<and> sum_view c' = sum_view c"
proof (cases "updateReadableStreams now s c")
  case (Pair s1 c1)
  then have "s' = s1" "sum_view c' = sum_view c1"
    using assms by (auto simp: updateReadPeek_def updatePeekableStreams_def)
  then show ?thesis using updateReadableStreams_views [OF Pair] by simp
qed

lemma write_flow_sums:
  "updateFlowControlOnWriteToStream n c = Inr c' \<Longrightarrow> sum_view c' = sum_view c"
  "updateFlowControlOnResetStream s c = Inr c' \<Longrightarrow> sum_view c' = sum_view c"
  by (auto simp: updateFlowControlOnWriteToStream_def updateFlowControlOnResetStream_def result_simps upd_flow_def sum_view_def)

lemma block_sums: "sum_view (maybeWriteBlockAfterAPIWrite s c) = sum_view c"
  by (simp add: maybeWriteBlockAfterAPIWrite_def)

lemma charge_write_views:
  assumes "bind_result (updateFlowControlOnWriteToStream n c) (\<lambda>c2.
      bind_result (lift_manager (updateWritableStreams s2) c2) (\<lambda>c3. Inr (s2, c3))) = Inr (s', c')"
  shows "s' = s2 \<and> sum_view c' = sum_view c"
  using assms by (auto simp: result_simps dest!: lift_manager_sums write_flow_sums)

lemma write_views:
  assumes "writeDataToQuicStream data eof s c = Inr (s', c')"
  shows "read_view s' = read_view s \<and> sum_view c' = sum_view c"
  using assms unfolding writeDataToQuicStream_def Let_def
  by (auto simp: read_view_def block_sums split: if_split_asm dest!: charge_write_views)

lemma write_meta_views:
  assumes "writeBufMetaToQuicStream len eof s c = Inr (s', c')"
  shows "read_view s' = read_view s \<and> sum_view c' = sum_view c"
  using assms unfolding writeBufMetaToQuicStream_def Let_def
  by (auto simp: read_view_def block_sums split: if_split_asm dest!: charge_write_views)

lemma ack_views:
  assumes "sendAckSMHandler f s c = Inr (s', c')"
  shows "read_view s' = read_view s \<and> sum_view c' = sum_view c"
proof (cases "sendState s")
  case Send_Open
  show ?thesis
  proof (rule ack_cases [OF assms Send_Open])
    fix s1 b assume ack: "ackBuffer f s = Inr s1"
      and fin: "(if b then (s1\<lparr>sendState := Send_Closed\<rparr>,
          closedIfTerminal (s1\<lparr>sendState := Send_Closed\<rparr>) (upd_manager (addDeliverable (stream_id s)) c))
        else (s1, upd_manager (addDeliverable (stream_id s)) c)) = (s', c')"
    have "read_view s1 = read_view s"
      using ack by (auto simp: ackBuffer_def updateAckedIntervals_def read_view_def result_simps Let_def
        split: if_split_asm option.split_asm sum.split_asm)
    then show ?thesis using fin by (cases b) (auto simp: read_view_def closedIfTerminal_def)
  qed
qed (use assms in \<open>auto simp: sendAckSMHandler_def\<close>)

lemma window_views:
  assumes "handleStreamWindowUpdate n s c = Inr (s', c')"
  shows "read_view s' = read_view s \<and> sum_view c' = sum_view c"
  using assms
  by (auto simp: handleStreamWindowUpdate_def Let_def result_simps updateFlowControlList_def read_view_def split: if_split_asm)

lemma blocked_views:
  assumes "handleStreamBlocked now s c = Inr (s', c')"
  shows "read_view s' = read_view s \<and> sum_view c' = sum_view c"
  using assms
  by (auto simp: handleStreamBlocked_def maybeIncreaseStreamFlowControlWindow_def result_simps read_view_def split: if_split_asm)

lemma reset_views:
  assumes "resetQuicStream err now s c = Inr (s', c')"
  shows "read_view s' = read_view (s\<lparr>readBuffer := []\<rparr>) \<and> sum_view c' = sum_view c"
proof -
  obtain c1 where c1: "updateFlowControlOnResetStream s c = Inr c1" and
    fin: "(case updateReadableStreams now (s\<lparr>retransmissionBuffer := Mapping.empty, writeBuffer := [], pendingWrites := [],
        readBuffer := [], lossBuffer := [], streamWriteError := Some err, writeBufMeta := (writeBufMeta s)\<lparr>bm_length := 0\<rparr>,
        retransmissionBufMetas := Mapping.empty, lossBufMetas := [], dsrSender := False\<rparr>) c1 of (s2, c2) \<Rightarrow>
      bind_result (lift_manager (updateWritableStreams s2) c2) (\<lambda>c3. Inr (s2, c3))) = Inr (s', c')"
    using assms unfolding resetQuicStream_def Let_def by (auto simp: bind_result_Inr [where m = "updateFlowControlOnResetStream s c"])
  have "returns (\<lambda>(s', c'). read_view s' = read_view u \<and> sum_view c' = sum_view d)
      (case updateReadableStreams now u d of (s2, c2) \<Rightarrow>
        bind_result (lift_manager (updateWritableStreams s2) c2) (\<lambda>c3. Inr (s2, c3)))" for u d
    by (cases "updateReadableStreams now u d")
      (auto simp: returns_def result_simps dest!: updateReadableStreams_views lift_manager_sums)
  from returnsD [OF this fin] show ?thesis using write_flow_sums(2) [OF c1] by (simp add: read_view_def)
qed

section \<open>The accounts\<close>

text \<open>
  \<open>M\<close> and \<open>R\<close> are the shares of the other streams in the two sums. The read offset passes the
  highest offset observed by one only after the FIN was read.
\<close>

definition position_ok :: "quic_stream \<Rightarrow> bool" where
  "position_ok s \<longleftrightarrow> separated (readBuffer s) \<and>
     (\<forall>b \<in> set (readBuffer s). currentReadOffset s \<le> sb_offset b \<and> sb_end b \<le> maxOffsetObserved s) \<and>
     (currentReadOffset s \<le> maxOffsetObserved s \<or>
      finalReadOffset s = Some (maxOffsetObserved s) \<and> currentReadOffset s = Suc (maxOffsetObserved s)) \<and>
     (\<forall>f. finalReadOffset s = Some f \<longrightarrow> maxOffsetObserved s \<le> f \<and> f < 2 ^ 63) \<and>
     maxOffsetObserved s < 2 ^ 63 \<and> maxOffsetObserved s \<le> sf_advertisedMaxOffset (flowControlState s)"

definition bytesRead :: "quic_stream \<Rightarrow> nat" where
  "bytesRead s = min (currentReadOffset s) (maxOffsetObserved s)"

definition sums_ok :: "nat \<Rightarrow> nat \<Rightarrow> quic_stream \<Rightarrow> quic_conn \<Rightarrow> bool" where
  "sums_ok M R s c \<longleftrightarrow>
     cf_sumMaxObservedOffset (qc_flow c) = M + maxOffsetObserved s \<and> cf_sumCurReadOffset (qc_flow c) = R + bytesRead s \<and>
     cf_sumMaxObservedOffset (qc_flow c) \<le> cf_advertisedMaxOffset (qc_flow c) \<and>
     cf_sumMaxObservedOffset (qc_flow c) < 2 ^ 64 \<and> cf_sumCurReadOffset (qc_flow c) < 2 ^ 64"

lemma credit_cong:
  assumes "read_view s' = read_view s" "sum_view c' = sum_view c"
  shows "position_ok s' = position_ok s" "sums_ok M R s' c' = sums_ok M R s c"
  using assms by (simp_all add: position_ok_def sums_ok_def bytesRead_def read_view_def sum_view_def)

lemma position_empty: "position_ok s \<Longrightarrow> position_ok (s\<lparr>readBuffer := []\<rparr>)"
  by (simp add: position_ok_def separated_simps)

lemma sums_empty: "sums_ok M R (s\<lparr>readBuffer := []\<rparr>) c = sums_ok M R s c"
  by (simp add: sums_ok_def bytesRead_def)

text \<open>An ordered read stays within what was buffered, and never aborts.\<close>

lemma read_loop_bounded:
  assumes sep: "separated rb" and low: "\<forall>b \<in> set rb. ro \<le> sb_offset b \<and> sb_end b \<le> m" and "ro \<le> m \<or> rb = []"
  shows "\<exists>rb' ro' out' eof'. read_loop n r rb ro out eof = Inr (rb', ro', out', eof') \<and> ro \<le> ro' \<and>
    (rb = [] \<longrightarrow> ro' = ro) \<and> (ro \<le> m \<longrightarrow> ro' \<le> m) \<and> separated rb' \<and> (\<forall>b \<in> set rb'. ro' \<le> sb_offset b \<and> sb_end b \<le> m)"
proof (cases "(n = 0 \<or> r \<noteq> 0) \<and> rb \<noteq> [] \<and> sb_offset (hd rb) = ro")
  case False
  then have "read_loop n r rb ro out eof = Inr (rb, ro, out, eof)"
    using low by (intro read_loop_stop) (cases rb, auto)
  then show ?thesis using sep low by auto
next
  case True
  then obtain x xs where rb: "rb = x # xs" and x: "sb_offset x = ro" and nr: "n = 0 \<or> r \<noteq> 0" by (cases rb) auto
  define k where "k = min (length (sb_data x)) (if n = 0 then length (sb_data x) else r)"
  define x' where "x' = x\<lparr>sb_data := drop k (sb_data x), sb_offset := sb_offset x + k\<rparr>"
  define rb' where "rb' = (if k = length (sb_data x) then xs else x' # xs)"
  have k: "k \<le> length (sb_data x)" by (simp add: k_def)
  have xs: "\<forall>y \<in> set xs. sb_end x < sb_offset y" "separated xs" using sep rb by (simp_all add: separated_simps)
  have e: "sb_end x' = sb_end x" "ro + k \<le> sb_end x" "sb_end x \<le> m" using k x low rb by (simp_all add: x'_def sb_end_def)
  obtain eof' where "read_loop n r rb ro out eof = Inr (rb', ro + k, out @ take k (sb_data x), eof')"
    using read_loop_front [of x xs ro n r k out eof] sep rb x nr k_def by (auto simp: rb'_def x'_def)
  moreover have "separated rb'" using xs e(1) k by (auto simp: rb'_def x'_def separated_simps)
  moreover have "\<forall>b \<in> set rb'. ro + k \<le> sb_offset b \<and> sb_end b \<le> m"
    using xs e low rb x by (fastforce simp: rb'_def x'_def split: if_splits)
  ultimately show ?thesis using e rb by auto
qed

lemma updateFlowControlOnRead_sums:
  assumes "updateFlowControlOnRead a now s c = Inr c'" and "a \<le> currentReadOffset s" "currentReadOffset s < 2 ^ 64"
    and "cf_sumCurReadOffset (qc_flow c) < 2 ^ 64"
  shows "cf_sumMaxObservedOffset (qc_flow c') = cf_sumMaxObservedOffset (qc_flow c) \<and>
    cf_sumCurReadOffset (qc_flow c') = cf_sumCurReadOffset (qc_flow c) + (currentReadOffset s - a) \<and>
    cf_sumCurReadOffset (qc_flow c') < 2 ^ 64 \<and> cf_advertisedMaxOffset (qc_flow c') = cf_advertisedMaxOffset (qc_flow c)"
proof -
  have diff: "sub64 (currentReadOffset s) a = currentReadOffset s - a" "currentReadOffset s - a < 2 ^ 64"
    using assms(2,3) by (simp_all add: sub64_eq)
  obtain n b c1 where inc: "incrementWithOverFlowCheck (cf_sumCurReadOffset (qc_flow c)) (currentReadOffset s - a) = Inr n"
    and c1: "maybeSendConnWindowUpdate now (upd_flow (\<lambda>f. f\<lparr>cf_sumCurReadOffset := n\<rparr>) c) = Inr (b, c1)"
    and c': "c' = snd (maybeSendStreamWindowUpdate now s c1)"
    using assms(1) by (auto simp: updateFlowControlOnRead_def Let_def result_simps diff)
  have n: "n = cf_sumCurReadOffset (qc_flow c) + (currentReadOffset s - a)" "n < 2 ^ 64"
    using inc incrementWithOverFlowCheck_iff [OF assms(4) diff(2)] by (auto split: if_split_asm)
  have "cf_sumMaxObservedOffset (qc_flow c1) = cf_sumMaxObservedOffset (qc_flow c)"
    using c1 by (auto simp: maybeSendConnWindowUpdate_def maybeIncreaseConnectionFlowControlWindow_def Let_def result_simps upd_flow_def
      split: if_splits option.splits)
  then show ?thesis
    using maybeSendConnWindowUpdate_keeps [OF c1] n by (simp add: c' maybeSendStreamWindowUpdate_conn upd_flow_def)
qed

section \<open>Reading\<close>

lemma bump_ok:
  assumes "position_ok s" "finalReadOffset s = Some (currentReadOffset s)"
  shows "position_ok (s\<lparr>currentReadOffset := add64 (currentReadOffset s) 1\<rparr>)"
    "sums_ok M R (s\<lparr>currentReadOffset := add64 (currentReadOffset s) 1\<rparr>) c = sums_ok M R s c"
proof -
  have m: "maxOffsetObserved s = currentReadOffset s" "currentReadOffset s < 2 ^ 63"
    using assms by (auto simp: position_ok_def)
  then have "readBuffer s = []"
    using assms(1) by (cases "readBuffer s") (auto simp: position_ok_def separated_simps sb_end_less)
  then show "position_ok (s\<lparr>currentReadOffset := add64 (currentReadOffset s) 1\<rparr>)"
    using assms m by (simp add: position_ok_def add64_eq separated_simps)
  show "sums_ok M R (s\<lparr>currentReadOffset := add64 (currentReadOffset s) 1\<rparr>) c = sums_ok M R s c"
    using m by (simp add: sums_ok_def bytesRead_def add64_eq)
qed

lemma finish_read_ok:
  assumes "position_ok s" "sums_ok M R s c"
    and "updateReadPeek now (if finalReadOffset s = Some (currentReadOffset s)
      then s\<lparr>currentReadOffset := add64 (currentReadOffset s) 1\<rparr> else s) c = (s', c')"
  shows "position_ok s' \<and> sums_ok M R s' c'"
proof -
  let ?s = "if finalReadOffset s = Some (currentReadOffset s) then s\<lparr>currentReadOffset := add64 (currentReadOffset s) 1\<rparr> else s"
  have "position_ok ?s" "sums_ok M R ?s c" using assms(1,2) bump_ok [OF assms(1)] by simp_all
  then show ?thesis using updateReadPeek_views [OF assms(3)] credit_cong by blast
qed

lemma ordered_read_ok:
  assumes pos: "position_ok s" and sums: "sums_ok M R s c" and before: "currentReadOffset s \<le> maxOffsetObserved s"
    and rd: "readDataInOrderFromReadBuffer n s = Inr (s1, d, e)" and fc: "updateFlowControlOnRead (currentReadOffset s) now s1 c = Inr c1"
  shows "position_ok s1 \<and> sums_ok M R s1 c1"
proof -
  have "separated (readBuffer s)"
    and "\<forall>b \<in> set (readBuffer s). currentReadOffset s \<le> sb_offset b \<and> sb_end b \<le> maxOffsetObserved s"
    using pos by (simp_all add: position_ok_def)
  from read_loop_bounded [OF this, of n n "[]" False] before obtain rb' ro' out' eof' where
    run: "read_loop n n (readBuffer s) (currentReadOffset s) [] False = Inr (rb', ro', out', eof')"
    and b: "currentReadOffset s \<le> ro'" "ro' \<le> maxOffsetObserved s" "separated rb'"
      "\<forall>b \<in> set rb'. ro' \<le> sb_offset b \<and> sb_end b \<le> maxOffsetObserved s"
    by auto
  have s1: "s1 = s\<lparr>readBuffer := rb', currentReadOffset := ro'\<rparr>"
    using rd by (simp add: readDataInOrderFromReadBuffer_def run)
  have "maxOffsetObserved s < 2 ^ 63" using pos by (simp add: position_ok_def)
  then have "ro' < 2 ^ 64" using b(2) by simp
  then have "cf_sumCurReadOffset (qc_flow c1) = cf_sumCurReadOffset (qc_flow c) + (ro' - currentReadOffset s)"
    and "cf_sumMaxObservedOffset (qc_flow c1) = cf_sumMaxObservedOffset (qc_flow c)" "cf_sumCurReadOffset (qc_flow c1) < 2 ^ 64"
    "cf_advertisedMaxOffset (qc_flow c1) = cf_advertisedMaxOffset (qc_flow c)"
    using updateFlowControlOnRead_sums [OF fc] b(1) sums by (simp_all add: s1 sums_ok_def)
  then have "sums_ok M R s1 c1" using sums b before by (simp add: sums_ok_def bytesRead_def s1)
  moreover have "position_ok s1" using pos b by (simp add: position_ok_def s1)
  ultimately show ?thesis by blast
qed

lemma read_credit:
  assumes pos: "position_ok s" and sums: "sums_ok M R s c" and rd: "readDataFromQuicStream n now now2 s c = Inr ((s', c'), r)"
  shows "position_ok s' \<and> sums_ok M R s' c'"
proof (cases "case finalReadOffset s of None \<Rightarrow> False | Some f \<Rightarrow> currentReadOffset s \<ge> f")
  case True
  then have "updateReadPeek now2 (if finalReadOffset s = Some (currentReadOffset s)
      then s\<lparr>currentReadOffset := add64 (currentReadOffset s) 1\<rparr> else s) c = (s', c')"
    using rd by (simp add: readDataFromQuicStream_def Let_def)
  then show ?thesis using finish_read_ok [OF pos sums] by blast
next
  case False
  then have before: "currentReadOffset s \<le> maxOffsetObserved s" using pos by (auto simp: position_ok_def)
  obtain s1 d e c1 where "readDataInOrderFromReadBuffer n s = Inr (s1, d, e)"
    and "updateFlowControlOnRead (currentReadOffset s) now s1 c = Inr c1"
    and fin: "updateReadPeek now2 (if finalReadOffset s1 = Some (currentReadOffset s1)
      then s1\<lparr>currentReadOffset := add64 (currentReadOffset s1) 1\<rparr> else s1) c1 = (s', c')"
    using rd False unfolding readDataFromQuicStream_def Let_def by (auto simp: result_simps)
  then have "position_ok s1 \<and> sums_ok M R s1 c1" using ordered_read_ok [OF pos sums before] by blast
  then show ?thesis using finish_read_ok [OF _ _ fin] by blast
qed

section \<open>Receiving\<close>

lemma charge_sums:
  assumes "updateFlowControlOnStreamData a b s c = Inr c'" and "a < 2 ^ 64" "b < 2 ^ 64" "cf_sumMaxObservedOffset (qc_flow c) < 2 ^ 64"
  shows "b \<le> sf_advertisedMaxOffset (flowControlState s) \<and>
    cf_sumMaxObservedOffset (qc_flow c') = cf_sumMaxObservedOffset (qc_flow c) + (max a b - a) \<and>
    cf_sumMaxObservedOffset (qc_flow c') < 2 ^ 64 \<and> cf_sumMaxObservedOffset (qc_flow c') \<le> cf_advertisedMaxOffset (qc_flow c') \<and>
    cf_sumCurReadOffset (qc_flow c') = cf_sumCurReadOffset (qc_flow c) \<and> cf_advertisedMaxOffset (qc_flow c') = cf_advertisedMaxOffset (qc_flow c)"
proof -
  have "sub64 (max a b) a = max a b - a" "max a b - a < 2 ^ 64" using assms(2,3) by (simp_all add: sub64_eq)
  note d = this(1) incrementWithOverFlowCheck_iff [OF assms(4) this(2)]
  show ?thesis
    using assms(1) by (auto simp: updateFlowControlOnStreamData_def Let_def d result_simps split: if_split_asm)
qed

lemma separated_ends:
  "separated rb \<Longrightarrow> (\<forall>b \<in> set rb. sb_end b \<le> n) \<longleftrightarrow> covered rb \<subseteq> {..<n}"
proof (intro iffI ballI)
  fix b assume "separated rb" "covered rb \<subseteq> {..<n}" "b \<in> set rb"
  then have "sb_offset b < sb_end b" "sb_range b \<subseteq> {..<n}" by (auto simp: separated_def covered_def sb_end_less)
  moreover from this have "sb_end b - 1 \<in> sb_range b" by (simp add: sb_range_def)
  ultimately show "sb_end b \<le> n" by auto
qed (fastforce simp: covered_def sb_range_def)

lemma store_position:
  assumes "position_ok u" "sb_end b \<le> maxOffsetObserved u"
  shows "position_ok (storeBuffer b u) \<and> bytesRead (storeBuffer b u) = bytesRead u \<and>
    maxOffsetObserved (storeBuffer b u) = maxOffsetObserved u"
proof -
  define b1 where "b1 = (if sb_offset b < currentReadOffset u
    then b\<lparr>sb_data := drop (currentReadOffset u - sb_offset b) (sb_data b), sb_offset := currentReadOffset u\<rparr> else b)"
  have st: "storeBuffer b u =
      (if sb_data b = [] \<or> sb_data b1 = [] then u else u\<lparr>readBuffer := mergeBuffer b1 (readBuffer u)\<rparr>)"
    by (simp add: storeBuffer_def b1_def Let_def)
  have sep: "separated (readBuffer u)" and low: "\<forall>x \<in> set (readBuffer u). currentReadOffset u \<le> sb_offset x"
    and cov: "covered (readBuffer u) \<subseteq> {..<maxOffsetObserved u}"
    using assms(1) separated_ends [of "readBuffer u" "maxOffsetObserved u"] by (auto simp: position_ok_def)
  have b1: "currentReadOffset u \<le> sb_offset b1" "sb_range b1 \<subseteq> {..<maxOffsetObserved u}"
    using assms(2) by (auto simp: b1_def sb_range_def sb_end_def)
  show ?thesis
  proof (cases "sb_data b1 = []")
    case False
    note m = mergeBuffer_correct [OF sep False]
    have "\<forall>x \<in> set (mergeBuffer b1 (readBuffer u)). sb_end x \<le> maxOffsetObserved u"
      using separated_ends [OF m(1)] cov b1(2) unfolding m(2) by blast
    then show ?thesis
      using st m(1) m(4) [OF b1(1) low] assms(1) by (auto simp: position_ok_def bytesRead_def)
  qed (use st assms(1) in simp)
qed

lemma append_credit:
  assumes pos: "position_ok s" and sums: "sums_ok M R s c" and small: "sb_end b < 2 ^ 63"
    and app: "appendDataToReadBuffer b s c = Inr (s', c')"
  shows "position_ok s' \<and> sums_ok M R s' c'"
proof (cases "\<not> sb_eof b \<and> sb_data b = []")
  case True
  then show ?thesis using app pos sums by (simp add: appendDataToReadBuffer_def appendDataToReadBufferCommon_def)
next
  case False
  then obtain t where t: "checkEof b s = Inr t" and fc: "updateFlowControlOnStreamData (maxOffsetObserved t) (sb_end b) s c = Inr c'"
    and s': "s' = storeBuffer b (t\<lparr>maxOffsetObserved := max (maxOffsetObserved t) (sb_end b)\<rparr>)"
    using app unfolding appendDataToReadBuffer_def appendDataToReadBufferCommon_def
    by (auto simp: result_simps Let_def split: if_split_asm)
  define u where "u = t\<lparr>maxOffsetObserved := max (maxOffsetObserved t) (sb_end b)\<rparr>"
  have t': "readBuffer t = readBuffer s" "currentReadOffset t = currentReadOffset s" "maxOffsetObserved t = maxOffsetObserved s"
    "flowControlState t = flowControlState s"
    "finalReadOffset t = (if sb_eof b then Some (sb_end b) else finalReadOffset s)"
    "sb_eof b \<Longrightarrow> maxOffsetObserved s \<le> sb_end b \<and> (finalReadOffset s = None \<or> finalReadOffset s = Some (sb_end b))"
    "\<not> sb_eof b \<Longrightarrow> finalReadOffset s = None \<or> sb_end b \<le> the (finalReadOffset s)"
    using t by (auto simp: checkEof_def split: option.split_asm bool.split_asm if_split_asm)
  have lt: "maxOffsetObserved s < 2 ^ 64" "sb_end b < 2 ^ 64" using pos small by (simp_all add: position_ok_def)
  note fc' = charge_sums [OF fc, unfolded t'(3), OF lt]
  have charged: "sb_end b \<le> sf_advertisedMaxOffset (flowControlState s)" using fc' sums by (simp add: sums_ok_def)
  have u: "position_ok u"
    using pos t' small charged unfolding position_ok_def u_def by (cases "sb_eof b") (auto simp: max_def)
  have "bytesRead u = bytesRead s"
    using pos t' unfolding position_ok_def u_def bytesRead_def by (cases "sb_eof b") (auto simp: max_def min_def)
  then have "sums_ok M R u c'" using fc' sums by (auto simp: sums_ok_def u_def t')
  then show ?thesis
    using store_position [OF u, of b] by (simp add: s' u_def sums_ok_def)
qed

lemma settle_views:
  assumes "(case updateReadableStreams now s c of (s2, c2) \<Rightarrow>
      bind_result (lift_manager (updateWritableStreams s2) c2) (\<lambda>c3. Inr (s2, c3))) = Inr (s', c')"
  shows "read_view s' = read_view s \<and> sum_view c' = sum_view c"
proof (cases "updateReadableStreams now s c")
  case (Pair s2 c2)
  with assms show ?thesis by (auto simp: result_simps dest!: updateReadableStreams_views lift_manager_sums)
qed

text \<open>The part of \<open>onResetQuicStream\<close> between the checks and the queues.\<close>

lemma onReset_cases:
  assumes "onResetQuicStream rst now now2 s c = Inr (s', c')"
  obtains s2 c1 c2 where "finalReadOffset s = None \<or> finalReadOffset s = Some (rst_offset rst)" "maxOffsetObserved s \<le> rst_offset rst"
    "updateFlowControlOnStreamData (maxOffsetObserved s) (rst_offset rst) s c = Inr c1"
    "read_view s' = read_view s2" "sum_view c' = sum_view c2"
    "if currentReadOffset s > rst_offset rst
     then read_view s2 = read_view (s\<lparr>readBuffer := [], finalReadOffset := Some (rst_offset rst)\<rparr>) \<and> c2 = c1
     else read_view s2 = read_view (s\<lparr>readBuffer := [], finalReadOffset := Some (rst_offset rst), currentReadOffset := rst_offset rst,
            maxOffsetObserved := rst_offset rst\<rparr>) \<and> updateFlowControlOnRead (currentReadOffset s) now s2 c1 = Inr c2"
proof -
  let ?s1 = "s\<lparr>readBuffer := [], finalReadOffset := Some (rst_offset rst), streamReadError := Some (rst_errorCode rst)\<rparr>"
  let ?s2 = "?s1\<lparr>currentReadOffset := rst_offset rst, maxOffsetObserved := rst_offset rst\<rparr>"
  have g: "finalReadOffset s = None \<or> finalReadOffset s = Some (rst_offset rst)" "maxOffsetObserved s \<le> rst_offset rst"
    using assms by (auto simp: onResetQuicStream_def split: if_split_asm option.split_asm)
  obtain c1 where c1: "updateFlowControlOnStreamData (maxOffsetObserved s) (rst_offset rst) s c = Inr c1"
    using assms by (auto simp: onResetQuicStream_def bind_result_Inr [where m = "updateFlowControlOnStreamData _ _ _ _"] split: if_split_asm)
  obtain s2 c2 where s2: "(case updateReadableStreams now2 s2 c2 of (s3, c3) \<Rightarrow>
      bind_result (lift_manager (updateWritableStreams s3) c3) (\<lambda>c4. Inr (s3, c4))) = Inr (s', c')"
    and "if currentReadOffset s > rst_offset rst then s2 = ?s1 \<and> c2 = c1
         else s2 = ?s2 \<and> updateFlowControlOnRead (currentReadOffset s) now s2 c1 = Inr c2"
    using assms c1 unfolding onResetQuicStream_def Let_def
    by (auto simp: bind_result_Inr [where m = "updateFlowControlOnRead _ _ _ _"]
        bind_result_Inr [where m = "bind_result _ _"] split: if_split_asm option.split_asm)
  then show thesis using that [OF g c1 _ _, of s2 c2] settle_views [OF s2] by (auto simp: read_view_def split: if_split_asm)
qed

lemma onReset_credit:
  assumes pos: "position_ok s" and sums: "sums_ok M R s c" and small: "rst_offset rst < 2 ^ 63"
    and rst: "onResetQuicStream rst now now2 s c = Inr (s', c')"
  shows "position_ok s' \<and> sums_ok M R s' c'"
proof (rule onReset_cases [OF rst])
  fix s2 c1 c2
  let ?o = "rst_offset rst"
  assume f: "finalReadOffset s = None \<or> finalReadOffset s = Some ?o" "maxOffsetObserved s \<le> ?o"
    and fc: "updateFlowControlOnStreamData (maxOffsetObserved s) ?o s c = Inr c1"
    and eq: "read_view s' = read_view s2" "sum_view c' = sum_view c2"
    and s2: "if currentReadOffset s > ?o
     then read_view s2 = read_view (s\<lparr>readBuffer := [], finalReadOffset := Some ?o\<rparr>) \<and> c2 = c1
     else read_view s2 = read_view (s\<lparr>readBuffer := [], finalReadOffset := Some ?o, currentReadOffset := ?o,
            maxOffsetObserved := ?o\<rparr>) \<and> updateFlowControlOnRead (currentReadOffset s) now s2 c1 = Inr c2"
  have lt: "maxOffsetObserved s < 2 ^ 64" "?o < 2 ^ 64" using pos small by (simp_all add: position_ok_def)
  note fc' = charge_sums [OF fc lt]
  have adv: "?o \<le> sf_advertisedMaxOffset (flowControlState s)"
    and sum: "cf_sumMaxObservedOffset (qc_flow c1) = M + ?o" "cf_sumCurReadOffset (qc_flow c1) = R + bytesRead s"
      "cf_sumMaxObservedOffset (qc_flow c1) \<le> cf_advertisedMaxOffset (qc_flow c1)" "cf_sumMaxObservedOffset (qc_flow c1) < 2 ^ 64"
      "cf_sumCurReadOffset (qc_flow c1) < 2 ^ 64"
    using fc' sums f(2) by (simp_all add: sums_ok_def)
  have "position_ok s2 \<and> sums_ok M R s2 c2"
  proof (cases "currentReadOffset s > ?o")
    case True
    then have "maxOffsetObserved s = ?o" "finalReadOffset s = Some ?o" "currentReadOffset s = Suc ?o"
      using pos f by (auto simp: position_ok_def)
    then show ?thesis
      using True s2 pos sum small adv by (simp add: position_ok_def sums_ok_def bytesRead_def read_view_def separated_simps)
  next
    case False
    then have "currentReadOffset s \<le> maxOffsetObserved s" using pos f by (auto simp: position_ok_def)
    then have "bytesRead s = currentReadOffset s" by (simp add: bytesRead_def)
    moreover have cur: "currentReadOffset s2 = ?o" using False s2 by (simp add: read_view_def)
    ultimately have "cf_sumCurReadOffset (qc_flow c2) = R + ?o" "cf_sumMaxObservedOffset (qc_flow c2) = M + ?o"
      "cf_advertisedMaxOffset (qc_flow c2) = cf_advertisedMaxOffset (qc_flow c1)" "cf_sumCurReadOffset (qc_flow c2) < 2 ^ 64"
      using updateFlowControlOnRead_sums [of "currentReadOffset s" now s2 c1 c2] False s2 lt(2) sum by simp_all
    then show ?thesis
      using False s2 sum small adv by (simp add: position_ok_def sums_ok_def bytesRead_def read_view_def separated_simps)
  qed
  then show ?thesis using credit_cong [OF eq] by blast
qed

lemma frame_credit:
  assumes "position_ok s" "sums_ok M R s c" "sb_end b < 2 ^ 63" "receiveReadStreamFrameSMHandler b now s c = Inr (s', c')"
  shows "position_ok s' \<and> sums_ok M R s' c'"
proof (cases "recvState s")
  case Recv_Open
  show ?thesis
  proof (rule frame_cases [OF assms(4) Recv_Open])
    fix s1 c1 assume app: "appendDataToReadBuffer b s c = Inr (s1, c1)"
      and fin: "updateReadPeek now (if isAllDataReceived s1 then s1\<lparr>recvState := Recv_Closed\<rparr> else s1)
        (if isAllDataReceived s1 then closedIfTerminal (s1\<lparr>recvState := Recv_Closed\<rparr>) c1 else c1) = (s', c')"
    have "read_view s' = read_view s1" "sum_view c' = sum_view c1"
      using updateReadPeek_views [OF fin] by (simp_all add: read_view_def closedIfTerminal_def split: if_split_asm)
    then show ?thesis using append_credit [OF assms(1-3) app] credit_cong by blast
  qed
qed (use assms in \<open>auto simp: receiveReadStreamFrameSMHandler_def split: if_split_asm\<close>)

lemma reset_frame_credit:
  assumes "position_ok s" "sums_ok M R s c" "rst_offset rst < 2 ^ 63" "receiveRstStreamSMHandler rst now now2 s c = Inr (s', c')"
  shows "position_ok s' \<and> sums_ok M R s' c'"
proof (cases "recvState s")
  case Recv_Open
  let ?s = "s\<lparr>recvState := Recv_Closed\<rparr>"
  have "read_view ?s = read_view s" "sum_view (closedIfTerminal ?s c) = sum_view c"
    by (simp_all add: read_view_def closedIfTerminal_def)
  then have "position_ok ?s" "sums_ok M R ?s (closedIfTerminal ?s c)" using assms(1,2) credit_cong by blast+
  moreover have "onResetQuicStream rst now now2 ?s (closedIfTerminal ?s c) = Inr (s', c')"
    using assms(4) Recv_Open by (simp add: receiveRstStreamSMHandler_def Let_def)
  ultimately show ?thesis using onReset_credit [OF _ _ assms(3)] by blast
next
  case Recv_Closed
  then have "onResetQuicStream rst now now2 s c = Inr (s', c')" using assms(4) by (simp add: receiveRstStreamSMHandler_def)
  then show ?thesis by (rule onReset_credit [OF assms(1-3)])
qed (use assms in \<open>simp add: receiveRstStreamSMHandler_def\<close>)

section \<open>Every event\<close>

datatype credit_event =
    On_stream stream_event
  | Sent_max_data int
  | Sent_max_stream_data int

text \<open>A window update is sent with the maximum that is then built, and recorded as sent.\<close>

fun credit_step :: "quic_stream \<times> quic_conn \<Rightarrow> credit_event \<Rightarrow> stream_error + quic_stream \<times> quic_conn" where
  "credit_step sc (On_stream v) = stream_step sc v"
| "credit_step (s, c) (Sent_max_data t) = Inr (s, onConnWindowUpdateSent (generateMaxDataFrame c) t c)"
| "credit_step (s, c) (Sent_max_stream_data t) = Inr (onStreamWindowUpdateSent (snd (generateMaxStreamDataFrame s)) t s c)"

text \<open>Offsets on the wire are variable-length integers below \<open>2 ^ 62\<close>.\<close>

fun wire_event :: "credit_event \<Rightarrow> bool" where
  "wire_event (On_stream (Got_frame b now)) = (sb_end b < 2 ^ 63)"
| "wire_event (On_stream (Got_reset rst now now2)) = (rst_offset rst < 2 ^ 63)"
| "wire_event _ = True"

lemma stream_step_credit:
  assumes "position_ok s" "sums_ok M R s c" "wire_event (On_stream v)" "stream_step (s, c) v = Inr (s', c')"
  shows "position_ok s' \<and> sums_ok M R s' c'"
proof (cases v)
  case (App_read n now now2)
  then obtain r where "readDataFromQuicStream n now now2 s c = Inr ((s', c'), r)"
    using assms(4) by (auto simp: result_simps)
  then show ?thesis by (rule read_credit [OF assms(1,2)])
next
  case (App_consume n now now2)
  then obtain r where "readDataFromQuicStream n now now2 s c = Inr ((s', c'), r)"
    using assms(4) by (auto simp: consume_follows result_simps)
  then show ?thesis by (rule read_credit [OF assms(1,2)])
next
  case (Got_frame b now)
  with assms(3,4) show ?thesis by (intro frame_credit [OF assms(1,2)]) simp_all
next
  case (Got_reset rst now now2)
  with assms(3,4) show ?thesis by (intro reset_frame_credit [OF assms(1,2)]) simp_all
next
  case App_stop_sending
  then have "read_view s' = read_view (s\<lparr>readBuffer := []\<rparr>)" "sum_view c' = sum_view c"
    using assms(4) by (auto simp: processTxStopSending_def Let_def read_view_def)
  then show ?thesis using credit_cong position_empty sums_empty assms(1,2) by blast
next
  case (App_reset err now)
  show ?thesis
  proof (cases "sendState s = Send_Open")
    case True
    then obtain s1 c1 where "resetQuicStream err now s c = Inr (s1, c1)"
      and "s' = s1\<lparr>sendState := Send_ResetSent\<rparr>" "c' = appendPendingStreamReset s1 err c1"
      using assms(4) App_reset by (auto simp: sendRstSMHandler_def result_simps)
    then have "read_view s' = read_view (s\<lparr>readBuffer := []\<rparr>)" "sum_view c' = sum_view c"
      using reset_views [of err now s c s1 c1] by (simp_all add: read_view_def sum_view_def appendPendingStreamReset_def Let_def)
    then show ?thesis using credit_cong position_empty sums_empty assms(1,2) by blast
  next
    case False
    then show ?thesis using assms App_reset by (cases "sendState s") (auto simp: sendRstSMHandler_def)
  qed
next
  case (App_write data eof)
  then have "read_view s' = read_view s \<and> sum_view c' = sum_view c" using assms(4) by (intro write_views) simp
  then show ?thesis using credit_cong assms(1,2) by blast
next
  case (App_write_meta len eof)
  then have "read_view s' = read_view s \<and> sum_view c' = sum_view c" using assms(4) by (intro write_meta_views) simp
  then show ?thesis using credit_cong assms(1,2) by blast
next
  case (Got_stop_sending err)
  then have "s' = s" "sum_view c' = sum_view c"
    using assms(4) by (auto simp: sendStopSendingSMHandler_def split: stream_send_state.split_asm if_split_asm)
  then show ?thesis using credit_cong assms(1,2) by blast
next
  case Got_reset_ack
  then have "read_view s' = read_view s" "sum_view c' = sum_view c"
    using assms(4) by (auto simp: sendRstAckSMHandler_def closedIfTerminal_def read_view_def Let_def split: stream_send_state.split_asm)
  then show ?thesis using credit_cong assms(1,2) by blast
next
  case (Got_ack f)
  then have "read_view s' = read_view s \<and> sum_view c' = sum_view c" using assms(4) by (intro ack_views) simp
  then show ?thesis using credit_cong assms(1,2) by blast
next
  case (Got_window n)
  then have "read_view s' = read_view s \<and> sum_view c' = sum_view c" using assms(4) by (intro window_views) simp
  then show ?thesis using credit_cong assms(1,2) by blast
next
  case (Got_blocked now)
  then have "read_view s' = read_view s \<and> sum_view c' = sum_view c" using assms(4) by (intro blocked_views) simp
  then show ?thesis using credit_cong assms(1,2) by blast
qed

lemma credit_step_ok:
  assumes "position_ok s" "sums_ok M R s c" "wire_event v" "credit_step (s, c) v = Inr (s', c')"
  shows "position_ok s' \<and> sums_ok M R s' c'"
proof (cases v)
  case (On_stream w)
  with assms(3,4) show ?thesis by (intro stream_step_credit [OF assms(1,2)]) simp_all
next
  case (Sent_max_data t)
  then show ?thesis
    using assms by (auto simp: onConnWindowUpdateSent_def generateMaxDataFrame_def sums_ok_def upd_flow_def)
next
  case (Sent_max_stream_data t)
  then have "sum_view c' = sum_view c" "position_ok s'" "bytesRead s' = bytesRead s" "maxOffsetObserved s' = maxOffsetObserved s"
    using assms by (auto simp: onStreamWindowUpdateSent_def generateMaxStreamDataFrame_def calculateMaximumData_def position_ok_def
      bytesRead_def)
  then show ?thesis using assms(2) by (simp add: sums_ok_def sum_view_def)
qed

lemma credit_run_ok:
  assumes "position_ok s" "sums_ok M R s c" "list_all wire_event vs" "run_events credit_step (s, c) vs = Inr (s', c')"
  shows "position_ok s' \<and> sums_ok M R s' c'"
  using assms
proof (induction vs arbitrary: s c)
  case (Cons v vs)
  then obtain s1 c1 where "credit_step (s, c) v = Inr (s1, c1)" "run_events credit_step (s1, c1) vs = Inr (s', c')"
    by (auto simp: result_simps)
  moreover from this have "position_ok s1 \<and> sums_ok M R s1 c1"
    using Cons.prems credit_step_ok [of s M R c v s1 c1] by simp
  moreover have "list_all wire_event vs" using Cons.prems(3) by simp
  ultimately show ?case using Cons.IH by blast
qed simp

text \<open>
  C2. The receive accounts of flow control balance over the life of a stream: after any
  sequence of events on a new stream and of window updates sent, the two sums of the
  connection have grown by exactly the highest offset observed and the bytes read (or skipped by a
  reset) of this stream. So the bytes read never exceed the bytes received, and the
  bytes received never exceed what was advertised, for the stream and for the connection, and
  the credit left is a difference that does not wrap.
\<close>

theorem receive_accounts_balance:
  assumes "run_events credit_step (newQuicStream sid grp c, c) vs = Inr (s, c')" "list_all wire_event vs"
    and "cf_sumCurReadOffset (qc_flow c) \<le> cf_sumMaxObservedOffset (qc_flow c)"
    and "cf_sumMaxObservedOffset (qc_flow c) \<le> cf_advertisedMaxOffset (qc_flow c)" "cf_advertisedMaxOffset (qc_flow c) < 2 ^ 64"
  shows "cf_sumMaxObservedOffset (qc_flow c') = cf_sumMaxObservedOffset (qc_flow c) + maxOffsetObserved s \<and>
    cf_sumCurReadOffset (qc_flow c') = cf_sumCurReadOffset (qc_flow c) + bytesRead s \<and>
    bytesRead s \<le> maxOffsetObserved s \<and> maxOffsetObserved s \<le> sf_advertisedMaxOffset (flowControlState s) \<and>
    cf_sumCurReadOffset (qc_flow c') \<le> cf_sumMaxObservedOffset (qc_flow c') \<and>
    cf_sumMaxObservedOffset (qc_flow c') \<le> cf_advertisedMaxOffset (qc_flow c') \<and>
    (cf_advertisedMaxOffset (qc_flow c') < 2 ^ 64 \<longrightarrow>
      getRecvConnFlowControlBytes c' = cf_advertisedMaxOffset (qc_flow c') - cf_sumCurReadOffset (qc_flow c'))"
proof -
  define M where "M = cf_sumMaxObservedOffset (qc_flow c)"
  define R where "R = cf_sumCurReadOffset (qc_flow c)"
  let ?s = "newQuicStream sid grp c"
  have new: "position_ok ?s" by (simp add: position_ok_def newQuicStream_def separated_simps)
  have sums: "sums_ok M R ?s c"
    using assms(3-5) by (simp add: sums_ok_def newQuicStream_def bytesRead_def M_def R_def)
  have ok: "position_ok s" "sums_ok M R s c'" using credit_run_ok [OF new sums assms(2,1)] by blast+
  have le: "bytesRead s \<le> maxOffsetObserved s" by (simp add: bytesRead_def)
  moreover have "R \<le> M" using assms(3) by (simp add: M_def R_def)
  ultimately have "cf_sumCurReadOffset (qc_flow c') \<le> cf_sumMaxObservedOffset (qc_flow c')"
    using ok(2) by (simp add: sums_ok_def)
  then show ?thesis
    using ok le by (auto simp: sums_ok_def position_ok_def M_def R_def getRecvConnFlowControlBytes_def intro!: sub64_eq)
qed

text \<open>Stream 0 of a server: three bytes and then the FIN arrive, and the application reads everything.\<close>

lemma credit_sample_run:
  obtains s c' where "run_events credit_step
      (newQuicStream 0 None (sampleConn Server defaultTransportSettings), sampleConn Server defaultTransportSettings)
      [On_stream (Got_frame \<lparr>sb_data = [1, 2, 3], sb_offset = 0, sb_eof = False\<rparr> 1), Sent_max_data 2] = Inr (s, c')"
proof -
  let ?c = "sampleConn Server defaultTransportSettings" and ?b = "\<lparr>sb_data = [1, 2, 3], sb_offset = 0, sb_eof = False\<rparr>"
  have "\<exists>r. appendDataToReadBuffer ?b (newQuicStream 0 None ?c) ?c = Inr r"
    by (simp add: appendDataToReadBuffer_def appendDataToReadBufferCommon_def checkEof_def sample_flow sb_end_def
      updateFlowControlOnStreamData_def incrementWithOverFlowCheck_def add64_def sub64_def)
  moreover have "recvState (newQuicStream 0 None ?c) = Recv_Open" by (simp add: sample_flow)
  ultimately have "\<exists>s c'. stream_step (newQuicStream 0 None ?c, ?c) (Got_frame ?b 1) = Inr (s, c')"
    by (auto simp: receiveReadStreamFrameSMHandler_def case_prod_unfold Let_def)
  then show thesis using that by auto
qed

theorem receive_accounts_balance_witness:
  "\<exists>s c'. run_events credit_step
      (newQuicStream 0 None (sampleConn Server defaultTransportSettings), sampleConn Server defaultTransportSettings)
      [On_stream (Got_frame \<lparr>sb_data = [1, 2, 3], sb_offset = 0, sb_eof = False\<rparr> 1), Sent_max_data 2] = Inr (s, c') \<and>
    cf_sumMaxObservedOffset (qc_flow c') = maxOffsetObserved s \<and> cf_sumCurReadOffset (qc_flow c') = bytesRead s"
proof (rule credit_sample_run)
  fix s c' assume run: "run_events credit_step
      (newQuicStream 0 None (sampleConn Server defaultTransportSettings), sampleConn Server defaultTransportSettings)
      [On_stream (Got_frame \<lparr>sb_data = [1, 2, 3], sb_offset = 0, sb_eof = False\<rparr> 1), Sent_max_data 2] = Inr (s, c')"
  have "cf_sumMaxObservedOffset (qc_flow c') = maxOffsetObserved s \<and> cf_sumCurReadOffset (qc_flow c') = bytesRead s"
    using receive_accounts_balance [OF run] by (simp add: sampleConn_flow sb_end_def)
  then show ?thesis using run by blast
qed

end
