(* ===== verification/Stream_Frames.thy ===== *)
theory Stream_Frames
  imports Quic_Codec Stream_State
begin

text \<open>
  STREAM frames on the wire: the type field (\<open>codec/Types.cpp\<close>, \<open>QuicConstants.h\<close>), the
  writer \<open>writeStreamFrameHeader\<close> (\<open>codec/QuicWriteCodec.cpp\<close>) with the part of the packet builder
  it uses (\<open>codec/QuicPacketBuilder.cpp\<close>), and the reader \<open>decodeStreamFrame\<close>
  (\<open>codec/Decode.cpp\<close>). The space left in a packet is 32-bit, the other quantities are 64-bit,
  and both wrap as in the code.
\<close>

section \<open>The type field\<close>

definition frameType_STREAM :: u8 where "frameType_STREAM = 0x08"
definition frameType_GROUP_STREAM :: u8 where "frameType_GROUP_STREAM = 0x32"

definition kFinBit :: u8 where "kFinBit = 0x01"
definition kDataLengthBit :: u8 where "kDataLengthBit = 0x02"
definition kOffsetBit :: u8 where "kOffsetBit = 0x04"

definition hasFin :: "u8 \<Rightarrow> bool" where
  "hasFin field \<longleftrightarrow> field AND kFinBit \<noteq> 0"

definition hasDataLength :: "u8 \<Rightarrow> bool" where
  "hasDataLength field \<longleftrightarrow> field AND kDataLengthBit \<noteq> 0"

definition hasOffset :: "u8 \<Rightarrow> bool" where
  "hasOffset field \<longleftrightarrow> field AND kOffsetBit \<noteq> 0"

text \<open>The builder calls of \<open>writeStreamFrameHeader\<close>, each made or not.\<close>

definition streamType :: "bool \<Rightarrow> bool \<Rightarrow> bool \<Rightarrow> bool \<Rightarrow> u8" where
  "streamType groups off len fin =
     (let field = (if groups then frameType_GROUP_STREAM else frameType_STREAM);
          field = (if off then field OR kOffsetBit else field);
          field = (if len then field OR kDataLengthBit else field)
      in if fin then field OR kFinBit else field)"

section \<open>The packet builder\<close>

record packet_builder =
  pb_remaining :: u32
  pb_body :: "byte list"
  pb_frames :: "write_stream_frame list"

definition pb_append :: "byte list \<Rightarrow> packet_builder \<Rightarrow> packet_builder" where
  "pb_append bytes pb = pb\<lparr>pb_remaining := pb_remaining pb - of_nat (length bytes), pb_body := pb_body pb @ bytes\<rparr>"

definition pb_write :: "nat \<Rightarrow> packet_builder \<Rightarrow> stream_error + packet_builder" where
  "pb_write v pb =
     (case encodeQuicInteger (of_nat v) of Inl e \<Rightarrow> Inl Transport_error_internal | Inr bytes \<Rightarrow> Inr (pb_append bytes pb))"

definition pb_insert :: "u8 list \<Rightarrow> nat \<Rightarrow> packet_builder \<Rightarrow> packet_builder" where
  "pb_insert data limit pb = pb_append (take limit data) pb"

definition pb_appendFrame :: "write_stream_frame \<Rightarrow> packet_builder \<Rightarrow> packet_builder" where
  "pb_appendFrame frame pb = pb\<lparr>pb_frames := pb_frames pb @ [frame]\<rparr>"

definition quicIntegerSize :: "nat \<Rightarrow> stream_error + nat" where
  "quicIntegerSize v =
     (case getQuicIntegerSize (of_nat v) of Inl e \<Rightarrow> Inl Transport_error_internal | Inr n \<Rightarrow> Inr n)"

section \<open>Writing\<close>

text \<open>The size of the length field, chosen so that the length can still shrink by the field itself.\<close>

definition dataLenLenOf :: "nat \<Rightarrow> stream_error + nat" where
  "dataLenLenOf dataLen =
     (if dataLen \<le> unat kOneByteLimit - 1 then Inr 1
      else if dataLen \<le> unat kTwoByteLimit - 2 then Inr 2
      else if dataLen \<le> unat kFourByteLimit - 4 then Inr 4
      else if dataLen \<le> unat kEightByteLimit - 8 then Inr 8
      else Inl Local_error_internal)"

text \<open>
  The accounting of \<open>writeStreamFrameHeader\<close>: the length of the data, whether the FIN is set
  and the size of the length field, or nothing if the frame does not fit.
\<close>

definition streamFrameSizes ::
    "nat \<Rightarrow> nat \<Rightarrow> nat \<Rightarrow> nat \<Rightarrow> bool \<Rightarrow> bool option \<Rightarrow> stream_error + (nat \<times> bool \<times> nat) option" where
  "streamFrameSizes remaining headerSize writeBufferLen flowControlLen fin skipLenHint =
     (let dataLen0 = min writeBufferLen flowControlLen;
          shouldSkipLengthField =
            (case skipLenHint of Some b \<Rightarrow> b | None \<Rightarrow> dataLen0 > 0 \<and> dataLen0 \<ge> sub64 remaining headerSize);
          dataLen1 = min dataLen0 (sub64 remaining headerSize)
      in bind_result (if shouldSkipLengthField then Inr 0 else dataLenLenOf dataLen1) (\<lambda>dataLenLen.
         if dataLenLen > 0 \<and> dataLen1 \<noteq> 0 \<and> add64 headerSize dataLenLen \<ge> remaining then Inr None
         else
           let headerSize1 = add64 headerSize dataLenLen;
               dataLen = (if dataLenLen > 0 \<and> remaining < add64 dataLen1 headerSize1 then sub64 remaining headerSize1 else dataLen1);
               shouldSetFin = (fin \<and> dataLen = writeBufferLen)
           in if dataLen = 0 \<and> \<not> shouldSetFin then Inr None
              else if remaining < headerSize1 then Inr None
              else Inr (Some (dataLen, shouldSetFin, dataLenLen))))"

definition optWrite :: "bool \<Rightarrow> nat \<Rightarrow> packet_builder \<Rightarrow> stream_error + packet_builder" where
  "optWrite b v pb = (if b then pb_write v pb else Inr pb)"

definition writeStreamFrameHeader ::
    "nat \<Rightarrow> nat \<Rightarrow> nat \<Rightarrow> nat \<Rightarrow> bool \<Rightarrow> bool option \<Rightarrow> nat option \<Rightarrow> bool \<Rightarrow> packet_builder \<Rightarrow>
     stream_error + nat option \<times> packet_builder" where
  "writeStreamFrameHeader sid off writeBufferLen flowControlLen fin skipLenHint grp appendFrame pb =
     (if pb_remaining pb = 0 then Inr (None, pb)
      else if writeBufferLen = 0 \<and> \<not> fin then Inl Local_error_internal
      else
        bind_result (quicIntegerSize sid) (\<lambda>idSize.
        bind_result (case grp of None \<Rightarrow> Inr 0 | Some g \<Rightarrow> quicIntegerSize g) (\<lambda>groupSize.
        let headerSize = 1 + idSize + groupSize
        in if unat (pb_remaining pb) < headerSize then Inr (None, pb)
           else
             bind_result (if off \<noteq> 0 then quicIntegerSize off else Inr 0) (\<lambda>offSize.
             bind_result (streamFrameSizes (unat (pb_remaining pb)) (headerSize + offSize) writeBufferLen flowControlLen fin skipLenHint) (\<lambda>r.
             case r of
               None \<Rightarrow> Inr (None, pb)
             | Some (dataLen, shouldSetFin, dataLenLen) \<Rightarrow>
                 let field = streamType (grp \<noteq> None) (off \<noteq> 0) (dataLenLen > 0) shouldSetFin
                 in bind_result (pb_write sid (pb_append [field] pb)) (\<lambda>pb1.
                    bind_result (optWrite (grp \<noteq> None) (the grp) pb1) (\<lambda>pb2.
                    bind_result (optWrite (off \<noteq> 0) off pb2) (\<lambda>pb3.
                    bind_result (optWrite (dataLenLen > 0) dataLen pb3) (\<lambda>pb4.
                    let frame = \<lparr>wf_streamId = sid, wf_offset = off, wf_len = dataLen, wf_fin = hasFin field,
                                 wf_fromBufMeta = False, wf_groupId = grp\<rparr>
                    in Inr (Some dataLen, if appendFrame then pb_appendFrame frame pb4 else pb4))))))))))"

definition writeStreamFrameData :: "u8 list \<Rightarrow> nat \<Rightarrow> packet_builder \<Rightarrow> packet_builder" where
  "writeStreamFrameData data dataLen pb = (if dataLen > 0 then pb_insert data dataLen pb else pb)"

section \<open>Reading\<close>

record read_stream_frame =
  rf_streamId :: u64
  rf_offset :: u64
  rf_data :: "byte list"
  rf_fin :: bool
  rf_groupId :: "u64 option"

definition readInteger :: "byte list \<Rightarrow> codec_error + u64 \<times> byte list" where
  "readInteger cursor =
     (case decodeQuicInteger cursor 8 of None \<Rightarrow> Inl Frame_encoding_error | Some (v, _, rest) \<Rightarrow> Inr (v, rest))"

definition decodeStreamFrame :: "byte list \<Rightarrow> u8 \<Rightarrow> bool \<Rightarrow> codec_error + read_stream_frame \<times> byte list" where
  "decodeStreamFrame queue field isGroupFrame =
     bind_result (readInteger queue) (\<lambda>(sid, q1).
     bind_result (if isGroupFrame then bind_result (readInteger q1) (\<lambda>(g, q). Inr (Some g, q)) else Inr (None, q1)) (\<lambda>(grp, q2).
     bind_result (if hasOffset field then readInteger q2 else Inr (0, q2)) (\<lambda>(off, q3).
     if hasDataLength field
     then bind_result (readInteger q3) (\<lambda>(n, q4).
            if length q4 < unat n then Inl Frame_encoding_error
            else Inr (\<lparr>rf_streamId = sid, rf_offset = off, rf_data = take (unat n) q4, rf_fin = hasFin field, rf_groupId = grp\<rparr>,
                      drop (unat n) q4))
     else Inr (\<lparr>rf_streamId = sid, rf_offset = off, rf_data = q3, rf_fin = hasFin field, rf_groupId = grp\<rparr>, []))))"

text \<open>The dispatch of \<open>parseFrame\<close> on the frame type, for the types of STREAM frames.\<close>

definition parseStreamFrame :: "byte list \<Rightarrow> (codec_error + read_stream_frame \<times> byte list) option" where
  "parseStreamFrame queue =
     (case decodeQuicInteger queue 8 of
        None \<Rightarrow> Some (Inl Frame_encoding_error)
      | Some (frameType, _, rest) \<Rightarrow>
          if 0x08 \<le> frameType \<and> frameType \<le> 0x0f then Some (decodeStreamFrame rest (ucast frameType) False)
          else if 0x32 \<le> frameType \<and> frameType \<le> 0x39 then Some (decodeStreamFrame rest (ucast frameType) True)
          else None)"

section \<open>The accounting is sound\<close>

lemma sub64_under: "a < b \<Longrightarrow> b \<le> 2 ^ 33 \<Longrightarrow> 2 ^ 63 \<le> sub64 a b"
  by (simp add: sub64_def)

lemma dataLenLenOf_bounds:
  assumes "dataLenLenOf n = Inr l"
  shows "0 < l" "l \<le> 8" "m \<le> n \<Longrightarrow> \<exists>k. getQuicIntegerSize (of_nat m) = Inr k \<and> k \<le> l"
proof -
  have l: "l = 1 \<and> n \<le> 62 \<or> l = 2 \<and> n \<le> 16381 \<or> l = 4 \<and> n \<le> 1073741819 \<or> l = 8 \<and> n \<le> 4611686018427387895"
    using assms by (auto simp: dataLenLenOf_def quic_limits split: if_split_asm)
  then show "0 < l" "l \<le> 8" by auto
  assume "m \<le> n"
  then have "unat (of_nat m :: u64) = m" using l by (intro unat_of_nat_small) auto
  then show "\<exists>k. getQuicIntegerSize (of_nat m) = Inr k \<and> k \<le> l"
    using l \<open>m \<le> n\<close> by (auto simp: getQuicIntegerSize_def quic_limits word_le_nat_alt)
qed

lemma streamFrameSizes_bounds:
  assumes run: "streamFrameSizes rem h buf flow fin None = Inr (Some (n, f, l))"
    and small: "rem < 2 ^ 32" "h \<le> 2 ^ 32" "buf < 2 ^ 62"
  shows "h + l + n \<le> rem" "n \<le> min buf flow" "f \<longleftrightarrow> fin \<and> n = buf" "0 < n \<or> f" "l = 0 \<Longrightarrow> h + n = rem"
    "0 < l \<Longrightarrow> \<exists>k. getQuicIntegerSize (of_nat n) = Inr k \<and> k \<le> l" "rem \<le> min buf flow \<Longrightarrow> l = 0"
proof -
  define d0 where "d0 = min buf flow"
  define skip where "skip = (0 < d0 \<and> sub64 rem h \<le> d0)"
  define d1 where "d1 = min d0 (sub64 rem h)"
  have d0: "d0 \<le> buf" "d0 < 2 ^ 62" using small by (simp_all add: d0_def)
  let ?fin = "\<lambda>ll. if 0 < ll \<and> d1 \<noteq> 0 \<and> rem \<le> add64 h ll then Inr None
    else let dataLen = if 0 < ll \<and> rem < add64 d1 (add64 h ll) then sub64 rem (add64 h ll) else d1
      in if dataLen = 0 \<and> \<not> (fin \<and> dataLen = buf) then Inr None else if rem < add64 h ll then Inr None
         else Inr (Some (dataLen, fin \<and> dataLen = buf, ll)) :: stream_error + (nat \<times> bool \<times> nat) option"
  have eq: "streamFrameSizes rem h buf flow fin None = bind_result (if skip then Inr 0 else dataLenLenOf d1) ?fin"
    unfolding streamFrameSizes_def Let_def option.case d0_def skip_def d1_def by (rule refl)
  obtain ll where ll: "(if skip then Inr 0 else dataLenLenOf d1) = Inr ll" and res: "?fin ll = Inr (Some (n, f, l))"
    using run unfolding eq bind_result_Inr by blast
  have lb: "ll = 0 \<and> skip \<or> 0 < ll \<and> ll \<le> 8 \<and> \<not> skip \<and> dataLenLenOf d1 = Inr ll"
    using ll dataLenLenOf_bounds by (auto split: if_split_asm)
  have hl: "add64 h ll = h + ll" using lb small by (intro add64_eq) auto
  have d1: "d1 \<le> d0" "add64 d1 (h + ll) = d1 + (h + ll)"
    using lb small d0 by (auto simp: d1_def intro!: add64_eq)
  define nn where "nn = (if 0 < ll \<and> rem < d1 + (h + ll) then sub64 rem (h + ll) else d1)"
  have out: "l = ll" "n = nn" "f = (fin \<and> nn = buf)" "0 < nn \<or> f" "h + ll \<le> rem"
    using res unfolding hl d1(2) nn_def Let_def by (auto split: if_split_asm)
  have h: "sub64 rem h = rem - h" using out(5) small by (intro sub64_eq) auto
  have hll: "sub64 rem (h + ll) = rem - (h + ll)" using out(5) small by (intro sub64_eq) auto
  have small_n: "nn \<le> d1" unfolding nn_def hll using out(5) by auto
  show "h + l + n \<le> rem"
    using out lb h hll by (auto simp: nn_def skip_def d1_def min_def split: if_split_asm)
  show "n \<le> min buf flow" using out(2) small_n d1(1) d0_def by simp
  show "f \<longleftrightarrow> fin \<and> n = buf" "0 < n \<or> f" using out by auto
  show "h + n = rem" if "l = 0" using that lb out h by (auto simp: nn_def d1_def skip_def min_def)
  show "\<exists>k. getQuicIntegerSize (of_nat n) = Inr k \<and> k \<le> l" if "0 < l"
    using that lb out small_n dataLenLenOf_bounds(3) by auto
  show "l = 0" if "rem \<le> min buf flow"
    using that lb out h hll by (cases "d0 = 0") (auto simp: skip_def d0_def)
qed

section \<open>What is written\<close>

lemma pb_append_append: "pb_append bs (pb_append as pb) = pb_append (as @ bs) pb"
  by (simp add: pb_append_def algebra_simps)

lemma pb_append_simps [simp]:
  "pb_append [] pb = pb" "pb_frames (pb_append bs pb) = pb_frames pb" "pb_body (pb_append bs pb) = pb_body pb @ bs"
  by (simp_all add: pb_append_def)

lemma pb_append_remaining:
  assumes "length bs \<le> unat (pb_remaining pb)"
  shows "unat (pb_remaining (pb_append bs pb)) = unat (pb_remaining pb) - length bs"
proof -
  have "length bs < 2 ^ 32" using assms unat_bound [of "pb_remaining pb"] by simp
  then have "unat (of_nat (length bs) :: u32) = length bs" by (intro unat_of_nat_small) simp
  then show ?thesis using assms by (simp add: pb_append_def unat_sub_no_underflow word_le_nat_alt)
qed

definition intBytes :: "nat \<Rightarrow> byte list" where
  "intBytes v = (case encodeQuicInteger (of_nat v) of Inl e \<Rightarrow> [] | Inr bytes \<Rightarrow> bytes)"

lemma pb_write_ok: "pb_write v pb = Inr pb' \<Longrightarrow> encodeQuicInteger (of_nat v) = Inr (intBytes v) \<and> pb' = pb_append (intBytes v) pb"
  by (auto simp: pb_write_def intBytes_def split: sum.split_asm)

lemma quicIntegerSize_ok: "quicIntegerSize v = Inr n \<Longrightarrow> encodeQuicInteger (of_nat v) = Inr (intBytes v) \<and> n = length (intBytes v)"
  using encodeQuicInteger_decodes(2) [of "of_nat v"] encodeQuicInteger_fails [of "of_nat v"]
  by (cases "encodeQuicInteger (of_nat v :: u64)") (auto simp: quicIntegerSize_def intBytes_def)

text \<open>The header: the type, the stream, the group, the offset unless it is 0, and the length if its field has a size.\<close>

definition headerBytes :: "nat \<Rightarrow> nat option \<Rightarrow> nat \<Rightarrow> nat \<Rightarrow> bool \<Rightarrow> nat \<Rightarrow> byte list" where
  "headerBytes sid grp off n fin l =
     streamType (grp \<noteq> None) (off \<noteq> 0) (l > 0) fin # intBytes sid @ (case grp of None \<Rightarrow> [] | Some g \<Rightarrow> intBytes g) @
     (if off \<noteq> 0 then intBytes off else []) @ (if l > 0 then intBytes n else [])"

definition encodable :: "nat \<Rightarrow> bool" where
  "encodable v \<longleftrightarrow> encodeQuicInteger (of_nat v) = Inr (intBytes v)"

lemma quicIntegerSize_bound: "quicIntegerSize v = Inr n \<Longrightarrow> n \<le> 8"
  by (auto simp: quicIntegerSize_def getQuicIntegerSize_def split: if_split_asm)

lemma optWrite_ok:
  "optWrite b v pb = Inr pb' \<Longrightarrow> (b \<longrightarrow> encodable v) \<and> pb' = pb_append (if b then intBytes v else []) pb"
  using pb_write_ok [of v pb pb'] by (auto simp: optWrite_def encodable_def split: if_split_asm)

lemma writeStreamFrameHeader_ok:
  assumes run: "writeStreamFrameHeader sid off buf flow fin None grp app pb = Inr (Some n, pb')" and "buf < 2 ^ 62"
  obtains f l where "encodable sid" "off \<noteq> 0 \<Longrightarrow> encodable off" "\<And>g. grp = Some g \<Longrightarrow> encodable g" "0 < l \<Longrightarrow> encodable n"
    "length (headerBytes sid grp off n f l) + n \<le> unat (pb_remaining pb)"
    "l = 0 \<Longrightarrow> length (headerBytes sid grp off n f l) + n = unat (pb_remaining pb)"
    "n \<le> min buf flow" "f \<longleftrightarrow> fin \<and> n = buf" "0 < n \<or> f" "unat (pb_remaining pb) \<le> min buf flow \<Longrightarrow> l = 0"
    "pb' = (if app then pb_appendFrame \<lparr>wf_streamId = sid, wf_offset = off, wf_len = n, wf_fin = hasFin (streamType (grp \<noteq> None) (off \<noteq> 0) (l > 0) f),
      wf_fromBufMeta = False, wf_groupId = grp\<rparr> else (\<lambda>pb. pb)) (pb_append (headerBytes sid grp off n f l) pb)"
proof -
  obtain idSize grpSize offSize f l pb1 pb2 pb3 pb4 where
    sizes: "quicIntegerSize sid = Inr idSize" "(case grp of None \<Rightarrow> Inr 0 | Some g \<Rightarrow> quicIntegerSize g) = Inr grpSize"
      "(if off \<noteq> 0 then quicIntegerSize off else Inr 0) = Inr offSize"
    and acc: "streamFrameSizes (unat (pb_remaining pb)) (1 + idSize + grpSize + offSize) buf flow fin None = Inr (Some (n, f, l))"
    and wr: "pb_write sid (pb_append [streamType (grp \<noteq> None) (off \<noteq> 0) (l > 0) f] pb) = Inr pb1"
      "optWrite (grp \<noteq> None) (the grp) pb1 = Inr pb2" "optWrite (off \<noteq> 0) off pb2 = Inr pb3" "optWrite (l > 0) n pb3 = Inr pb4"
    and pb': "pb' = (if app then pb_appendFrame \<lparr>wf_streamId = sid, wf_offset = off, wf_len = n,
      wf_fin = hasFin (streamType (grp \<noteq> None) (off \<noteq> 0) (l > 0) f), wf_fromBufMeta = False, wf_groupId = grp\<rparr> else (\<lambda>pb. pb)) pb4"
    using run unfolding writeStreamFrameHeader_def Let_def
    by (auto simp: result_simps split: if_split_asm option.split_asm)
  have id: "encodable sid" "idSize = length (intBytes sid)" "idSize \<le> 8"
    using quicIntegerSize_ok [OF sizes(1)] quicIntegerSize_bound [OF sizes(1)] by (simp_all add: encodable_def)
  have g: "\<And>g. grp = Some g \<Longrightarrow> encodable g" "grpSize = length (case grp of None \<Rightarrow> [] | Some g \<Rightarrow> intBytes g)" "grpSize \<le> 8"
    using sizes(2) quicIntegerSize_ok quicIntegerSize_bound by (auto simp: encodable_def split: option.split_asm)
  have o: "off \<noteq> 0 \<Longrightarrow> encodable off" "offSize = length (if off \<noteq> 0 then intBytes off else [])" "offSize \<le> 8"
    using sizes(3) quicIntegerSize_ok quicIntegerSize_bound by (auto simp: encodable_def split: if_split_asm)
  have "unat (pb_remaining pb) < 2 ^ 32" using unat_bound [of "pb_remaining pb"] by simp
  moreover have "1 + idSize + grpSize + offSize \<le> 2 ^ 32" using id(3) g(3) o(3) by simp
  ultimately have b: "1 + idSize + grpSize + offSize + l + n \<le> unat (pb_remaining pb)" "n \<le> min buf flow" "f \<longleftrightarrow> fin \<and> n = buf"
      "0 < n \<or> f" "l = 0 \<Longrightarrow> 1 + idSize + grpSize + offSize + n = unat (pb_remaining pb)"
      "0 < l \<Longrightarrow> \<exists>k. getQuicIntegerSize (of_nat n) = Inr k \<and> k \<le> l" "unat (pb_remaining pb) \<le> min buf flow \<Longrightarrow> l = 0"
    using streamFrameSizes_bounds [OF acc] assms(2) by blast+
  have w: "pb4 = pb_append (headerBytes sid grp off n f l) pb" "0 < l \<Longrightarrow> encodable n"
    using pb_write_ok [OF wr(1)] optWrite_ok [OF wr(2)] optWrite_ok [OF wr(3)] optWrite_ok [OF wr(4)]
    by (auto simp: pb_append_append headerBytes_def split: option.split)
  have len: "0 < l \<Longrightarrow> length (intBytes n) \<le> l"
    using b(6) w(2) encodeQuicInteger_decodes(2) [of "of_nat n" "intBytes n"] by (auto simp: encodable_def)
  show thesis
  proof (rule that [OF id(1) o(1) g(1) w(2)])
    show "length (headerBytes sid grp off n f l) + n \<le> unat (pb_remaining pb)"
      using b(1) len id(2) g(2) o(2) by (auto simp: headerBytes_def)
    show "length (headerBytes sid grp off n f l) + n = unat (pb_remaining pb)" if "l = 0"
      using b(5) that id(2) g(2) o(2) by (simp add: headerBytes_def)
    show "pb' = (if app then pb_appendFrame \<lparr>wf_streamId = sid, wf_offset = off, wf_len = n,
        wf_fin = hasFin (streamType (grp \<noteq> None) (off \<noteq> 0) (l > 0) f), wf_fromBufMeta = False, wf_groupId = grp\<rparr> else (\<lambda>pb. pb))
        (pb_append (headerBytes sid grp off n f l) pb)"
      using pb' w(1) by simp
  qed (use b in auto)
qed

section \<open>What is read back\<close>

lemmas frame_bits = streamType_def frameType_STREAM_def frameType_GROUP_STREAM_def kFinBit_def kDataLengthBit_def kOffsetBit_def
  hasFin_def hasDataLength_def hasOffset_def

lemma streamType_flags:
  "hasFin (streamType g ofs l f) = f" "hasOffset (streamType g ofs l f) = ofs" "hasDataLength (streamType g ofs l f) = (g \<or> l)"
  by (cases g; cases ofs; cases l; cases f; simp add: frame_bits)+

lemma streamType_decodes:
  "decodeQuicInteger (streamType g ofs l f # rest) 8 = Some (ucast (streamType g ofs l f), 1, rest)"
  "ucast (ucast (streamType g ofs l f) :: u64) = streamType g ofs l f"
  by (cases g; cases ofs; cases l; cases f; simp add: frame_bits decodeQuicInteger_def Let_def)+

lemma streamType_range:
  "0x08 \<le> (ucast (streamType False ofs l f) :: u64) \<and> (ucast (streamType False ofs l f) :: u64) \<le> 0x0f"
  "0x32 \<le> (ucast (streamType True ofs l f) :: u64) \<and> (ucast (streamType True ofs l f) :: u64) \<le> 0x39"
  "\<not> (ucast (streamType True ofs l f) :: u64) \<le> 0x0f"
  by (cases ofs; cases l; cases f; simp add: frame_bits)+

lemma parse_type:
  "parseStreamFrame (streamType g ofs l f # rest) = Some (decodeStreamFrame rest (streamType g ofs l f) g)"
  by (cases g) (simp_all add: parseStreamFrame_def streamType_decodes streamType_range)

lemma readInteger_intBytes: "encodable v \<Longrightarrow> readInteger (intBytes v @ rest) = Inr (of_nat v, rest)"
  using encodeQuicInteger_decodes(3) [of "of_nat v" "intBytes v" rest] by (simp add: readInteger_def encodable_def)

lemma readInteger_shorter:
  assumes "readInteger q = Inr (v, q')"
  shows "length q' < length q"
proof -
  obtain n where "decodeQuicInteger q 8 = Some (v, n, q')" using assms by (auto simp: readInteger_def split: option.split_asm)
  then show ?thesis by (cases rule: decodeQuicInteger_cases) auto
qed

text \<open>Reading a header back up to the length field.\<close>

lemma decode_header:
  assumes "encodable sid" "off \<noteq> 0 \<Longrightarrow> encodable off" "\<And>g. grp = Some g \<Longrightarrow> encodable g"
  shows "parseStreamFrame (headerBytes sid grp off n f l @ rest) =
    Some (let q = (if l > 0 then intBytes n else []) @ rest;
              fr = (\<lambda>data. \<lparr>rf_streamId = of_nat sid, rf_offset = of_nat off, rf_data = data, rf_fin = f,
                rf_groupId = map_option of_nat grp\<rparr>)
      in if grp \<noteq> None \<or> l > 0
         then bind_result (readInteger q) (\<lambda>(m, q'). if length q' < unat m then Inl Frame_encoding_error
                else Inr (fr (take (unat m) q'), drop (unat m) q'))
         else Inr (fr q, []))"
proof -
  have grp: "(\<And>g. grp = Some g \<Longrightarrow> readInteger (intBytes g @ r) = Inr (of_nat g, r))" for r
    using assms(3) by (simp add: readInteger_intBytes)
  show ?thesis
    using assms(1,2) grp
    by (cases grp; cases "off = 0")
      (simp_all add: headerBytes_def parse_type decodeStreamFrame_def streamType_flags readInteger_intBytes Let_def cong: if_cong)
qed

section \<open>Properties\<close>

lemma writeStreamFrameData_append: "n \<le> length data \<Longrightarrow> writeStreamFrameData data n pb = pb_append (take n data) pb"
  by (simp add: writeStreamFrameData_def pb_insert_def)

lemma pb_appendFrame_simps [simp]:
  "pb_append bs (pb_appendFrame fr pb) = pb_appendFrame fr (pb_append bs pb)" "pb_body (pb_appendFrame fr pb) = pb_body pb"
  "pb_remaining (pb_appendFrame fr pb) = pb_remaining pb" "pb_frames (pb_appendFrame fr pb) = pb_frames pb @ [fr]"
  by (simp_all add: pb_appendFrame_def pb_append_def)

text \<open>
  C6. STREAM frames round-trip: whatever the space left in the packet, when
  \<open>writeStreamFrameHeader\<close> writes a frame, the header and the data fit in that space, the data are at
  most what is buffered and what flow control allows, and parsing the bytes gives back the stream, the
  offset, these data, and the FIN exactly if all the buffered data were taken. If space is left
  in the packet, the frame is delimited: whatever follows it is left for the next frame.
\<close>

theorem stream_frame_round_trip:
  assumes "writeStreamFrameHeader sid off (length data) flow fin None None True pb = Inr (Some n, pb1)"
    and "pb2 = writeStreamFrameData data n pb1" "length data < 2 ^ 62"
    and "fr = \<lparr>rf_streamId = of_nat sid, rf_offset = of_nat off, rf_data = take n data, rf_fin = (fin \<and> n = length data), rf_groupId = None\<rparr>"
  shows "\<exists>wire. pb_body pb2 = pb_body pb @ wire \<and> length wire \<le> unat (pb_remaining pb) \<and>
    unat (pb_remaining pb2) = unat (pb_remaining pb) - length wire \<and> n \<le> min (length data) flow \<and>
    parseStreamFrame wire = Some (Inr (fr, [])) \<and>
    (pb_remaining pb2 \<noteq> 0 \<longrightarrow> (\<forall>rest. parseStreamFrame (wire @ rest) = Some (Inr (fr, rest)))) \<and>
    pb_frames pb2 = pb_frames pb @ [\<lparr>wf_streamId = sid, wf_offset = off, wf_len = n, wf_fin = (fin \<and> n = length data),
      wf_fromBufMeta = False, wf_groupId = None\<rparr>]"
proof (rule writeStreamFrameHeader_ok [OF assms(1,3)])
  fix f l
  let ?h = "headerBytes sid None off n f l"
  assume enc: "encodable sid" "off \<noteq> 0 \<Longrightarrow> encodable off" "0 < l \<Longrightarrow> encodable n"
    and fit: "length ?h + n \<le> unat (pb_remaining pb)" "l = 0 \<Longrightarrow> length ?h + n = unat (pb_remaining pb)"
    and n: "n \<le> min (length data) flow" "f \<longleftrightarrow> fin \<and> n = length data" "0 < n \<or> f"
    and pb1: "pb1 = (if True then pb_appendFrame \<lparr>wf_streamId = sid, wf_offset = off, wf_len = n,
        wf_fin = hasFin (streamType (None \<noteq> (None :: nat option)) (off \<noteq> 0) (l > 0) f), wf_fromBufMeta = False, wf_groupId = None\<rparr> else (\<lambda>pb. pb))
        (pb_append ?h pb)"
  define wire where "wire = ?h @ take n data"
  have len: "length wire = length ?h + n" using n(1) by (simp add: wire_def)
  have "n < 2 ^ 64" using n(1) assms(3) by simp
  then have un: "unat (of_nat n :: u64) = n" by (intro unat_of_nat_small) simp
  have parse: "parseStreamFrame (wire @ rest) = Some (Inr (fr, rest))" if "l > 0 \<or> rest = []" for rest
    using that enc n un decode_header [OF enc(1,2), of None n f l "take n data @ rest"]
    by (cases "l > 0") (simp_all add: wire_def assms(4) readInteger_intBytes Let_def)
  have "pb2 = pb_appendFrame \<lparr>wf_streamId = sid, wf_offset = off, wf_len = n, wf_fin = f, wf_fromBufMeta = False, wf_groupId = None\<rparr> (pb_append wire pb)"
    using n(1) by (simp add: assms(2) pb1 writeStreamFrameData_append pb_append_append wire_def streamType_flags)
  moreover have "unat (pb_remaining (pb_append wire pb)) = unat (pb_remaining pb) - length wire"
    using pb_append_remaining fit(1) len by simp
  moreover from this have "l > 0" if "pb_remaining (pb_append wire pb) \<noteq> 0"
    using that fit(2) len by (cases "l = 0") (simp_all add: unat_eq_0 [symmetric])
  ultimately show ?thesis using parse [of "[]"] parse fit(1) len n by (intro exI [of _ wire]) auto
qed

text \<open>
  C28. A frame of a stream group that fills the packet is misread: the type \<open>GROUP_STREAM\<close>
  (0x32) has the length bit set by itself, so a frame written without a length field
  is parsed as if it had one. Whatever the data are, the parser never returns all of
  them; their first bytes are taken for a length.
\<close>

theorem group_frame_without_length_misread:
  assumes "writeStreamFrameHeader sid off (length data) flow fin None (Some g) True pb = Inr (Some n, pb1)"
    and "pb2 = writeStreamFrameData data n pb1" "length data < 2 ^ 62" "unat (pb_remaining pb) \<le> min (length data) flow"
  shows "\<exists>wire r. pb_body pb2 = pb_body pb @ wire \<and> parseStreamFrame wire = Some r \<and>
    returns (\<lambda>(fr, rest). length (rf_data fr) < n) r"
proof (rule writeStreamFrameHeader_ok [OF assms(1,3)])
  fix f l
  let ?h = "headerBytes sid (Some g) off n f l"
  assume enc: "encodable sid" "off \<noteq> 0 \<Longrightarrow> encodable off" "\<And>ga. Some g = Some ga \<Longrightarrow> encodable ga"
    and n: "n \<le> min (length data) flow" and l: "unat (pb_remaining pb) \<le> min (length data) flow \<Longrightarrow> l = 0"
    and pb1: "pb1 = (if True then pb_appendFrame \<lparr>wf_streamId = sid, wf_offset = off, wf_len = n,
        wf_fin = hasFin (streamType (Some g \<noteq> None) (off \<noteq> 0) (l > 0) f), wf_fromBufMeta = False, wf_groupId = Some g\<rparr> else (\<lambda>pb. pb))
        (pb_append ?h pb)"
  define wire where "wire = ?h @ take n data"
  have body: "pb_body pb2 = pb_body pb @ wire"
    using n by (simp add: assms(2) pb1 writeStreamFrameData_append wire_def)
  let ?r = "bind_result (readInteger (take n data)) (\<lambda>(m, q'). if length q' < unat m then Inl Frame_encoding_error
    else Inr (\<lparr>rf_streamId = of_nat sid, rf_offset = of_nat off, rf_data = take (unat m) q', rf_fin = f, rf_groupId = Some (of_nat g)\<rparr>,
      drop (unat m) q'))"
  have "parseStreamFrame wire = Some ?r"
    using decode_header [of sid off "Some g" n f l "take n data"] enc l [OF assms(4)] by (simp add: wire_def Let_def)
  moreover have "returns (\<lambda>(fr, rest). length (rf_data fr) < n) ?r"
    using n by (auto simp: returns_def result_simps split: if_split_asm dest!: readInteger_shorter)
  ultimately show ?thesis using body by blast
qed

section \<open>Witnesses\<close>

text \<open>Three bytes with the FIN in a packet with 20 bytes left; a group stream of 30 bytes in the same packet.\<close>

definition samplePacket :: packet_builder where
  "samplePacket = \<lparr>pb_remaining = 20, pb_body = [], pb_frames = []\<rparr>"

lemmas header_eval = writeStreamFrameHeader_def samplePacket_def quicIntegerSize_def getQuicIntegerSize_def streamFrameSizes_def
  dataLenLenOf_def quic_limits sub64_def add64_def pb_write_def optWrite_def encodeQuicInteger_def encodeOneByte_def
  network_bytes_def Let_def

theorem stream_frame_round_trip_witness:
  "\<exists>pb1. writeStreamFrameHeader 4 0 (length [7, 8, 9 :: u8]) 100 True None None True samplePacket = Inr (Some 3, pb1) \<and>
     parseStreamFrame (pb_body (writeStreamFrameData [7, 8, 9] 3 pb1)) =
       Some (Inr (\<lparr>rf_streamId = 4, rf_offset = 0, rf_data = [7, 8, 9], rf_fin = True, rf_groupId = None\<rparr>, []))"
proof -
  have "\<exists>pb1. writeStreamFrameHeader 4 0 (length [7, 8, 9 :: u8]) 100 True None None True samplePacket = Inr (Some 3, pb1)"
    by (simp add: header_eval)
  then obtain pb1 where run: "writeStreamFrameHeader 4 0 (length [7, 8, 9 :: u8]) 100 True None None True samplePacket = Inr (Some 3, pb1)" ..
  then show ?thesis
    using stream_frame_round_trip [OF run refl _ refl] by (intro exI [of _ pb1]) (auto simp: samplePacket_def)
qed

theorem group_frame_without_length_misread_witness:
  "\<exists>n pb1 r. writeStreamFrameHeader 4 0 30 100 False None (Some 8) True samplePacket = Inr (Some n, pb1) \<and>
     parseStreamFrame (pb_body (writeStreamFrameData (replicate 30 7) n pb1)) = Some r \<and> returns (\<lambda>(fr, rest). length (rf_data fr) < n) r"
proof -
  have "\<exists>n pb1. writeStreamFrameHeader 4 0 (length (replicate 30 (7 :: u8))) 100 False None (Some 8) True samplePacket = Inr (Some n, pb1)"
    by (simp add: header_eval)
  then obtain n pb1 where
    run: "writeStreamFrameHeader 4 0 (length (replicate 30 (7 :: u8))) 100 False None (Some 8) True samplePacket = Inr (Some n, pb1)" by blast
  then show ?thesis
    using group_frame_without_length_misread [OF run refl] run
    by (intro exI [of _ n] exI [of _ pb1]) (auto simp: samplePacket_def)
qed

end
