(* ===== verification/Stream_Transmit.thy ===== *)
theory Stream_Transmit
  imports Stream_Functions Stream_Frames
begin

text \<open>
  Sending stream data: the scheduling of one stream into a packet
  (\<open>api/QuicPacketScheduler.cpp\<close>), the bookkeeping after the packet was written
  (\<open>api/QuicTransportFunctions.cpp\<close>), and what happens to a frame whose packet is lost
  (\<open>loss/QuicLossFunctions.cpp\<close>) or turns out to have been lost spuriously
  (\<open>state/AckHandlers.cpp\<close>). Iterators into the loss buffer are the split of the list at them.
\<close>

section \<open>Scheduling one stream\<close>

text \<open>The loop of \<open>writeStreamLossBuffers\<close> over the loss buffer; the flag is \<open>wroteStreamFrame\<close>.\<close>

fun write_loss_loop :: "quic_stream \<Rightarrow> write_stream_buffer list \<Rightarrow> bool \<Rightarrow> packet_builder \<Rightarrow> stream_error + bool \<times> packet_builder" where
  "write_loss_loop s [] wrote pb = Inr (wrote, pb)"
| "write_loss_loop s (b # bs) wrote pb =
     bind_result (writeStreamFrameHeader (stream_id s) (wb_offset b) (length (wb_data b)) (length (wb_data b)) (wb_eof b) None (groupId s) True pb)
       (\<lambda>(r, pb1). case r of
          None \<Rightarrow> Inr (wrote, pb1)
        | Some dataLen \<Rightarrow> write_loss_loop s bs True (writeStreamFrameData (wb_data b) dataLen pb1))"

definition writeStreamLossBuffers :: "quic_stream \<Rightarrow> packet_builder \<Rightarrow> stream_error + bool \<times> packet_builder" where
  "writeStreamLossBuffers s pb = write_loss_loop s (lossBuffer s) False pb"

definition writeStreamFrame :: "quic_stream \<Rightarrow> nat \<Rightarrow> packet_builder \<Rightarrow> stream_error + bool \<times> nat \<times> packet_builder" where
  "writeStreamFrame s connWritableBytes pb =
     (if pb_remaining pb = 0 then Inr (False, connWritableBytes, pb)
      else bind_result (hasWritableData s) (\<lambda>w.
        if \<not> w then Inl Stream_check_failure
        else
          let flowControlLen = min (getSendStreamFlowControlBytesWire s) connWritableBytes;
              bufferLen = length (pendingWrites s);
              canWriteFin = (finalWriteOffset s \<noteq> None \<and> bufferLen \<le> flowControlLen \<and> bm_offset (writeBufMeta s) = 0)
          in bind_result (writeStreamFrameHeader (stream_id s) (currentWriteOffset s) bufferLen flowControlLen canWriteFin None (groupId s) True pb)
               (\<lambda>(r, pb1). case r of
                  None \<Rightarrow> Inr (False, connWritableBytes, pb1)
                | Some dataLen \<Rightarrow>
                    Inr (True, sub64 connWritableBytes dataLen, writeStreamFrameData (pendingWrites s) dataLen pb1))))"

definition writeSingleStream :: "quic_stream \<Rightarrow> nat \<Rightarrow> packet_builder \<Rightarrow> stream_error + bool \<times> nat \<times> packet_builder" where
  "writeSingleStream s connWritableBytes pb =
     bind_result (if lossBuffer s \<noteq> [] then writeStreamLossBuffers s pb else Inr (True, pb)) (\<lambda>(ok, pb1).
     if \<not> ok then Inr (False, connWritableBytes, pb1)
     else
       bind_result (hasWritableData s) (\<lambda>w.
       if w \<and> connWritableBytes > 0
       then bind_result (writeStreamFrame s connWritableBytes pb1) (\<lambda>(ok2, conn2, pb2). Inr (ok2, conn2, pb2))
       else Inr (True, connWritableBytes, pb1)))"

section \<open>After the packet was written\<close>

definition handleNewStreamDataWritten :: "nat \<Rightarrow> bool \<Rightarrow> quic_stream \<Rightarrow> stream_error + quic_stream" where
  "handleNewStreamDataWritten frameLen frameFin s =
     (let originalOffset = currentWriteOffset s;
          bufWritten = take frameLen (pendingWrites s);
          s1 = s\<lparr>currentWriteOffset := add64 (add64 originalOffset frameLen) (if frameFin then 1 else 0),
                 pendingWrites := drop frameLen (pendingWrites s)\<rparr>
      in if originalOffset \<in> Mapping.keys (retransmissionBuffer s) then Inl Stream_check_failure
         else Inr (s1\<lparr>retransmissionBuffer := Mapping.update originalOffset
                \<lparr>wb_data = bufWritten, wb_offset = originalOffset, wb_eof = frameFin\<rparr> (retransmissionBuffer s)\<rparr>))"

definition handleNewStreamBufMetaWritten :: "nat \<Rightarrow> bool \<Rightarrow> quic_stream \<Rightarrow> stream_error + quic_stream" where
  "handleNewStreamBufMetaWritten frameLen frameFin s =
     (if \<not> bm_offset (writeBufMeta s) > 0 then Inl Stream_check_failure
      else
        let originalOffset = bm_offset (writeBufMeta s)
        in bind_result (bm_split frameLen (writeBufMeta s)) (\<lambda>(front, rest).
           if bm_offset front \<noteq> originalOffset then Inl Stream_check_failure
           else
             bind_result
               (if frameFin
                then if bm_length rest \<noteq> 0 then Inl Stream_check_failure
                     else let rest1 = rest\<lparr>bm_offset := add64 (bm_offset rest) 1\<rparr>
                          in if \<not> bm_offset rest1 > the (finalWriteOffset s) then Inl Stream_check_failure else Inr rest1
                else Inr rest)
               (\<lambda>rest1.
                  if originalOffset \<in> Mapping.keys (retransmissionBufMetas s) then Inl Stream_check_failure
                  else Inr (s\<lparr>writeBufMeta := rest1,
                              retransmissionBufMetas := Mapping.update originalOffset front (retransmissionBufMetas s)\<rparr>))))"

text \<open>The loss buffer is \<open>before @ [x] @ after\<close> with the iterator at \<open>x\<close>.\<close>

definition handleRetransmissionWritten ::
    "nat \<Rightarrow> nat \<Rightarrow> bool \<Rightarrow> write_stream_buffer list \<Rightarrow> write_stream_buffer \<Rightarrow> write_stream_buffer list \<Rightarrow> quic_stream \<Rightarrow>
     stream_error + quic_stream" where
  "handleRetransmissionWritten frameOffset frameLen frameFin before x after s =
     (let bufferLen = length (wb_data x);
          whole = (frameLen = bufferLen \<and> frameFin = wb_eof x);
          bufWritten = (if whole then wb_data x else take frameLen (wb_data x));
          lossBuffer1 = (if whole then before @ after
                         else before @ [x\<lparr>wb_offset := wb_offset x + frameLen, wb_data := drop frameLen (wb_data x)\<rparr>] @ after)
      in if frameOffset \<in> Mapping.keys (retransmissionBuffer s) then Inl Stream_check_failure
         else Inr (s\<lparr>lossBuffer := lossBuffer1,
                     retransmissionBuffer := Mapping.update frameOffset
                       \<lparr>wb_data = bufWritten, wb_offset = frameOffset, wb_eof = frameFin\<rparr> (retransmissionBuffer s)\<rparr>))"

definition handleRetransmissionBufMetaWritten ::
    "nat \<Rightarrow> nat \<Rightarrow> bool \<Rightarrow> write_buffer_meta list \<Rightarrow> write_buffer_meta \<Rightarrow> write_buffer_meta list \<Rightarrow> quic_stream \<Rightarrow>
     stream_error + quic_stream" where
  "handleRetransmissionBufMetaWritten frameOffset frameLen frameFin before x after s =
     bind_result
       (if frameLen = bm_length x \<and> frameFin = bm_eof x then Inr (before @ after)
        else if \<not> bm_length x > frameLen then Inl Stream_check_failure
        else Inr (before @ [x\<lparr>bm_length := bm_length x - frameLen, bm_offset := bm_offset x + frameLen\<rparr>] @ after))
       (\<lambda>lossBufMetas1.
          if frameOffset \<in> Mapping.keys (retransmissionBufMetas s) then Inl Stream_check_failure
          else Inr (s\<lparr>lossBufMetas := lossBufMetas1,
                      retransmissionBufMetas := Mapping.update frameOffset
                        \<lparr>bm_length = frameLen, bm_offset = frameOffset, bm_eof = frameFin\<rparr> (retransmissionBufMetas s)\<rparr>))"

definition handleStreamWritten :: "nat \<Rightarrow> nat \<Rightarrow> bool \<Rightarrow> quic_stream \<Rightarrow> quic_conn \<Rightarrow> stream_error + bool \<times> quic_stream \<times> quic_conn" where
  "handleStreamWritten frameOffset frameLen frameFin s c =
     (if frameOffset = currentWriteOffset s
      then bind_result (handleNewStreamDataWritten frameLen frameFin s) (\<lambda>s1.
             Inr (True, s1\<lparr>numPacketsTxWithNewData := numPacketsTxWithNewData s1 + 1\<rparr>, c))
      else if frameOffset > currentWriteOffset s then Inl Transport_error_internal
      else
        case dropWhile (\<lambda>b. wb_offset b < frameOffset) (lossBuffer s) of
          x # after \<Rightarrow>
            if wb_offset x = frameOffset
            then bind_result (handleRetransmissionWritten frameOffset frameLen frameFin
                     (takeWhile (\<lambda>b. wb_offset b < frameOffset) (lossBuffer s)) x after s) (\<lambda>s1.
                   Inr (False, s1, c\<lparr>qc_totalBytesRetransmitted := qc_totalBytesRetransmitted c + frameLen\<rparr>))
            else Inr (False, s, c\<lparr>qc_totalStreamBytesCloned := qc_totalStreamBytesCloned c + frameLen\<rparr>)
        | [] \<Rightarrow> Inr (False, s, c\<lparr>qc_totalStreamBytesCloned := qc_totalStreamBytesCloned c + frameLen\<rparr>))"

definition handleStreamBufMetaWritten :: "nat \<Rightarrow> nat \<Rightarrow> bool \<Rightarrow> quic_stream \<Rightarrow> quic_conn \<Rightarrow> stream_error + bool \<times> quic_stream \<times> quic_conn" where
  "handleStreamBufMetaWritten frameOffset frameLen frameFin s c =
     (if bm_offset (writeBufMeta s) > 0 \<and> frameOffset = bm_offset (writeBufMeta s)
      then bind_result (handleNewStreamBufMetaWritten frameLen frameFin s) (\<lambda>s1.
             Inr (True, s1\<lparr>numPacketsTxWithNewData := numPacketsTxWithNewData s1 + 1\<rparr>, c))
      else
        case dropWhile (\<lambda>b. bm_offset b < frameOffset) (lossBufMetas s) of
          [] \<Rightarrow> Inl Stream_check_failure
        | x # after \<Rightarrow>
            if bm_offset x \<noteq> frameOffset then Inl Stream_check_failure
            else bind_result (handleRetransmissionBufMetaWritten frameOffset frameLen frameFin
                     (takeWhile (\<lambda>b. bm_offset b < frameOffset) (lossBufMetas s)) x after s) (\<lambda>s1.
                   Inr (False, s1, c\<lparr>qc_totalBytesRetransmitted := qc_totalBytesRetransmitted c + frameLen\<rparr>)))"

text \<open>The case of a stream frame in \<open>updateConnection\<close>.\<close>

definition updateConnectionStreamFrame :: "write_stream_frame \<Rightarrow> quic_stream \<Rightarrow> quic_conn \<Rightarrow> stream_error + quic_stream \<times> quic_conn" where
  "updateConnectionStreamFrame f s c =
     bind_result ((if wf_fromBufMeta f then handleStreamBufMetaWritten else handleStreamWritten) (wf_offset f) (wf_len f) (wf_fin f) s c)
       (\<lambda>(newStreamDataWritten, s1, c1).
          bind_result
            (if newStreamDataWritten
             then bind_result (updateFlowControlOnWriteToSocket (wf_len f) c1) (\<lambda>c2.
                    let (s3, c3) = maybeWriteBlockAfterSocketWrite s1 c2
                    in Inr (s3, upd_manager (addTx (stream_id s)) (maybeWriteDataBlockedAfterSocketWrite c3)))
             else Inr (s1, c1))
            (\<lambda>(s4, c4). bind_result (lift_manager (updateWritableStreams s4) c4) (\<lambda>c5. Inr (s4, c5))))"

section \<open>Lost and spuriously lost\<close>

definition streamRetransmissionDisabled :: "quic_stream \<Rightarrow> quic_conn \<Rightarrow> bool" where
  "streamRetransmissionDisabled s c =
     (if ts_advertisedMaxStreamGroups (qc_settings c) > 0
      then case groupId s of
             None \<Rightarrow> False
           | Some g \<Rightarrow> (case Mapping.lookup (qc_retransmissionPolicies c) g of None \<Rightarrow> False | Some disabled \<Rightarrow> disabled)
      else False)"

text \<open>
  The case of a stream frame in \<open>markPacketLoss\<close>; \<open>counted\<close> says whether the stream already
  counted a loss for this packet.
\<close>

definition markStreamFrameLost :: "bool \<Rightarrow> bool \<Rightarrow> write_stream_frame \<Rightarrow> quic_stream \<Rightarrow> quic_conn \<Rightarrow> stream_error + quic_stream \<times> quic_conn" where
  "markStreamFrameLost processed counted f s c =
     (let count = (\<lambda>s. if counted then s else s\<lparr>streamLossCount := streamLossCount s + 1\<rparr>);
          finish = (\<lambda>s1. bind_result (lift_manager (updateWritableStreams s1) c) (\<lambda>c1. Inr (s1, c1)))
      in if processed then Inr (s, c)
         else if \<not> wf_fromBufMeta f
         then case Mapping.lookup (retransmissionBuffer s) (wf_offset f) of
                None \<Rightarrow> Inr (s, c)
              | Some b \<Rightarrow>
                  finish (count (s\<lparr>lossBuffer := (if streamRetransmissionDisabled s c then lossBuffer s else insertIntoLossBuffer b (lossBuffer s)),
                    retransmissionBuffer := Mapping.delete (wf_offset f) (retransmissionBuffer s)\<rparr>))
         else case Mapping.lookup (retransmissionBufMetas s) (wf_offset f) of
                None \<Rightarrow> Inr (s, c)
              | Some b \<Rightarrow>
                  if bm_offset b \<noteq> wf_offset f \<or> bm_length b \<noteq> wf_len f \<or> bm_eof b \<noteq> wf_fin f then Inl Stream_check_failure
                  else finish (count (s\<lparr>lossBufMetas := (if streamRetransmissionDisabled s c then lossBufMetas s else insertIntoLossBufMeta b (lossBufMetas s)),
                    retransmissionBufMetas := Mapping.delete (wf_offset f) (retransmissionBufMetas s)\<rparr>)))"

text \<open>The frame loop of \<open>modifyStateForSpuriousLoss\<close>, for one frame.\<close>

definition spuriousStreamFrame :: "write_stream_frame \<Rightarrow> quic_stream \<Rightarrow> quic_conn \<Rightarrow> stream_error + quic_stream \<times> quic_conn" where
  "spuriousStreamFrame f s c =
     (if \<not> ts_removeFromLossBufferOnSpurious (qc_settings c) then Inr (s, c)
      else
        let s1 = s\<lparr>lossBuffer := removeFromLossBuffer (wf_offset f) (wf_len f) (wf_fin f) (lossBuffer s)\<rparr>
        in bind_result (updateAckedIntervals (wf_offset f) (wf_len f) (wf_fin f) s1) (\<lambda>s2.
           bind_result (lift_manager (updateWritableStreams s2) c) (\<lambda>c1. Inr (s2, c1))))"

end
