(* ===== verification/Stream_Delivery.thy ===== *)
theory Stream_Delivery
  imports Stream_Transmit "HOL-Library.Multiset"
begin

text \<open>
  Reliable delivery from the sender's side: where every byte of a stream, and its FIN, is
  while the application writes, packets are sent, acknowledged and lost. A sent frame
  covers a range of units, its bytes and, if it has the FIN, one unit more. The
  retransmission buffer, the loss buffer and the acknowledged intervals together hold every
  unit sent exactly once; the multiset equation of \<open>core_ok\<close> says so.
\<close>

section \<open>Units\<close>

definition seg_end :: "write_stream_buffer \<Rightarrow> nat" where
  "seg_end b = wb_end b + of_bool (wb_eof b)"

definition seg :: "write_stream_buffer \<Rightarrow> nat list" where
  "seg b = [wb_offset b..<seg_end b]"

definition flight :: "(nat, write_stream_buffer) mapping \<Rightarrow> nat multiset" where
  "flight r = (\<Sum>k \<in> Mapping.keys r. mset (seg (the (Mapping.lookup r k))))"

definition lost :: "write_stream_buffer list \<Rightarrow> nat multiset" where
  "lost lb = mset (concat (map seg lb))"

text \<open>The segment holds bytes of \<open>w\<close>, something at all, and the FIN only at the end.\<close>

definition seg_ok :: "u8 list \<Rightarrow> nat option \<Rightarrow> write_stream_buffer \<Rightarrow> bool" where
  "seg_ok w fin b \<longleftrightarrow> wb_end b \<le> length w \<and> wb_data b = take (length (wb_data b)) (drop (wb_offset b) w) \<and>
     (wb_eof b \<longrightarrow> fin = Some (length w) \<and> wb_end b = length w) \<and> wb_offset b < seg_end b"

definition seg_before :: "write_stream_buffer \<Rightarrow> write_stream_buffer \<Rightarrow> bool" where
  "seg_before a b \<longleftrightarrow> seg_end a \<le> wb_offset b"

definition core_ok ::
    "u8 list \<Rightarrow> nat option \<Rightarrow> nat \<Rightarrow> (nat, write_stream_buffer) mapping \<Rightarrow> write_stream_buffer list \<Rightarrow> interval list \<Rightarrow> bool" where
  "core_ok w fin cwo r lb ak \<longleftrightarrow> finite (Mapping.keys r) \<and> flight r + lost lb + mset_set (points ak) = mset [0..<cwo] \<and>
     (\<forall>k b. Mapping.lookup r k = Some b \<longrightarrow> wb_offset b = k \<and> seg_ok w fin b) \<and> (\<forall>b \<in> set lb. seg_ok w fin b) \<and>
     sorted_wrt seg_before lb \<and> iset_inv ak"

lemma seg_simps [simp]: "set (seg b) = {wb_offset b..<seg_end b}" "wb_offset b \<in> set (seg b) \<longleftrightarrow> wb_offset b < seg_end b"
  by (auto simp: seg_def)

lemma lost_simps [simp]: "lost [] = {#}" "lost (b # lb) = mset (seg b) + lost lb" "lost (xs @ ys) = lost xs + lost ys"
  by (simp_all add: lost_def)

lemma in_lost: "x \<in># lost lb \<longleftrightarrow> (\<exists>b \<in> set lb. x \<in> set (seg b))"
  by (auto simp: lost_def)

lemma keys_lookup: "k \<in> Mapping.keys r \<longleftrightarrow> (\<exists>b. Mapping.lookup r k = Some b)"
  by (simp add: keys_dom_lookup domIff)

lemma lookup_delete_if: "Mapping.lookup (Mapping.delete k r) j = (if j = k then None else Mapping.lookup r j)"
  by (simp add: lookup_delete lookup_delete_neq)

lemma in_flight:
  assumes "finite (Mapping.keys r)" shows "x \<in># flight r \<longleftrightarrow> (\<exists>k b. Mapping.lookup r k = Some b \<and> x \<in> set (seg b))"
proof -
  have "x \<in># flight r \<longleftrightarrow> (\<exists>k \<in> Mapping.keys r. x \<in> set (seg (the (Mapping.lookup r k))))"
    using assms by (simp add: flight_def set_mset_sum)
  then show ?thesis by (metis keys_lookup option.sel)
qed

lemma flight_update:
  assumes "finite (Mapping.keys r)" "k \<notin> Mapping.keys r"
  shows "flight (Mapping.update k b r) = flight r + mset (seg b)"
proof -
  have "(\<Sum>j \<in> Mapping.keys r. mset (seg (the (Mapping.lookup (Mapping.update k b r) j)))) = flight r"
    unfolding flight_def using assms(2) by (intro sum.cong refl) (auto simp: lookup_update')
  then show ?thesis using assms by (simp add: flight_def lookup_update)
qed

lemma flight_delete:
  assumes "finite (Mapping.keys r)" "Mapping.lookup r k = Some b"
  shows "flight r = flight (Mapping.delete k r) + mset (seg b)"
proof -
  have k: "k \<in> Mapping.keys r" using assms(2) by (auto simp: keys_lookup)
  have "flight (Mapping.delete k r) = (\<Sum>j \<in> Mapping.keys r - {k}. mset (seg (the (Mapping.lookup r j))))"
    unfolding flight_def by (intro sum.cong) (auto simp: lookup_delete_neq)
  then show ?thesis
    using sum.remove [OF assms(1) k, of "\<lambda>j. mset (seg (the (Mapping.lookup r j)))"] assms(2) by (simp add: flight_def)
qed

lemma disjoint_parts:
  assumes "A + B = mset xs" "distinct xs" "x \<in># A" shows "x \<notin># B"
proof
  assume "x \<in># B"
  then have "count (A + B) x \<ge> 2" using assms(3) by (simp add: Suc_le_eq add_gr_0 count_greater_zero_iff [symmetric] del: count_greater_zero_iff)
  moreover have "count (mset xs) x \<le> 1" using assms(2) by (simp add: distinct_count_atmost_1)
  ultimately show False using assms(1) by simp
qed

section \<open>Moving segments\<close>

lemma core_flightD:
  "core_ok w fin cwo r lb ak \<Longrightarrow> Mapping.lookup r k = Some b \<Longrightarrow> wb_offset b = k \<and> seg_ok w fin b \<and> k < seg_end b"
  unfolding core_ok_def seg_ok_def by blast

lemma core_lostD: "core_ok w fin cwo r lb ak \<Longrightarrow> x \<in> set lb \<Longrightarrow> seg_ok w fin x \<and> wb_offset x < seg_end x"
  unfolding core_ok_def seg_ok_def by blast

text \<open>The parts of \<open>core_ok\<close> are disjoint.\<close>

lemma core_disjoint:
  assumes "core_ok w fin cwo r lb ak" "Mapping.lookup r k = Some b"
  shows "x \<in> set lb \<Longrightarrow> set (seg x) \<inter> set (seg b) = {}" "points ak \<inter> set (seg b) = {}" "set (seg b) \<subseteq> {0..<cwo}"
    "Mapping.lookup r j = Some a \<Longrightarrow> j \<noteq> k \<Longrightarrow> set (seg a) \<inter> set (seg b) = {}"
proof -
  have fin: "finite (Mapping.keys r)" and eq: "flight r + lost lb + mset_set (points ak) = mset [0..<cwo]"
    using assms(1) by (simp_all add: core_ok_def)
  have del: "mset (seg b) + (flight (Mapping.delete k r) + lost lb + mset_set (points ak)) = mset [0..<cwo]"
    using eq flight_delete [OF fin assms(2)] by (simp add: ac_simps)
  have out: "u \<notin># flight (Mapping.delete k r) + lost lb + mset_set (points ak)" if "u \<in> set (seg b)" for u
    using disjoint_parts [OF del] that by simp
  have "finite (points ak)" by (auto simp: points_def iv_points_def)
  then show "x \<in> set lb \<Longrightarrow> set (seg x) \<inter> set (seg b) = {}" "points ak \<inter> set (seg b) = {}"
    using out in_lost by (fastforce simp del: seg_simps)+
  show "set (seg b) \<subseteq> {0..<cwo}"
    using arg_cong [OF del, of set_mset] by (auto simp del: seg_simps)
  assume "Mapping.lookup r j = Some a" "j \<noteq> k"
  then have "Mapping.lookup (Mapping.delete k r) j = Some a" by (simp add: lookup_delete_neq)
  then show "set (seg a) \<inter> set (seg b) = {}"
    using out in_flight [of "Mapping.delete k r"] fin by (fastforce simp del: seg_simps)
qed

lemma core_lost_below:
  assumes "core_ok w fin cwo r lb ak" "x \<in> set lb" shows "wb_offset x < cwo"
proof -
  have "wb_offset x < seg_end x" using assms by (simp add: core_ok_def seg_ok_def)
  then have "wb_offset x \<in># flight r + lost lb + mset_set (points ak)" using assms(2) by (auto simp: in_lost)
  moreover have "flight r + lost lb + mset_set (points ak) = mset [0..<cwo]" using assms(1) by (simp add: core_ok_def)
  ultimately show ?thesis by simp
qed

lemma core_lost_not_in_flight:
  assumes "core_ok w fin cwo r lb ak" "x \<in> set lb" shows "wb_offset x \<notin> Mapping.keys r"
proof
  assume "wb_offset x \<in> Mapping.keys r"
  then obtain b where b: "Mapping.lookup r (wb_offset x) = Some b" by (auto simp: keys_lookup)
  then show False
    using core_disjoint(1) [OF assms(1) b assms(2)] core_flightD [OF assms(1) b] core_lostD [OF assms] by auto
qed

lemma core_new:
  assumes ok: "core_ok w fin cwo r lb ak" and b: "wb_offset b = cwo" "seg_ok w fin b"
  shows "cwo \<notin> Mapping.keys r" "core_ok w fin (seg_end b) (Mapping.update cwo b r) lb ak"
proof -
  show k: "cwo \<notin> Mapping.keys r"
  proof
    assume "cwo \<in> Mapping.keys r"
    then obtain a where a: "Mapping.lookup r cwo = Some a" by (auto simp: keys_lookup)
    then show False using core_disjoint(3) [OF ok a] core_flightD [OF ok a] by auto
  qed
  have "[0..<seg_end b] = [0..<cwo] @ seg b"
    using b upt_add_eq_append [of 0 cwo "seg_end b - cwo"] by (auto simp: seg_def seg_ok_def)
  then have "flight r + mset (seg b) + lost lb + mset_set (points ak) = mset [0..<seg_end b]"
    using ok by (simp add: core_ok_def ac_simps)
  then show "core_ok w fin (seg_end b) (Mapping.update cwo b r) lb ak"
    using ok b flight_update [OF _ k, of b] by (auto simp: core_ok_def lookup_update' split: if_split_asm)
qed

lemma upt_join: "i \<le> j \<Longrightarrow> j \<le> k \<Longrightarrow> [i..<j] @ [j..<k] = [i..<k]"
  by (metis le_add_diff_inverse upt_add_eq_append)

text \<open>Cutting a segment after \<open>n\<close> bytes.\<close>

lemma seg_cut:
  assumes "seg_ok w fin x" "0 < n" "n < length (wb_data x)"
    and "front = \<lparr>wb_data = take n (wb_data x), wb_offset = wb_offset x, wb_eof = False\<rparr>"
    and "back = x\<lparr>wb_offset := wb_offset x + n, wb_data := drop n (wb_data x)\<rparr>"
  shows "seg x = seg front @ seg back" "seg_ok w fin front" "seg_ok w fin back" "seg_end back = seg_end x"
proof -
  have e: "seg_end front = wb_offset x + n" "seg_end back = seg_end x" "wb_offset back = wb_offset x + n"
    "wb_offset front = wb_offset x" "wb_offset x + n \<le> seg_end x"
    using assms by (simp_all add: seg_end_def wb_end_def)
  then show "seg x = seg front @ seg back" "seg_end back = seg_end x"
    unfolding seg_def e(1-4) by (simp_all add: upt_join)
  have d: "wb_data x = take (length (wb_data x)) (drop (wb_offset x) w)" "wb_offset x + length (wb_data x) \<le> length w"
    using assms(1) by (simp_all add: seg_ok_def wb_end_def)
  have "take n (wb_data x) = take n (drop (wb_offset x) w)" using d(1) assms(3) by (metis less_imp_le min.absorb1 take_take)
  then show "seg_ok w fin front" using assms d by (simp add: seg_ok_def seg_end_def wb_end_def)
  have "drop n (wb_data x) = take (length (wb_data x) - n) (drop (n + wb_offset x) w)" using d(1) by (metis drop_take drop_drop)
  then show "seg_ok w fin back" using assms d by (simp add: seg_ok_def seg_end_def wb_end_def add.commute)
qed

lemma core_retransmit:
  assumes ok: "core_ok w fin cwo r (bf @ x # af) ak"
  shows "core_ok w fin cwo (Mapping.update (wb_offset x) x r) (bf @ af) ak"
proof -
  have k: "wb_offset x \<notin> Mapping.keys r" using core_lost_not_in_flight [OF ok] by simp
  then show ?thesis
    using ok flight_update [OF _ k, of x] by (auto simp: core_ok_def lookup_update' sorted_wrt_append ac_simps split: if_split_asm)
qed

lemma core_retransmit_part:
  assumes ok: "core_ok w fin cwo r (bf @ x # af) ak" and n: "0 < n" "n < length (wb_data x)"
    and f: "front = \<lparr>wb_data = take n (wb_data x), wb_offset = wb_offset x, wb_eof = False\<rparr>"
    and b: "back = x\<lparr>wb_offset := wb_offset x + n, wb_data := drop n (wb_data x)\<rparr>"
  shows "core_ok w fin cwo (Mapping.update (wb_offset x) front r) (bf @ back # af) ak"
proof -
  have x: "seg_ok w fin x" using core_lostD [OF ok] by simp
  note c = seg_cut [OF x n f b]
  have off: "wb_offset back = wb_offset x + n" "wb_offset front = wb_offset x" by (simp_all add: b f)
  have k: "wb_offset x \<notin> Mapping.keys r" using core_lost_not_in_flight [OF ok] by simp
  have "sorted_wrt seg_before (bf @ back # af)"
    using ok c(4) off by (fastforce simp: core_ok_def sorted_wrt_append seg_before_def)
  moreover have "flight r + mset (seg front) + lost (bf @ back # af) + mset_set (points ak) = mset [0..<cwo]"
    using ok c(1) by (simp add: core_ok_def ac_simps)
  ultimately show ?thesis
    using ok c(2,3) off flight_update [OF _ k, of front] by (auto simp: core_ok_def lookup_update' split: if_split_asm)
qed

lemma core_ack:
  assumes ok: "core_ok w fin cwo r lb ak" and b: "Mapping.lookup r k = Some b"
    and ak': "points ak' = points ak \<union> set (seg b)" "iset_inv ak'"
  shows "core_ok w fin cwo (Mapping.delete k r) lb ak'"
proof -
  have "finite (points ak)" by (auto simp: points_def iv_points_def)
  then have "mset_set (points ak') = mset_set (points ak) + mset (seg b)"
    unfolding ak'(1) using core_disjoint(2) [OF ok b]
    by (subst mset_set_Union) (auto simp: seg_def simp del: seg_simps)
  then show ?thesis
    using ok ak'(2) flight_delete [OF _ b] by (auto simp: core_ok_def lookup_delete_if ac_simps split: if_split_asm)
qed

section \<open>Losing a segment\<close>

lemma seg_glue:
  assumes "seg_ok w fin p" "seg_ok w fin b" "\<not> wb_eof p" "wb_end p = wb_offset b"
    and "g = p\<lparr>wb_data := wb_data p @ wb_data b, wb_eof := wb_eof b\<rparr>"
  shows "seg g = seg p @ seg b" "seg_ok w fin g" "seg_end g = seg_end b" "wb_offset g = wb_offset p"
proof -
  have e: "seg_end p = wb_offset b" "seg_end g = seg_end b" "wb_offset g = wb_offset p" "wb_end g = wb_end b"
    using assms(3-5) by (simp_all add: seg_end_def wb_end_def)
  then show "seg_end g = seg_end b" "wb_offset g = wb_offset p" by simp_all
  have "wb_offset p \<le> wb_offset b" "wb_offset b \<le> seg_end b" using assms(2,4) by (simp_all add: seg_ok_def wb_end_def)
  then show "seg g = seg p @ seg b" by (simp add: seg_def e upt_join)
  have "wb_data p @ wb_data b = take (length (wb_data p) + length (wb_data b)) (drop (wb_offset p) w)"
  proof -
    have "wb_data p = take (length (wb_data p)) (drop (wb_offset p) w)" using assms(1) by (simp add: seg_ok_def)
    moreover have "wb_data b = take (length (wb_data b)) (drop (length (wb_data p)) (drop (wb_offset p) w))"
      using assms(2,4) by (simp add: seg_ok_def wb_end_def add.commute)
    ultimately show ?thesis unfolding take_add by presburger
  qed
  moreover have g: "wb_data g = wb_data p @ wb_data b" by (simp add: assms(5))
  ultimately have "wb_data g = take (length (wb_data g)) (drop (wb_offset g) w)" unfolding g length_append e(3) by metis
  moreover have "wb_eof g = wb_eof b" by (simp add: assms(5))
  ultimately show "seg_ok w fin g"
    using assms(1,2,4) \<open>wb_offset p \<le> wb_offset b\<close> unfolding seg_ok_def e by auto
qed

text \<open>\<open>b\<close> overlaps nothing in the sorted loss buffer, so it lies between what sorts before it and after it.\<close>

lemma loss_split:
  assumes sorted: "sorted_wrt seg_before lb" and ne: "\<forall>x \<in> set lb. wb_offset x < seg_end x" "wb_offset b < seg_end b"
    and dis: "\<And>x. x \<in> set lb \<Longrightarrow> set (seg x) \<inter> set (seg b) = {}"
    and bf: "bf = takeWhile (\<lambda>x. wb_offset x \<le> wb_offset b) lb" and af: "af = dropWhile (\<lambda>x. wb_offset x \<le> wb_offset b) lb"
  shows "lb = bf @ af" "\<forall>x \<in> set bf. seg_before x b" "\<forall>y \<in> set af. seg_before b y"
proof -
  show lb: "lb = bf @ af" by (simp add: bf af)
  have dis': "seg_end x \<le> wb_offset b \<or> seg_end b \<le> wb_offset x" if "x \<in> set lb" for x
    using dis [OF that] ne that by (auto simp: Int_Diff atLeastLessThan_inj disjoint_iff not_le)
  show "\<forall>x \<in> set bf. seg_before x b"
    using dis' ne set_takeWhileD unfolding bf seg_before_def by fastforce
  show "\<forall>y \<in> set af. seg_before b y"
  proof (cases af)
    case (Cons y ys)
    then have y: "wb_offset b < wb_offset y" using af by (metis dropWhile_eq_Cons_conv not_le)
    have mem: "y \<in> set lb" using lb Cons by simp
    have "seg_end b \<le> wb_offset y" using dis' [OF mem] y ne mem by auto
    moreover have "\<forall>z \<in> set ys. seg_end y \<le> wb_offset z"
      using sorted lb Cons by (auto simp: sorted_wrt_append seg_before_def)
    moreover have "wb_offset y < seg_end y" using ne mem by blast
    ultimately show ?thesis using Cons by (fastforce simp: seg_before_def)
  qed simp
qed

lemma insertIntoLossBuffer_ok:
  assumes sorted: "sorted_wrt seg_before lb" and ok: "\<forall>x \<in> set lb. seg_ok w fin x" "seg_ok w fin b"
    and dis: "\<And>x. x \<in> set lb \<Longrightarrow> set (seg x) \<inter> set (seg b) = {}"
  shows "lost (insertIntoLossBuffer b lb) = lost lb + mset (seg b)" "sorted_wrt seg_before (insertIntoLossBuffer b lb)"
    "\<forall>x \<in> set (insertIntoLossBuffer b lb). seg_ok w fin x"
proof -
  define bf where "bf = takeWhile (\<lambda>x. wb_offset x \<le> wb_offset b) lb"
  define af where "af = dropWhile (\<lambda>x. wb_offset x \<le> wb_offset b) lb"
  have ne: "\<forall>x \<in> set lb. wb_offset x < seg_end x" "wb_offset b < seg_end b" using ok by (simp_all add: seg_ok_def)
  note sp = loss_split [OF sorted ne dis bf_def af_def]
  have so: "sorted_wrt seg_before bf" "sorted_wrt seg_before af" "\<forall>x \<in> set bf. \<forall>y \<in> set af. seg_before x y"
    using sorted sp(1) by (simp_all add: sorted_wrt_append)
  show "lost (insertIntoLossBuffer b lb) = lost lb + mset (seg b)" "sorted_wrt seg_before (insertIntoLossBuffer b lb)"
    "\<forall>x \<in> set (insertIntoLossBuffer b lb). seg_ok w fin x"
  proof (atomize (full), cases "bf \<noteq> [] \<and> wb_end (last bf) = wb_offset b")
    case True
    define bs p where "bs = butlast bf" and "p = last bf"
    have bf: "bf = bs @ [p]" using True by (simp add: bs_def p_def)
    define g where "g = p\<lparr>wb_data := wb_data p @ wb_data b, wb_eof := wb_eof b\<rparr>"
    have "p \<in> set bf" unfolding bf by simp
    moreover from this have "p \<in> set lb" using set_takeWhileD unfolding bf_def by fast
    ultimately have p: "seg_before p b" "seg_ok w fin p" "wb_end p = wb_offset b" using sp(2) ok(1) True p_def by blast+
    then have "\<not> wb_eof p" by (simp add: seg_before_def seg_end_def)
    note gl = seg_glue [OF p(2) ok(2) this p(3) g_def]
    have ins: "insertIntoLossBuffer b lb = bs @ g # af"
      unfolding insertIntoLossBuffer_def bf_def [symmetric] af_def [symmetric] Let_def using True by (simp add: bs_def p_def g_def)
    have "sorted_wrt seg_before (bs @ g # af)"
      using so(1-2) sp(3) so(3) gl(3,4) unfolding bf by (auto simp: sorted_wrt_append seg_before_def)
    moreover have "lost lb = lost bs + mset (seg p) + lost af" "set lb = set bs \<union> {p} \<union> set af"
      using arg_cong [OF sp(1), of lost] arg_cong [OF sp(1), of set] unfolding bf by auto
    ultimately show "lost (insertIntoLossBuffer b lb) = lost lb + mset (seg b) \<and> sorted_wrt seg_before (insertIntoLossBuffer b lb) \<and>
        (\<forall>x \<in> set (insertIntoLossBuffer b lb). seg_ok w fin x)"
      unfolding ins using gl(1,2) ok(1) by (auto simp: ac_simps)
  next
    case False
    then have ins: "insertIntoLossBuffer b lb = bf @ b # af"
      unfolding insertIntoLossBuffer_def bf_def [symmetric] af_def [symmetric] Let_def by auto
    have "sorted_wrt seg_before (bf @ b # af)" using so sp(2,3) by (auto simp: sorted_wrt_append)
    moreover have "lost lb = lost bf + lost af" "set lb = set bf \<union> set af"
      using arg_cong [OF sp(1), of lost] arg_cong [OF sp(1), of set] by auto
    ultimately show "lost (insertIntoLossBuffer b lb) = lost lb + mset (seg b) \<and> sorted_wrt seg_before (insertIntoLossBuffer b lb) \<and>
        (\<forall>x \<in> set (insertIntoLossBuffer b lb). seg_ok w fin x)"
      unfolding ins using ok by (auto simp: ac_simps)
  qed
qed

lemma core_lose:
  assumes ok: "core_ok w fin cwo r lb ak" and b: "Mapping.lookup r k = Some b"
  shows "core_ok w fin cwo (Mapping.delete k r) (insertIntoLossBuffer b lb) ak"
proof -
  have "sorted_wrt seg_before lb" "\<forall>x \<in> set lb. seg_ok w fin x" using ok by (simp_all add: core_ok_def)
  moreover have "seg_ok w fin b" using core_flightD [OF ok b] by simp
  ultimately show ?thesis
    using ok insertIntoLossBuffer_ok [of lb w fin b] core_disjoint(1) [OF ok b] flight_delete [OF _ b]
    by (auto simp: core_ok_def lookup_delete_if ac_simps split: if_split_asm)
qed

lemma core_append:
  assumes ok: "core_ok w None cwo r lb ak" and "fin = None \<or> fin = Some (length (w @ data))"
  shows "core_ok (w @ data) fin cwo r lb ak"
proof -
  have "seg_ok (w @ data) fin b" if "seg_ok w None b" for b
    using that by (auto simp: seg_ok_def wb_end_def)
  then show ?thesis using ok unfolding core_ok_def by blast
qed

section \<open>The stream\<close>

text \<open>\<open>w\<close> are the bytes the application wrote, \<open>fs\<close> the frames sent and neither acknowledged nor declared lost.\<close>

definition stream_ok :: "u8 list \<Rightarrow> quic_stream \<Rightarrow> bool" where
  "stream_ok w s \<longleftrightarrow>
     core_ok w (finalWriteOffset s) (currentWriteOffset s) (retransmissionBuffer s) (lossBuffer s) (is_intervals (ackedIntervals s)) \<and>
     pendingWrites s = drop (currentWriteOffset s) w \<and>
     (finalWriteOffset s = None \<and> currentWriteOffset s \<le> length w \<or>
      finalWriteOffset s = Some (length w) \<and> currentWriteOffset s \<le> Suc (length w)) \<and>
     length w < 2 ^ 61 \<and> min (currentWriteOffset s) (length w) \<le> sf_peerAdvertisedMaxOffset (flowControlState s) \<and>
     sf_peerAdvertisedMaxOffset (flowControlState s) < 2 ^ 64 \<and>
     bm_offset (writeBufMeta s) = 0 \<and> \<not> dsrSender s \<and> Mapping.keys (retransmissionBufMetas s) = {} \<and> lossBufMetas s = [] \<and>
     groupId s = None \<and> streamWriteError s = None"

definition outstanding_ok :: "write_stream_frame list \<Rightarrow> quic_stream \<Rightarrow> bool" where
  "outstanding_ok fs s \<longleftrightarrow> distinct (map wf_offset fs) \<and> Mapping.keys (retransmissionBuffer s) = wf_offset ` set fs \<and>
     (\<forall>f \<in> set fs. \<not> wf_fromBufMeta f \<and>
       (\<exists>b. Mapping.lookup (retransmissionBuffer s) (wf_offset f) = Some b \<and> wf_len f = length (wb_data b) \<and> wf_fin f = wb_eof b))"

definition send_view where
  "send_view s = (finalWriteOffset s, currentWriteOffset s, retransmissionBuffer s, lossBuffer s, ackedIntervals s, pendingWrites s,
     sf_peerAdvertisedMaxOffset (flowControlState s), writeBufMeta s, dsrSender s, retransmissionBufMetas s, lossBufMetas s, groupId s,
     streamWriteError s, sendState s, stream_id s)"

lemma send_view_cong:
  assumes "send_view s' = send_view s"
  shows "stream_ok w s' = stream_ok w s" "outstanding_ok fs s' = outstanding_ok fs s"
  using assms by (simp_all add: send_view_def stream_ok_def outstanding_ok_def)

lemma stream_ok_writable:
  assumes "stream_ok w s"
  shows "hasWritableData s = Inr (currentWriteOffset s < length w \<and> currentWriteOffset s < sf_peerAdvertisedMaxOffset (flowControlState s) \<or>
      currentWriteOffset s = length w \<and> finalWriteOffset s \<noteq> None)"
    "hasWritableBufMeta s = Inr False"
proof -
  have "pendingWrites s \<noteq> [] \<longleftrightarrow> currentWriteOffset s < length w" using assms by (auto simp: stream_ok_def)
  then show "hasWritableData s = Inr (currentWriteOffset s < length w \<and> currentWriteOffset s < sf_peerAdvertisedMaxOffset (flowControlState s) \<or>
      currentWriteOffset s = length w \<and> finalWriteOffset s \<noteq> None)"
    using assms by (auto simp: hasWritableData_def stream_ok_def split: option.split)
  show "hasWritableBufMeta s = Inr False" using assms by (simp add: hasWritableBufMeta_def stream_ok_def)
qed

lemma lift_writable_returns:
  assumes "stream_ok w s" shows "\<exists>c'. lift_manager (updateWritableStreams s) c = Inr c'"
proof -
  have "streamWriteError s = None" using assms by (simp add: stream_ok_def)
  then show ?thesis
    by (simp add: lift_manager_def updateWritableStreams_def hasSchedulableData_def hasSchedulableDsr_def stream_ok_writable [OF assms] Let_def)
qed

section \<open>Frames of a packet\<close>

lemma quicIntegerSize_returns: "v < 2 ^ 62 \<Longrightarrow> encodable v \<and> (\<exists>n. quicIntegerSize v = Inr n \<and> n \<le> 8)"
proof -
  assume v: "v < 2 ^ 62"
  then have "unat (of_nat v :: u64) = v" by (intro unat_of_nat_small) simp
  then obtain bs where bs: "encodeQuicInteger (of_nat v) = Inr bs"
    using v encodeQuicInteger_fails [of "of_nat v"] by (cases "encodeQuicInteger (of_nat v :: u64)") auto
  then have "quicIntegerSize v = Inr (length bs)" using encodeQuicInteger_decodes(2) by (simp add: quicIntegerSize_def)
  then show ?thesis using quicIntegerSize_bound bs by (simp add: encodable_def intBytes_def)
qed

lemma dataLenLenOf_returns: "n < 2 ^ 61 \<Longrightarrow> \<exists>l. dataLenLenOf n = Inr l"
  by (simp add: dataLenLenOf_def quic_limits)

lemma not_isl_intros:
  "\<not> isl x \<Longrightarrow> \<not> isl y \<Longrightarrow> \<not> isl (if b then x else y)" "\<not> isl m \<Longrightarrow> (\<And>x. \<not> isl (f x)) \<Longrightarrow> \<not> isl (bind_result m f)" "\<not> isl (Inr z)"
  by simp_all (cases m; simp)

lemma streamFrameSizes_returns:
  assumes "buf < 2 ^ 61" shows "\<exists>r. streamFrameSizes remaining hs buf flow fin None = Inr r"
proof -
  have "min (min buf flow) (sub64 remaining hs) < 2 ^ 61" using assms by simp
  from dataLenLenOf_returns [OF this] have "\<not> isl (dataLenLenOf (min (min buf flow) (sub64 remaining hs)))" by (elim exE) simp
  then have "\<not> isl (streamFrameSizes remaining hs buf flow fin None)"
    unfolding streamFrameSizes_def Let_def by (intro not_isl_intros)
  then show ?thesis by (cases "streamFrameSizes remaining hs buf flow fin None") simp_all
qed

lemma optWrite_returns: "v < 2 ^ 62 \<or> \<not> b \<Longrightarrow> \<exists>pb'. optWrite b v pb = Inr pb'"
  using quicIntegerSize_returns [of v] by (auto simp: optWrite_def pb_write_def encodable_def)

lemma header_returns:
  assumes "sid < 2 ^ 62" "off < 2 ^ 62" "buf < 2 ^ 61" "0 < buf \<or> fin"
  shows "\<exists>r. writeStreamFrameHeader sid off buf flow fin None None True pb = Inr r \<and> (fst r = None \<longrightarrow> snd r = pb)"
proof -
  obtain a b where a: "quicIntegerSize sid = Inr a" "a \<le> 8" and b: "(if off \<noteq> 0 then quicIntegerSize off else Inr 0) = Inr b" "b \<le> 8"
    using quicIntegerSize_returns [OF assms(1)] quicIntegerSize_returns [OF assms(2)] by (cases "off = 0") auto
  obtain r where r: "streamFrameSizes (unat (pb_remaining pb)) (1 + a + 0 + b) buf flow fin None = Inr r"
    using streamFrameSizes_returns [OF assms(3)] by blast
  have "unat (pb_remaining pb) < 2 ^ 32" using unat_bound [of "pb_remaining pb"] by simp
  then have n: "n < 2 ^ 62" if "r = Some (n, f, l)" for n f l
    using streamFrameSizes_bounds(1) [OF r [unfolded that]] assms(3) a(2) b(2) by simp
  show ?thesis
  proof (cases r)
    case None
    then show ?thesis using assms(4) r unfolding writeStreamFrameHeader_def a(1) b(1) by (auto simp: Let_def)
  next
    case (Some t)
    obtain n f l where t: "t = (n, f, l)" by (cases t)
    have pw: "v < 2 ^ 62 \<Longrightarrow> \<exists>pb'. pb_write v pb = Inr pb'" for v pb using optWrite_returns [of v True] by (simp add: optWrite_def)
    obtain p1 where p1: "pb_write sid (pb_append [streamType False (off \<noteq> 0) (l > 0) f] pb) = Inr p1"
      using pw [OF assms(1)] by blast
    obtain p3 where p3: "optWrite (off \<noteq> 0) off p1 = Inr p3" using optWrite_returns [OF disjI1 [OF assms(2)]] by blast
    obtain p4 where p4: "optWrite (l > 0) n p3 = Inr p4" using optWrite_returns [OF disjI1 [OF n]] Some t by blast
    have "optWrite False (the None) p1 = Inr p1" by (simp add: optWrite_def)
    with p1 p3 p4 show ?thesis
      using assms(4) r Some t unfolding writeStreamFrameHeader_def a(1) b(1) by (auto simp: Let_def)
  qed
qed

lemma header_frame:
  assumes "sid < 2 ^ 62" "off < 2 ^ 62" "buf < 2 ^ 61" "0 < buf \<or> fin"
  obtains "writeStreamFrameHeader sid off buf flow fin None None True pb = Inr (None, pb)"
  | n pb' where "writeStreamFrameHeader sid off buf flow fin None None True pb = Inr (Some n, pb')" "n \<le> min buf flow"
      "0 < n \<or> fin \<and> n = buf" "pb_frames pb' = pb_frames pb @
        [\<lparr>wf_streamId = sid, wf_offset = off, wf_len = n, wf_fin = (fin \<and> n = buf), wf_fromBufMeta = False, wf_groupId = None\<rparr>]"
proof -
  let ?run = "writeStreamFrameHeader sid off buf flow fin None None True pb"
  obtain r where r: "?run = Inr r" "fst r = None \<longrightarrow> snd r = pb" using header_returns [OF assms, of flow pb] by (elim exE conjE) rule
  show ?thesis
  proof (cases "fst r")
    case None
    then show ?thesis using r by (intro that(1)) (cases r, simp)
  next
    case (Some n)
    then have run: "?run = Inr (Some n, snd r)" using r by (cases r) simp
    have "buf < 2 ^ 62" using assms(3) by simp
    from run this show ?thesis
      by (rule writeStreamFrameHeader_ok) (rule that(2) [OF run], auto simp: streamType_flags)
  qed
qed

end
