(* ===== verification/Delivery_Runs.thy ===== *)
theory Delivery_Runs
  imports Stream_Delivery
begin

text \<open>
  A stream while it is sent: the application writes, packets go out with what the scheduler
  puts into them, frames are acknowledged or declared lost, and the peer raises the flow
  control limits, in any order. The invariant of \<open>Stream_Delivery\<close> holds after each of these
  events, so no byte is lost or sent twice at once, and no check of the code fails.
\<close>

section \<open>What the scheduler puts into a packet\<close>

text \<open>
  A frame that may go out now: new data at the current offset, within the credit of the
  stream and of the connection, or the front of an entry of the loss buffer.
\<close>

definition sendable :: "u8 list \<Rightarrow> quic_stream \<Rightarrow> nat \<Rightarrow> write_stream_frame \<Rightarrow> bool" where
  "sendable w s credit f \<longleftrightarrow> \<not> wf_fromBufMeta f \<and> (0 < wf_len f \<or> wf_fin f) \<and>
     (wf_offset f = currentWriteOffset s \<and> currentWriteOffset s + wf_len f \<le> length w \<and>
        currentWriteOffset s + wf_len f \<le> sf_peerAdvertisedMaxOffset (flowControlState s) \<and> wf_len f \<le> credit \<and>
        (wf_fin f \<longrightarrow> finalWriteOffset s \<noteq> None \<and> currentWriteOffset s + wf_len f = length w) \<or>
      (\<exists>b \<in> set (lossBuffer s). wb_offset b = wf_offset f \<and> wf_len f \<le> length (wb_data b) \<and>
        wf_fin f = (wb_eof b \<and> wf_len f = length (wb_data b))))"

lemma loss_entry_sizes:
  assumes "stream_ok w s" "b \<in> set (lossBuffer s)"
  shows "wb_offset b < 2 ^ 62" "length (wb_data b) < 2 ^ 61" "0 < length (wb_data b) \<or> wb_eof b" "wb_offset b < currentWriteOffset s"
proof -
  have c: "core_ok w (finalWriteOffset s) (currentWriteOffset s) (retransmissionBuffer s) (lossBuffer s) (is_intervals (ackedIntervals s))"
    and l: "length w < 2 ^ 61" using assms(1) by (simp_all add: stream_ok_def)
  from core_lostD [OF c assms(2)] have "wb_end b \<le> length w" "wb_offset b < seg_end b" by (simp_all add: seg_ok_def)
  then show "wb_offset b < 2 ^ 62" "length (wb_data b) < 2 ^ 61" "0 < length (wb_data b) \<or> wb_eof b"
    using l by (auto simp: wb_end_def seg_end_def)
  show "wb_offset b < currentWriteOffset s" by (rule core_lost_below [OF c assms(2)])
qed

lemma loss_offsets_sorted:
  assumes "stream_ok w s" shows "sorted_wrt (<) (map wb_offset (lossBuffer s))"
proof -
  have a: "sorted_wrt seg_before (lossBuffer s)" "\<forall>b \<in> set (lossBuffer s). wb_offset b < seg_end b"
    using assms by (simp_all add: stream_ok_def core_ok_def seg_ok_def)
  show ?thesis
    unfolding sorted_wrt_map by (rule sorted_wrt_mono_rel [OF _ a(1)]) (use a(2) in \<open>auto simp: seg_before_def\<close>)
qed

lemma writeStreamFrameData_frames [simp]: "pb_frames (writeStreamFrameData data n pb) = pb_frames pb"
  by (simp add: writeStreamFrameData_def pb_insert_def pb_append_def)

lemma loss_loop_frames:
  assumes ok: "stream_ok w s" "stream_id s < 2 ^ 62" and "set bs \<subseteq> set (lossBuffer s)"
  shows "\<exists>wr fs pb' k. write_loss_loop s bs wrote pb = Inr (wr, pb') \<and> pb_frames pb' = pb_frames pb @ fs \<and>
    list_all (sendable w s credit) fs \<and> map wf_offset fs = take k (map wb_offset bs)"
  using assms(3)
proof (induction bs arbitrary: wrote pb)
  case Nil
  show ?case by (rule exI [of _ wrote], rule exI [of _ "[]"]) simp
next
  case (Cons b bs)
  have g: "groupId s = None" using ok by (simp add: stream_ok_def)
  have b: "b \<in> set (lossBuffer s)" using Cons.prems by simp
  note z = loss_entry_sizes [OF ok(1) b]
  let ?run = "writeStreamFrameHeader (stream_id s) (wb_offset b) (length (wb_data b)) (length (wb_data b)) (wb_eof b) None None True pb"
  consider "?run = Inr (None, pb)"
    | n pb' where "?run = Inr (Some n, pb')" "n \<le> min (length (wb_data b)) (length (wb_data b))" "0 < n \<or> wb_eof b \<and> n = length (wb_data b)"
      "pb_frames pb' = pb_frames pb @ [\<lparr>wf_streamId = stream_id s, wf_offset = wb_offset b, wf_len = n,
        wf_fin = (wb_eof b \<and> n = length (wb_data b)), wf_fromBufMeta = False, wf_groupId = None\<rparr>]"
    by (rule header_frame [OF ok(2) z(1-3)])
  then show ?case
  proof cases
    case 1
    then show ?thesis
      by (intro exI [of _ wrote] exI [of _ "[]"] exI [of _ pb] exI [of _ 0]) (simp add: g)
  next
    case (2 n pb')
    define f where "f = \<lparr>wf_streamId = stream_id s, wf_offset = wb_offset b, wf_len = n,
        wf_fin = (wb_eof b \<and> n = length (wb_data b)), wf_fromBufMeta = False, wf_groupId = None :: nat option\<rparr>"
    have f: "sendable w s credit f" "wf_offset f = wb_offset b" using 2 b by (auto simp: sendable_def f_def)
    obtain wr fs pb1 k where r: "write_loss_loop s bs True (writeStreamFrameData (wb_data b) n pb') = Inr (wr, pb1)"
      "pb_frames pb1 = pb_frames pb' @ fs" "list_all (sendable w s credit) fs" "map wf_offset fs = take k (map wb_offset bs)"
      using Cons.IH [of True "writeStreamFrameData (wb_data b) n pb'"] Cons.prems by auto
    show ?thesis
      by (intro exI [of _ wr] exI [of _ "f # fs"] exI [of _ pb1] exI [of _ "Suc k"])
        (use 2 r f in \<open>simp add: g f_def [symmetric]\<close>)
  qed
qed

text \<open>The frame with new data, when there is something to write.\<close>

lemma new_data_frame:
  assumes ok: "stream_ok w s" "stream_id s < 2 ^ 62" and w: "hasWritableData s = Inr True"
  shows "\<exists>r n pb' fs. writeStreamFrame s credit pb = Inr (r, n, pb') \<and> pb_frames pb' = pb_frames pb @ fs \<and>
    list_all (sendable w s credit) fs \<and> (fs = [] \<or> map wf_offset fs = [currentWriteOffset s])"
proof (cases "pb_remaining pb = 0")
  case True
  then show ?thesis
    by (intro exI [of _ False] exI [of _ credit] exI [of _ pb] exI [of _ "[]"]) (simp add: writeStreamFrame_def)
next
  case False
  define flow where "flow = min (getSendStreamFlowControlBytesWire s) credit"
  define fin where "fin = (finalWriteOffset s \<noteq> None \<and> length (pendingWrites s) \<le> flow)"
  have at: "currentWriteOffset s < length w \<or> currentWriteOffset s = length w \<and> finalWriteOffset s \<noteq> None"
    using w stream_ok_writable(1) [OF ok(1)] by auto
  have pend: "length (pendingWrites s) = length w - currentWriteOffset s" "length w < 2 ^ 61" "bm_offset (writeBufMeta s) = 0" "groupId s = None"
    "currentWriteOffset s \<le> sf_peerAdvertisedMaxOffset (flowControlState s)" "sf_peerAdvertisedMaxOffset (flowControlState s) < 2 ^ 64"
    using ok(1) at by (auto simp: stream_ok_def)
  have sc: "flow \<le> sf_peerAdvertisedMaxOffset (flowControlState s) - currentWriteOffset s" "flow \<le> credit"
    using pend sub64_eq [OF pend(5,6)] by (simp_all add: flow_def getSendStreamFlowControlBytesWire_def nextOffsetToWrite_def)
  have sizes: "currentWriteOffset s < 2 ^ 62" "length (pendingWrites s) < 2 ^ 61" "0 < length (pendingWrites s) \<or> fin"
    using pend at by (auto simp: fin_def)
  have run: "writeStreamFrame s credit pb =
      bind_result (writeStreamFrameHeader (stream_id s) (currentWriteOffset s) (length (pendingWrites s)) flow fin None None True pb)
       (\<lambda>(r, pb1). case r of None \<Rightarrow> Inr (False, credit, pb1)
         | Some dataLen \<Rightarrow> Inr (True, sub64 credit dataLen, writeStreamFrameData (pendingWrites s) dataLen pb1))"
    using False w pend by (simp add: writeStreamFrame_def flow_def fin_def Let_def)
  let ?run = "writeStreamFrameHeader (stream_id s) (currentWriteOffset s) (length (pendingWrites s)) flow fin None None True pb"
  consider "?run = Inr (None, pb)"
    | n pb' where "?run = Inr (Some n, pb')" "n \<le> min (length (pendingWrites s)) flow" "0 < n \<or> fin \<and> n = length (pendingWrites s)"
      "pb_frames pb' = pb_frames pb @ [\<lparr>wf_streamId = stream_id s, wf_offset = currentWriteOffset s, wf_len = n,
        wf_fin = (fin \<and> n = length (pendingWrites s)), wf_fromBufMeta = False, wf_groupId = None\<rparr>]"
    by (rule header_frame [OF ok(2) sizes])
  then show ?thesis
  proof cases
    case 1
    then show ?thesis
      unfolding run by (intro exI [of _ False] exI [of _ credit] exI [of _ pb] exI [of _ "[]"]) simp
  next
    case (2 n pb')
    define f where "f = \<lparr>wf_streamId = stream_id s, wf_offset = currentWriteOffset s, wf_len = n,
        wf_fin = (fin \<and> n = length (pendingWrites s)), wf_fromBufMeta = False, wf_groupId = None :: nat option\<rparr>"
    have "currentWriteOffset s + n \<le> length w" "currentWriteOffset s + n \<le> sf_peerAdvertisedMaxOffset (flowControlState s)" "n \<le> credit"
      using 2(2) sc pend at by auto
    moreover have "n = length (pendingWrites s) \<Longrightarrow> currentWriteOffset s + n = length w" using pend at by auto
    ultimately have "sendable w s credit f" using 2(3) by (auto simp: sendable_def f_def fin_def)
    then show ?thesis
      unfolding run
      by (intro exI [of _ True] exI [of _ "sub64 credit n"] exI [of _ "writeStreamFrameData (pendingWrites s) n pb'"] exI [of _ "[f]"])
        (use 2 in \<open>simp add: f_def\<close>)
  qed
qed

lemma single_stream_frames:
  assumes ok: "stream_ok w s" "stream_id s < 2 ^ 62"
  shows "\<exists>r n pb' fs. writeSingleStream s credit pb = Inr (r, n, pb') \<and> pb_frames pb' = pb_frames pb @ fs \<and>
    list_all (sendable w s credit) fs \<and> distinct (map wf_offset fs)"
proof -
  obtain wr fs pb1 k where loss: "(if lossBuffer s \<noteq> [] then writeStreamLossBuffers s pb else Inr (True, pb)) = Inr (wr, pb1)"
    "pb_frames pb1 = pb_frames pb @ fs" "list_all (sendable w s credit) fs" "map wf_offset fs = take k (map wb_offset (lossBuffer s))"
  proof (cases "lossBuffer s = []")
    case True
    then show ?thesis by (intro that [of True pb "[]" 0]) simp_all
  next
    case False
    show ?thesis
      using loss_loop_frames [OF ok subset_refl, of False pb credit] that False unfolding writeStreamLossBuffers_def by auto
  qed
  have "distinct (map wb_offset (lossBuffer s))" using strict_sorted_iff loss_offsets_sorted [OF ok(1)] by blast
  then have dist: "distinct (map wf_offset fs)" unfolding loss(4) by (rule distinct_take)
  have below: "currentWriteOffset s \<notin> wf_offset ` set fs"
  proof
    assume "currentWriteOffset s \<in> wf_offset ` set fs"
    then have "currentWriteOffset s \<in> set (take k (map wb_offset (lossBuffer s)))" using loss(4) by (metis list.set_map)
    then show False using loss_entry_sizes(4) [OF ok(1)] by (fastforce dest: in_set_takeD)
  qed
  obtain wd where w: "hasWritableData s = Inr wd" using stream_ok_writable(1) [OF ok(1)] by blast
  show ?thesis
  proof (cases "wr \<and> wd \<and> 0 < credit")
    case True
    then obtain r n pb' fs' where new: "writeStreamFrame s credit pb1 = Inr (r, n, pb')" "pb_frames pb' = pb_frames pb1 @ fs'"
      "list_all (sendable w s credit) fs'" "fs' = [] \<or> map wf_offset fs' = [currentWriteOffset s]"
      using new_data_frame [OF ok, of credit pb1] w by auto
    have "distinct (map wf_offset (fs @ fs'))" using dist below new(4) by (auto simp: image_iff)
    then show ?thesis
      by (intro exI [of _ r] exI [of _ n] exI [of _ pb'] exI [of _ "fs @ fs'"])
        (use True w loss new in \<open>simp add: writeSingleStream_def\<close>)
  next
    case False
    then show ?thesis
      by (intro exI [of _ wr] exI [of _ credit] exI [of _ pb1] exI [of _ fs])
        (use w loss dist in \<open>auto simp: writeSingleStream_def\<close>)
  qed
qed

section \<open>Sending a frame\<close>

definition conn_ok :: "quic_conn \<Rightarrow> bool" where
  "conn_ok c \<longleftrightarrow> cf_sumCurWriteOffset (qc_flow c) \<le> cf_peerAdvertisedMaxOffset (qc_flow c) \<and>
     cf_peerAdvertisedMaxOffset (qc_flow c) < 2 ^ 64"

text \<open>
  What the connection counts of this stream, above what it counted before: the bytes buffered and the bytes sent.
\<close>

definition counts_ok :: "nat \<times> nat \<Rightarrow> u8 list \<Rightarrow> quic_stream \<Rightarrow> quic_conn \<Rightarrow> bool" where
  "counts_ok a w s c \<longleftrightarrow> cf_sumCurStreamBufferLen (qc_flow c) = fst a + length (pendingWrites s) \<and>
     cf_sumCurWriteOffset (qc_flow c) + length (pendingWrites s) = snd a + length w \<and> fst a + 2 ^ 61 \<le> 2 ^ 64"

lemma counts_ok_cong: "qc_flow c' = qc_flow c \<Longrightarrow> pendingWrites s' = pendingWrites s \<Longrightarrow> counts_ok a w s' c' = counts_ok a w s c"
  by (simp add: counts_ok_def)

lemma conn_ok_credit:
  "conn_ok c \<Longrightarrow> getSendConnFlowControlBytesWire c = cf_peerAdvertisedMaxOffset (qc_flow c) - cf_sumCurWriteOffset (qc_flow c)"
  by (simp add: conn_ok_def getSendConnFlowControlBytesWire_def sub64_eq)

lemma lift_manager_flow: "lift_manager g c = Inr c' \<Longrightarrow> qc_flow c' = qc_flow c"
  by (auto simp: lift_manager_def result_simps)

lemma writable_settles:
  assumes "stream_ok w s" "qc_flow c = fl"
  shows "\<exists>c'. lift_manager (updateWritableStreams s) c = Inr c' \<and> qc_flow c' = fl"
  using lift_writable_returns [OF assms(1), of c] lift_manager_flow [of "updateWritableStreams s" c] assms(2) by auto

lemma socket_write_view: "send_view (fst (maybeWriteBlockAfterSocketWrite s c)) = send_view s" "qc_flow (snd (maybeWriteBlockAfterSocketWrite s c)) = qc_flow c"
  by (simp_all add: maybeWriteBlockAfterSocketWrite_def send_view_def Let_def upd_manager_def)

lemma new_data_sent:
  assumes ok: "stream_ok w s" "outstanding_ok fs s" and f: "sendable w s credit f" "wf_offset f = currentWriteOffset s"
  obtains s1 where "handleNewStreamDataWritten (wf_len f) (wf_fin f) s = Inr s1" "stream_ok w s1" "outstanding_ok (fs @ [f]) s1"
    "lossBuffer s1 = lossBuffer s" "currentWriteOffset s < currentWriteOffset s1" "sendState s1 = sendState s" "stream_id s1 = stream_id s"
    "finalWriteOffset s1 = finalWriteOffset s" "length (pendingWrites s) = length (pendingWrites s1) + wf_len f"
proof -
  let ?o = "currentWriteOffset s"
  have c: "core_ok w (finalWriteOffset s) ?o (retransmissionBuffer s) (lossBuffer s) (is_intervals (ackedIntervals s))"
    and pend: "pendingWrites s = drop ?o w" and len: "length w < 2 ^ 61"
    and fin: "finalWriteOffset s = None \<and> ?o \<le> length w \<or> finalWriteOffset s = Some (length w) \<and> ?o \<le> Suc (length w)"
    using ok(1) by (simp_all add: stream_ok_def)
  have "\<forall>b \<in> set (lossBuffer s). wb_offset b \<noteq> ?o" using loss_entry_sizes(4) [OF ok(1)] by fastforce
  then have n: "0 < wf_len f \<or> wf_fin f" "?o + wf_len f \<le> length w" "?o + wf_len f \<le> sf_peerAdvertisedMaxOffset (flowControlState s)"
    "wf_fin f \<Longrightarrow> finalWriteOffset s \<noteq> None \<and> ?o + wf_len f = length w" "\<not> wf_fromBufMeta f"
    using f by (auto simp: sendable_def)
  define b where "b = \<lparr>wb_data = take (wf_len f) (drop ?o w), wb_offset = ?o, wb_eof = wf_fin f\<rparr>"
  have b: "wb_offset b = ?o" "length (wb_data b) = wf_len f" "wb_eof b = wf_fin f" "seg_end b = ?o + wf_len f + of_bool (wf_fin f)"
    using n(2) by (simp_all add: b_def seg_end_def wb_end_def)
  have "seg_ok w (finalWriteOffset s) b" using n fin by (auto simp: seg_ok_def b wb_end_def b_def seg_end_def)
  note new = core_new [OF c b(1) this]
  define s1 where "s1 = s\<lparr>currentWriteOffset := seg_end b, pendingWrites := drop (seg_end b) w,
    retransmissionBuffer := Mapping.update ?o b (retransmissionBuffer s)\<rparr>"
  have "drop (wf_len f) (drop ?o w) = drop (seg_end b) w" using n(4) by (cases "wf_fin f") (simp_all add: b add.commute)
  moreover have "add64 (add64 ?o (wf_len f)) (if wf_fin f then 1 else 0) = seg_end b"
    using n(2) len by (simp add: add64_eq b)
  ultimately have run: "handleNewStreamDataWritten (wf_len f) (wf_fin f) s = Inr s1"
    using new(1) by (simp add: handleNewStreamDataWritten_def pend s1_def b_def Let_def)
  have "seg_end b \<le> length w \<or> finalWriteOffset s = Some (length w) \<and> seg_end b = Suc (length w)"
    using n fin by (cases "wf_fin f") (auto simp: b)
  moreover have "min (seg_end b) (length w) \<le> sf_peerAdvertisedMaxOffset (flowControlState s)" using n by (cases "wf_fin f") (auto simp: b)
  ultimately have "stream_ok w s1" using ok(1) new(2) fin unfolding stream_ok_def s1_def by auto
  moreover have "outstanding_ok (fs @ [f]) s1"
    using ok(2) new(1) n(5) f(2) by (auto simp: outstanding_ok_def s1_def b lookup_update')
  ultimately show ?thesis
    by (intro that [OF run]) (use n pend in \<open>auto simp: s1_def b\<close>)
qed

text \<open>The entry at an offset, found from the left.\<close>

lemma loss_entry_found:
  assumes "sorted_wrt (<) (map wb_offset lb)" "x \<in> set lb"
  obtains bf af where "lb = bf @ x # af" "takeWhile (\<lambda>b. wb_offset b < wb_offset x) lb = bf" "dropWhile (\<lambda>b. wb_offset b < wb_offset x) lb = x # af"
proof -
  obtain bf af where lb: "lb = bf @ x # af" using assms(2) by (auto simp: in_set_conv_decomp)
  then have "\<forall>b \<in> set bf. wb_offset b < wb_offset x" using assms(1) by (auto simp: sorted_wrt_append)
  then show ?thesis by (intro that [OF lb]) (simp_all add: lb)
qed

lemma lost_data_sent:
  assumes ok: "stream_ok w s" "outstanding_ok fs s" and f: "sendable w s credit f" "wf_offset f \<noteq> currentWriteOffset s"
  obtains s1 bf x af where "lossBuffer s = bf @ x # af" "wb_offset x = wf_offset f"
    "takeWhile (\<lambda>b. wb_offset b < wf_offset f) (lossBuffer s) = bf" "dropWhile (\<lambda>b. wb_offset b < wf_offset f) (lossBuffer s) = x # af"
    "handleRetransmissionWritten (wf_offset f) (wf_len f) (wf_fin f) bf x af s = Inr s1" "stream_ok w s1" "outstanding_ok (fs @ [f]) s1"
    "set bf \<union> set af \<subseteq> set (lossBuffer s1)" "send_view s1 = send_view (s\<lparr>lossBuffer := lossBuffer s1, retransmissionBuffer := retransmissionBuffer s1\<rparr>)"
proof -
  obtain x where x: "x \<in> set (lossBuffer s)" "wb_offset x = wf_offset f" "wf_len f \<le> length (wb_data x)"
      "wf_fin f = (wb_eof x \<and> wf_len f = length (wb_data x))" and n: "0 < wf_len f \<or> wf_fin f" "\<not> wf_fromBufMeta f"
    using f by (auto simp: sendable_def)
  obtain bf af where lb: "lossBuffer s = bf @ x # af" "takeWhile (\<lambda>b. wb_offset b < wb_offset x) (lossBuffer s) = bf"
      "dropWhile (\<lambda>b. wb_offset b < wb_offset x) (lossBuffer s) = x # af"
    by (rule loss_entry_found [OF loss_offsets_sorted [OF ok(1)] x(1)])
  have c: "core_ok w (finalWriteOffset s) (currentWriteOffset s) (retransmissionBuffer s) (bf @ x # af) (is_intervals (ackedIntervals s))"
    using ok(1) by (simp add: stream_ok_def lb)
  have k: "wf_offset f \<notin> Mapping.keys (retransmissionBuffer s)" using core_lost_not_in_flight [OF c, of x] x(2) by simp
  define b where "b = \<lparr>wb_data = take (wf_len f) (wb_data x), wb_offset = wf_offset f, wb_eof = wf_fin f\<rparr>"
  define lb' where "lb' = (if wf_len f = length (wb_data x) then bf @ af
    else bf @ x\<lparr>wb_offset := wb_offset x + wf_len f, wb_data := drop (wf_len f) (wb_data x)\<rparr> # af)"
  define s1 where "s1 = s\<lparr>lossBuffer := lb', retransmissionBuffer := Mapping.update (wf_offset f) b (retransmissionBuffer s)\<rparr>"
  have core: "core_ok w (finalWriteOffset s) (currentWriteOffset s) (Mapping.update (wf_offset f) b (retransmissionBuffer s)) lb' (is_intervals (ackedIntervals s))"
  proof (cases "wf_len f = length (wb_data x)")
    case True
    then have "b = x" using x by (cases x) (simp add: b_def)
    then show ?thesis using core_retransmit [OF c] True x(2) by (simp add: lb'_def)
  next
    case False
    then have "0 < wf_len f" "wf_len f < length (wb_data x)" "\<not> wf_fin f" using x n by auto
    then show ?thesis using core_retransmit_part [OF c, of "wf_len f" b] False x(2) by (simp add: lb'_def b_def)
  qed
  have "handleRetransmissionWritten (wf_offset f) (wf_len f) (wf_fin f) bf x af s = Inr s1"
    using k x by (auto simp: handleRetransmissionWritten_def s1_def lb'_def b_def)
  moreover have "stream_ok w s1" using ok(1) core by (simp add: stream_ok_def s1_def)
  moreover have "outstanding_ok (fs @ [f]) s1"
    using ok(2) k n(2) x(3) by (auto simp: outstanding_ok_def s1_def b_def lookup_update')
  ultimately show ?thesis
    using lb x(2) by (intro that [of bf x af s1]) (auto simp: s1_def lb'_def send_view_def)
qed

lemma credit_charged:
  assumes "conn_ok c" "n \<le> getSendConnFlowControlBytesWire c"
  obtains c1 where "updateFlowControlOnWriteToSocket n c = Inr c1" "conn_ok c1"
    "\<And>s s1 a. counts_ok a w s c \<Longrightarrow> length (pendingWrites s) = length (pendingWrites s1) + n \<Longrightarrow>
      length (pendingWrites s) \<le> length w \<Longrightarrow> length w < 2 ^ 61 \<Longrightarrow> counts_ok a w s1 c1"
proof -
  have "cf_sumCurWriteOffset (qc_flow c) + n \<le> cf_peerAdvertisedMaxOffset (qc_flow c)"
    using assms conn_ok_credit [OF assms(1)] by (auto simp: conn_ok_def)
  moreover define c1 where "c1 = upd_flow (\<lambda>f. f\<lparr>cf_sumCurWriteOffset := cf_sumCurWriteOffset f + n, cf_sumCurStreamBufferLen := sub64 (cf_sumCurStreamBufferLen f) n\<rparr>) c"
  ultimately have "updateFlowControlOnWriteToSocket n c = Inr c1" "conn_ok c1"
    using assms(1) by (auto simp: updateFlowControlOnWriteToSocket_def incrementWithOverFlowCheck_def conn_ok_def add64_eq upd_flow_def)
  moreover have "counts_ok a w s1 c1"
    if "counts_ok a w s c" "length (pendingWrites s) = length (pendingWrites s1) + n" "length (pendingWrites s) \<le> length w" "length w < 2 ^ 61" for a s s1
    using that by (auto simp: counts_ok_def c1_def upd_flow_def sub64_eq)
  ultimately show ?thesis by (rule that)
qed

lemma conn_ok_cong: "qc_flow c' = qc_flow c \<Longrightarrow> conn_ok c' = conn_ok c"
    "qc_flow c' = qc_flow c \<Longrightarrow> getSendConnFlowControlBytesWire c' = getSendConnFlowControlBytesWire c"
  by (simp_all add: conn_ok_def getSendConnFlowControlBytesWire_def)

lemma sendable_loss_kept:
  assumes "stream_ok w s" "sendable w s credit g" "wf_offset g \<noteq> currentWriteOffset s" "lossBuffer s' = lossBuffer s"
  shows "sendable w s' credit' g"
  using assms by (auto simp: sendable_def)

lemma frame_sent:
  assumes ok: "stream_ok w s" "outstanding_ok fs s" "conn_ok c" and f: "sendable w s (getSendConnFlowControlBytesWire c) f"
  obtains s' c' where "updateConnectionStreamFrame f s c = Inr (s', c')" "stream_ok w s'" "outstanding_ok (fs @ [f]) s'" "conn_ok c'"
    "sendState s' = sendState s" "stream_id s' = stream_id s" "counts_ok a w s c \<Longrightarrow> counts_ok a w s' c'"
    "\<And>g. sendable w s (getSendConnFlowControlBytesWire c) g \<Longrightarrow> wf_offset g \<noteq> wf_offset f \<Longrightarrow> sendable w s' (getSendConnFlowControlBytesWire c') g"
proof (cases "wf_offset f = currentWriteOffset s")
  case True
  note st = new_data_sent [OF ok(1,2) f True]
  obtain s1 where s1: "handleNewStreamDataWritten (wf_len f) (wf_fin f) s = Inr s1" "stream_ok w s1" "outstanding_ok (fs @ [f]) s1"
    "lossBuffer s1 = lossBuffer s" "currentWriteOffset s < currentWriteOffset s1" "sendState s1 = sendState s" "stream_id s1 = stream_id s"
    "length (pendingWrites s) = length (pendingWrites s1) + wf_len f" by (rule st)
  define s2 where "s2 = s1\<lparr>numPacketsTxWithNewData := Suc (numPacketsTxWithNewData s1)\<rparr>"
  have "\<forall>b \<in> set (lossBuffer s). wb_offset b \<noteq> currentWriteOffset s" using loss_entry_sizes(4) [OF ok(1)] by fastforce
  then have "wf_len f \<le> getSendConnFlowControlBytesWire c" using f True by (auto simp: sendable_def)
  then obtain c1 where c1: "updateFlowControlOnWriteToSocket (wf_len f) c = Inr c1" "conn_ok c1"
    and charged: "\<And>s s1 a. counts_ok a w s c \<Longrightarrow> length (pendingWrites s) = length (pendingWrites s1) + wf_len f \<Longrightarrow>
      length (pendingWrites s) \<le> length w \<Longrightarrow> length w < 2 ^ 61 \<Longrightarrow> counts_ok a w s1 c1" by (rule credit_charged [OF ok(3), where w = w]) blast
  obtain s3 c3 where m: "maybeWriteBlockAfterSocketWrite s2 c1 = (s3, c3)" by fastforce
  have "send_view s3 = send_view s2" using socket_write_view(1) [of s2 c1] m by simp
  then have v: "send_view s3 = send_view s1" by (simp add: s2_def send_view_def)
  note same = send_view_cong [OF v]
  define c4 where "c4 = upd_manager (addTx (stream_id s)) (maybeWriteDataBlockedAfterSocketWrite c3)"
  have c4: "qc_flow c4 = qc_flow c1"
    using socket_write_view(2) [of s2 c1] m by (simp add: c4_def upd_manager_def maybeWriteDataBlockedAfterSocketWrite_def)
  have "stream_ok w s3" using s1(2) same by simp
  then obtain c5 where c5: "lift_manager (updateWritableStreams s3) c4 = Inr c5" "qc_flow c5 = qc_flow c1" using writable_settles c4 by blast
  show ?thesis
  proof (rule that [of s3 c5])
    show "updateConnectionStreamFrame f s c = Inr (s3, c5)"
      using f True s1(1) c1(1) m c5(1)
      by (simp add: updateConnectionStreamFrame_def sendable_def handleStreamWritten_def s2_def c4_def)
    show "sendable w s3 (getSendConnFlowControlBytesWire c5) g"
      if "sendable w s (getSendConnFlowControlBytesWire c) g" "wf_offset g \<noteq> wf_offset f" for g
      using sendable_loss_kept [OF ok(1) that(1)] that(2) True v s1(4) by (simp add: send_view_def)
    have p: "pendingWrites s3 = pendingWrites s1" using v by (simp add: send_view_def)
    show "counts_ok a w s3 c5" if "counts_ok a w s c"
      using charged [OF that s1(8)] ok(1) counts_ok_cong [OF c5(2) p] by (simp add: stream_ok_def)
  qed (use s1 same v c1(2) conn_ok_cong(1) [OF c5(2)] in \<open>simp_all add: send_view_def\<close>)
next
  case False
  obtain s1 bf x af where lb: "lossBuffer s = bf @ x # af" "wb_offset x = wf_offset f"
      "takeWhile (\<lambda>b. wb_offset b < wf_offset f) (lossBuffer s) = bf" "dropWhile (\<lambda>b. wb_offset b < wf_offset f) (lossBuffer s) = x # af"
    and s1: "handleRetransmissionWritten (wf_offset f) (wf_len f) (wf_fin f) bf x af s = Inr s1" "stream_ok w s1" "outstanding_ok (fs @ [f]) s1"
      "set bf \<union> set af \<subseteq> set (lossBuffer s1)"
    and v: "send_view s1 = send_view (s\<lparr>lossBuffer := lossBuffer s1, retransmissionBuffer := retransmissionBuffer s1\<rparr>)"
    by (rule lost_data_sent [OF ok(1,2) f False])
  have "wf_offset f < currentWriteOffset s" using loss_entry_sizes(4) [OF ok(1), of x] lb by simp
  define c1 where "c1 = c\<lparr>qc_totalBytesRetransmitted := qc_totalBytesRetransmitted c + wf_len f\<rparr>"
  obtain c2 where c2: "lift_manager (updateWritableStreams s1) c1 = Inr c2" "qc_flow c2 = qc_flow c"
    using writable_settles [OF s1(2), of c1 "qc_flow c"] by (auto simp: c1_def)
  show ?thesis
  proof (rule that [of s1 c2])
    show "updateConnectionStreamFrame f s c = Inr (s1, c2)"
      using f False lb s1(1) c2(1) \<open>wf_offset f < currentWriteOffset s\<close>
      by (simp add: updateConnectionStreamFrame_def sendable_def handleStreamWritten_def c1_def [symmetric])
    show "sendable w s1 (getSendConnFlowControlBytesWire c2) g"
      if g: "sendable w s (getSendConnFlowControlBytesWire c) g" "wf_offset g \<noteq> wf_offset f" for g
    proof -
      have "b \<in> set (lossBuffer s1)" if "b \<in> set (lossBuffer s)" "wb_offset b = wf_offset g" for b
        using that g(2) lb s1(4) by auto
      then show ?thesis using g v conn_ok_cong(2) [OF c2(2)] by (auto simp: sendable_def send_view_def)
    qed
    have p: "pendingWrites s1 = pendingWrites s" using v by (simp add: send_view_def)
    show "counts_ok a w s1 c2" if "counts_ok a w s c" using that counts_ok_cong [OF c2(2) p] by simp
  qed (use s1 v ok(3) conn_ok_cong(1) [OF c2(2)] in \<open>simp_all add: send_view_def\<close>)
qed

section \<open>Events\<close>

text \<open>
  The application writes (a closed stream refuses it), a packet with some space goes out, an
  outstanding frame is acknowledged or declared lost, a window update arrives.
\<close>

datatype send_event = Stream_write "u8 list" bool | Send_packet u32 | Frame_acked nat | Frame_lost nat | Stream_window nat | Conn_window nat

definition frames_written :: "quic_stream \<times> quic_conn \<Rightarrow> write_stream_frame list \<Rightarrow> stream_error + quic_stream \<times> quic_conn" where
  "frames_written = run_events (\<lambda>(s, c) f. updateConnectionStreamFrame f s c)"

definition without :: "nat \<Rightarrow> 'a list \<Rightarrow> 'a list" where
  "without i xs = take i xs @ drop (Suc i) xs"

fun send_step :: "u8 list \<times> write_stream_frame list \<times> quic_stream \<times> quic_conn \<Rightarrow> send_event \<Rightarrow>
    stream_error + u8 list \<times> write_stream_frame list \<times> quic_stream \<times> quic_conn" where
  "send_step (w, fs, s, c) (Stream_write data eof) =
     (if stream_writable s then bind_result (writeDataToQuicStream data eof s c) (\<lambda>(s1, c1). Inr (w @ data, fs, s1, c1))
      else Inr (w, fs, s, c))"
| "send_step (w, fs, s, c) (Send_packet space) =
     bind_result (writeSingleStream s (getSendConnFlowControlBytesWire c) \<lparr>pb_remaining = space, pb_body = [], pb_frames = []\<rparr>) (\<lambda>(_, _, pb).
     bind_result (frames_written (s, c) (pb_frames pb)) (\<lambda>(s1, c1). Inr (w, fs @ pb_frames pb, s1, c1)))"
| "send_step (w, fs, s, c) (Frame_acked i) =
     (if i < length fs then bind_result (sendAckSMHandler (fs ! i) s c) (\<lambda>(s1, c1). Inr (w, without i fs, s1, c1))
      else Inr (w, fs, s, c))"
| "send_step (w, fs, s, c) (Frame_lost i) =
     (if i < length fs then bind_result (markStreamFrameLost False False (fs ! i) s c) (\<lambda>(s1, c1). Inr (w, without i fs, s1, c1))
      else Inr (w, fs, s, c))"
| "send_step (w, fs, s, c) (Stream_window n) = bind_result (handleStreamWindowUpdate n s c) (\<lambda>(s1, c1). Inr (w, fs, s1, c1))"
| "send_step (w, fs, s, c) (Conn_window n) = Inr (w, fs, s, handleConnWindowUpdate n c)"

fun send_event_ok :: "send_event \<Rightarrow> bool" where
  "send_event_ok (Stream_window n) \<longleftrightarrow> n < 2 ^ 62"
| "send_event_ok (Conn_window n) \<longleftrightarrow> n < 2 ^ 62"
| "send_event_ok _ \<longleftrightarrow> True"

fun app_bytes :: "send_event \<Rightarrow> nat" where
  "app_bytes (Stream_write data _) = length data"
| "app_bytes _ = 0"

definition all_acked :: "u8 list \<Rightarrow> quic_stream \<Rightarrow> bool" where
  "all_acked w s \<longleftrightarrow> finalWriteOffset s = Some (length w) \<and> currentWriteOffset s = Suc (length w) \<and>
     Mapping.keys (retransmissionBuffer s) = {} \<and> lossBuffer s = []"

definition delivery_ok :: "nat \<times> nat \<Rightarrow> u8 list \<times> write_stream_frame list \<times> quic_stream \<times> quic_conn \<Rightarrow> bool" where
  "delivery_ok a = (\<lambda>(w, fs, s, c). stream_ok w s \<and> outstanding_ok fs s \<and> conn_ok c \<and> counts_ok a w s c \<and> stream_id s < 2 ^ 62 \<and>
     (sendState s = Send_Open \<or> sendState s = Send_Closed \<and> all_acked w s))"

lemma frames_written_ok:
  assumes "list_all (sendable w s (getSendConnFlowControlBytesWire c)) gs" "distinct (map wf_offset gs)"
    and "stream_ok w s" "outstanding_ok fs s" "conn_ok c" "counts_ok a w s c"
  shows "\<exists>s' c'. frames_written (s, c) gs = Inr (s', c') \<and> stream_ok w s' \<and> outstanding_ok (fs @ gs) s' \<and> conn_ok c' \<and> counts_ok a w s' c' \<and>
    sendState s' = sendState s \<and> stream_id s' = stream_id s"
  using assms unfolding frames_written_def
proof (induction gs arbitrary: fs s c)
  case (Cons g gs)
  have g: "sendable w s (getSendConnFlowControlBytesWire c) g" using Cons.prems(1) by simp
  obtain s1 c1 where 1: "updateConnectionStreamFrame g s c = Inr (s1, c1)" "stream_ok w s1" "outstanding_ok (fs @ [g]) s1" "conn_ok c1"
    "counts_ok a w s c \<Longrightarrow> counts_ok a w s1 c1" "sendState s1 = sendState s" "stream_id s1 = stream_id s"
    and rest: "\<And>h. sendable w s (getSendConnFlowControlBytesWire c) h \<Longrightarrow> wf_offset h \<noteq> wf_offset g \<Longrightarrow> sendable w s1 (getSendConnFlowControlBytesWire c1) h"
    by (rule frame_sent [OF Cons.prems(3-5) g]) blast
  have "list_all (sendable w s1 (getSendConnFlowControlBytesWire c1)) gs"
    unfolding list_all_iff
  proof
    fix h
    assume h: "h \<in> set gs"
    then have "wf_offset h \<noteq> wf_offset g" using Cons.prems(2) by (auto simp: image_iff)
    then show "sendable w s1 (getSendConnFlowControlBytesWire c1) h" using rest Cons.prems(1) h by (simp add: list_all_iff)
  qed
  from Cons.IH [OF this _ 1(2-4) 1(5) [OF Cons.prems(6)]] Cons.prems(2) 1 show ?case by simp
qed simp

lemma closed_sends_nothing: "stream_ok w s \<Longrightarrow> all_acked w s \<Longrightarrow> \<not> sendable w s credit f"
  by (auto simp: all_acked_def sendable_def)

lemma send_packet_ok:
  assumes "delivery_ok a (w, fs, s, c)"
  shows "completes (\<lambda>(w', st). w' = w \<and> delivery_ok a (w', st)) (send_step (w, fs, s, c) (Send_packet space))"
proof -
  have ok: "stream_ok w s" "outstanding_ok fs s" "conn_ok c" "counts_ok a w s c" "stream_id s < 2 ^ 62" using assms by (simp_all add: delivery_ok_def)
  obtain r n pb where pb: "writeSingleStream s (getSendConnFlowControlBytesWire c) \<lparr>pb_remaining = space, pb_body = [], pb_frames = []\<rparr> = Inr (r, n, pb)"
    "list_all (sendable w s (getSendConnFlowControlBytesWire c)) (pb_frames pb)" "distinct (map wf_offset (pb_frames pb))"
    using single_stream_frames [OF ok(1,5)] by fastforce
  obtain s' c' where sent: "frames_written (s, c) (pb_frames pb) = Inr (s', c')" "stream_ok w s'" "outstanding_ok (fs @ pb_frames pb) s'"
    "conn_ok c'" "counts_ok a w s' c'" "sendState s' = sendState s" "stream_id s' = stream_id s"
    using frames_written_ok [OF pb(2,3) ok(1-4)] by blast
  have "all_acked w s \<Longrightarrow> pb_frames pb = []"
    using closed_sends_nothing [OF ok(1)] pb(2) by (cases "pb_frames pb") auto
  then have "all_acked w s \<Longrightarrow> s' = s" using sent(1) by (simp add: frames_written_def)
  then show ?thesis using assms pb(1) sent by (auto simp: delivery_ok_def)
qed

lemma frame_removed:
  assumes "outstanding_ok fs s" "i < length fs" "retransmissionBuffer s' = Mapping.delete (wf_offset (fs ! i)) (retransmissionBuffer s)"
  shows "outstanding_ok (without i fs) s'"
proof -
  define bf f af where "bf = take i fs" and "f = fs ! i" and "af = drop (Suc i) fs"
  have fs: "fs = bf @ f # af" using id_take_nth_drop [OF assms(2)] by (simp add: bf_def f_def af_def)
  then have d: "distinct (map wf_offset (bf @ f # af))" using assms(1) by (simp add: outstanding_ok_def)
  then have ne: "\<forall>g \<in> set (bf @ af). wf_offset g \<noteq> wf_offset f" by (auto simp: image_iff)
  have "set (bf @ af) \<subseteq> set fs" "wf_offset ` set fs - {wf_offset f} = wf_offset ` set (bf @ af)" using ne unfolding fs by auto
  moreover have "distinct (map wf_offset (bf @ af))" using d by simp
  moreover have "Mapping.lookup (retransmissionBuffer s') (wf_offset g) = Mapping.lookup (retransmissionBuffer s) (wf_offset g)"
    if "g \<in> set (bf @ af)" for g using that ne assms(3) by (simp add: lookup_delete_if f_def)
  moreover have "Mapping.keys (retransmissionBuffer s') = Mapping.keys (retransmissionBuffer s) - {wf_offset f}" using assms(3) by (simp add: f_def)
  moreover have "without i fs = bf @ af" by (simp add: without_def bf_def af_def)
  ultimately show ?thesis using assms(1) unfolding outstanding_ok_def by (metis subsetD)
qed

lemma outstanding_segment:
  assumes "stream_ok w s" "outstanding_ok fs s" "i < length fs"
  obtains b where "Mapping.lookup (retransmissionBuffer s) (wf_offset (fs ! i)) = Some b" "wb_offset b = wf_offset (fs ! i)"
    "wf_len (fs ! i) = length (wb_data b)" "wf_fin (fs ! i) = wb_eof b" "\<not> wf_fromBufMeta (fs ! i)"
    "wb_offset b + length (wb_data b) < 2 ^ 61" "0 < length (wb_data b) \<or> wb_eof b"
proof -
  obtain b where b: "Mapping.lookup (retransmissionBuffer s) (wf_offset (fs ! i)) = Some b"
    "wf_len (fs ! i) = length (wb_data b)" "wf_fin (fs ! i) = wb_eof b" "\<not> wf_fromBufMeta (fs ! i)"
    using assms(2) nth_mem [OF assms(3)] unfolding outstanding_ok_def by blast
  have "core_ok w (finalWriteOffset s) (currentWriteOffset s) (retransmissionBuffer s) (lossBuffer s) (is_intervals (ackedIntervals s))"
    "length w < 2 ^ 61" using assms(1) by (simp_all add: stream_ok_def)
  with core_flightD [OF _ b(1)] have "wb_offset b = wf_offset (fs ! i)" "wb_offset b + length (wb_data b) < 2 ^ 61" "0 < length (wb_data b) \<or> wb_eof b"
    by (fastforce simp: seg_ok_def wb_end_def seg_end_def)+
  with b show ?thesis by (intro that)
qed

text \<open>The interval of an acknowledged frame is its segment.\<close>

lemma acked_interval:
  assumes "iset_inv (is_intervals (ackedIntervals s))" "0 < length (wb_data b) \<or> wb_eof b" "wb_offset b + length (wb_data b) < 2 ^ 61"
  obtains ak where "updateAckedIntervals (wb_offset b) (length (wb_data b)) (wb_eof b) s = Inr (s\<lparr>ackedIntervals := ak\<rparr>)"
    "points (is_intervals ak) = points (is_intervals (ackedIntervals s)) \<union> set (seg b)" "iset_inv (is_intervals ak)"
proof -
  define e where "e = wb_offset b + length (wb_data b) - (if wb_eof b then 0 else 1)"
  define i where "i = \<lparr>iv_start = wb_offset b, iv_end = e\<rparr>"
  have "wb_offset b \<le> e" "Suc e = seg_end b" "e < 2 ^ 61"
    using assms(2,3) by (cases "wb_data b"; auto simp: e_def seg_end_def wb_end_def)+
  then have i: "iv_ok i" "wb_offset b \<le> e" and p: "iv_points i = set (seg b)"
    by (auto simp: i_def iv_ok_def iv_points_def)
  have "newInterval (wb_offset b) e = Inr i" using i by (simp add: newInterval_ok i_def)
  then have "insertRange (wb_offset b) e (ackedIntervals s) = Inr (insertInterval i (ackedIntervals s))"
    using i(2) by (simp add: insertRange_def)
  then have "updateAckedIntervals (wb_offset b) (length (wb_data b)) (wb_eof b) s = Inr (s\<lparr>ackedIntervals := insertInterval i (ackedIntervals s)\<rparr>)"
    using assms(2) by (auto simp: updateAckedIntervals_def e_def)
  then show ?thesis using insertInterval_correct [OF assms(1) i(1)] p by (intro that) auto
qed

lemma all_acked_iff:
  assumes "stream_ok w s" shows "allBytesTillFinAcked s = Inr (all_acked w s)"
proof -
  have "hasSentFIN s \<longleftrightarrow> finalWriteOffset s = Some (length w) \<and> currentWriteOffset s = Suc (length w)"
    using assms by (auto simp: hasSentFIN_def stream_ok_def split: option.split)
  then show ?thesis
    using assms stream_ok_writable(2) [OF assms] by (auto simp: allBytesTillFinAcked_def all_acked_def stream_ok_def)
qed

lemma sendState_irrelevant [simp]:
  "stream_ok w (s\<lparr>sendState := x\<rparr>) = stream_ok w s" "outstanding_ok fs (s\<lparr>sendState := x\<rparr>) = outstanding_ok fs s"
  "all_acked w (s\<lparr>sendState := x\<rparr>) = all_acked w s"
  by (simp_all add: stream_ok_def outstanding_ok_def all_acked_def)

lemma ack_ok:
  assumes ok: "delivery_ok a (w, fs, s, c)" and i: "i < length fs"
  obtains s1 c1 where "sendAckSMHandler (fs ! i) s c = Inr (s1, c1)" "delivery_ok a (w, without i fs, s1, c1)"
    "sendState s1 = (if all_acked w s1 then Send_Closed else Send_Open)"
    "send_view s1 = send_view (s\<lparr>sendState := sendState s1, ackedIntervals := ackedIntervals s1, retransmissionBuffer := retransmissionBuffer s1\<rparr>)"
proof -
  have st: "stream_ok w s" "outstanding_ok fs s" "conn_ok c" using ok by (simp_all add: delivery_ok_def)
  have "Mapping.keys (retransmissionBuffer s) \<noteq> {}" using st(2) i by (auto simp: outstanding_ok_def)
  then have op: "sendState s = Send_Open" using ok by (auto simp: delivery_ok_def all_acked_def)
  obtain b where b: "Mapping.lookup (retransmissionBuffer s) (wf_offset (fs ! i)) = Some b" "wb_offset b = wf_offset (fs ! i)"
    "wf_len (fs ! i) = length (wb_data b)" "wf_fin (fs ! i) = wb_eof b" "\<not> wf_fromBufMeta (fs ! i)"
    "wb_offset b + length (wb_data b) < 2 ^ 61" "0 < length (wb_data b) \<or> wb_eof b"
    by (rule outstanding_segment [OF st(1,2) i])
  have c: "core_ok w (finalWriteOffset s) (currentWriteOffset s) (retransmissionBuffer s) (lossBuffer s) (is_intervals (ackedIntervals s))"
    using st(1) by (simp add: stream_ok_def)
  then have "iset_inv (is_intervals (ackedIntervals s))" by (simp add: core_ok_def)
  then obtain ak where ak: "updateAckedIntervals (wb_offset b) (length (wb_data b)) (wb_eof b) s = Inr (s\<lparr>ackedIntervals := ak\<rparr>)"
    "points (is_intervals ak) = points (is_intervals (ackedIntervals s)) \<union> set (seg b)" "iset_inv (is_intervals ak)"
    by (rule acked_interval [OF _ b(7,6)])
  define s1 where "s1 = s\<lparr>ackedIntervals := ak, retransmissionBuffer := Mapping.delete (wf_offset (fs ! i)) (retransmissionBuffer s)\<rparr>"
  define s2 where "s2 = (if all_acked w s1 then s1\<lparr>sendState := Send_Closed\<rparr> else s1)"
  have "ackBuffer (fs ! i) s = Inr s1" using b ak(1) by (simp add: ackBuffer_def s1_def)
  moreover have ok1: "stream_ok w s1" using st(1) core_ack [OF c b(1) ak(2,3)] by (simp add: stream_ok_def s1_def)
  ultimately have "\<exists>c2. sendAckSMHandler (fs ! i) s c = Inr (s2, c2) \<and> qc_flow c2 = qc_flow c"
    using op all_acked_iff [OF ok1]
    by (cases "all_acked w s1") (simp_all add: sendAckSMHandler_def s2_def closedIfTerminal_def upd_manager_def Let_def)
  then obtain c2 where run: "sendAckSMHandler (fs ! i) s c = Inr (s2, c2)" "qc_flow c2 = qc_flow c" by blast
  have o1: "outstanding_ok (without i fs) s1" by (rule frame_removed [OF st(2) i]) (simp add: s1_def)
  have "stream_ok w s2" "outstanding_ok (without i fs) s2" "all_acked w s2 = all_acked w s1"
    using ok1 o1 by (simp_all add: s2_def)
  then have "delivery_ok a (w, without i fs, s2, c2)"
    using ok op st(3) conn_ok_cong(1) [OF run(2)] counts_ok_cong [OF run(2), of s2 s a w] by (auto simp: delivery_ok_def s2_def s1_def)
  then show ?thesis using op by (intro that [OF run(1)]) (auto simp: s2_def s1_def send_view_def)
qed

lemma loss_ok:
  assumes ok: "delivery_ok a (w, fs, s, c)" and i: "i < length fs"
  obtains s1 c1 where "markStreamFrameLost False False (fs ! i) s c = Inr (s1, c1)" "delivery_ok a (w, without i fs, s1, c1)"
proof -
  have st: "stream_ok w s" "outstanding_ok fs s" "conn_ok c" using ok by (simp_all add: delivery_ok_def)
  have "Mapping.keys (retransmissionBuffer s) \<noteq> {}" using st(2) i by (auto simp: outstanding_ok_def)
  then have op: "sendState s = Send_Open" using ok by (auto simp: delivery_ok_def all_acked_def)
  obtain b where b: "Mapping.lookup (retransmissionBuffer s) (wf_offset (fs ! i)) = Some b" "\<not> wf_fromBufMeta (fs ! i)"
    by (rule outstanding_segment [OF st(1,2) i])
  have c: "core_ok w (finalWriteOffset s) (currentWriteOffset s) (retransmissionBuffer s) (lossBuffer s) (is_intervals (ackedIntervals s))"
    using st(1) by (simp add: stream_ok_def)
  define s1 where "s1 = s\<lparr>lossBuffer := insertIntoLossBuffer b (lossBuffer s),
    retransmissionBuffer := Mapping.delete (wf_offset (fs ! i)) (retransmissionBuffer s), streamLossCount := streamLossCount s + 1\<rparr>"
  have ok1: "stream_ok w s1" using st(1) core_lose [OF c b(1)] by (simp add: stream_ok_def s1_def)
  obtain c1 where c1: "lift_manager (updateWritableStreams s1) c = Inr c1" "qc_flow c1 = qc_flow c" using writable_settles [OF ok1 refl] by blast
  have "\<not> streamRetransmissionDisabled s c" using st(1) by (simp add: streamRetransmissionDisabled_def stream_ok_def)
  then have run: "markStreamFrameLost False False (fs ! i) s c = Inr (s1, c1)"
    using b c1(1) by (simp add: markStreamFrameLost_def s1_def Let_def)
  have "outstanding_ok (without i fs) s1" by (rule frame_removed [OF st(2) i]) (simp add: s1_def)
  then have "delivery_ok a (w, without i fs, s1, c1)"
    using ok op ok1 st(3) conn_ok_cong(1) [OF c1(2)] counts_ok_cong [OF c1(2), of s1 s a w] by (auto simp: delivery_ok_def s1_def)
  then show ?thesis by (rule that [OF run])
qed

lemma write_ok:
  assumes ok: "delivery_ok a (w, fs, s, c)" and wr: "stream_writable s" and len: "length w + length data < 2 ^ 61"
  shows "completes (\<lambda>(s1, c1). delivery_ok a (w @ data, fs, s1, c1)) (writeDataToQuicStream data eof s c)"
proof -
  have st: "stream_ok w s" "outstanding_ok fs s" "conn_ok c" using ok by (simp_all add: delivery_ok_def)
  have fin: "finalWriteOffset s = None" "sendState s = Send_Open" using wr by (simp_all add: stream_writable_def)
  then have o: "currentWriteOffset s \<le> length w" "pendingWrites s = drop (currentWriteOffset s) w" using st(1) by (auto simp: stream_ok_def)
  define s1 where "s1 = s\<lparr>pendingWrites := pendingWrites s @ data, writeBuffer := writeBuffer s @ data\<rparr>"
  define s2 where "s2 = (if eof then s1\<lparr>finalWriteOffset := Some (add64 (currentWriteOffset s1) (length (pendingWrites s1)))\<rparr> else s1)"
  have f: "finalWriteOffset s2 = (if eof then Some (length (w @ data)) else None)"
    using fin o len by (simp add: s2_def s1_def add64_eq)
  have "core_ok (w @ data) (finalWriteOffset s2) (currentWriteOffset s) (retransmissionBuffer s) (lossBuffer s) (is_intervals (ackedIntervals s))"
    by (rule core_append) (use st(1) fin f in \<open>auto simp: stream_ok_def\<close>)
  then have ok2: "stream_ok (w @ data) s2" using st(1) fin f o len by (auto simp: stream_ok_def s2_def s1_def)
  have "outstanding_ok fs s2" using st(2) by (simp add: outstanding_ok_def s2_def s1_def)
  moreover have "sendState s2 = Send_Open" "stream_id s2 < 2 ^ 62" using fin ok by (simp_all add: s2_def s1_def delivery_ok_def)
  ultimately have d: "delivery_ok a (w @ data, fs, s2, c3)" if "conn_ok c3" "counts_ok a (w @ data) s2 c3" for c3
    using ok2 that by (simp add: delivery_ok_def)
  define c1 where "c1 = (if length data > 0 then maybeWriteBlockAfterAPIWrite s c else c)"
  have c1: "qc_flow c1 = qc_flow c" by (simp add: c1_def maybeWriteBlockAfterAPIWrite_def upd_manager_def)
  have k: "counts_ok a w s c" using ok by (simp add: delivery_ok_def)
  then have "cf_sumCurStreamBufferLen (qc_flow c) + length data < 2 ^ 64" using len o by (auto simp: counts_ok_def)
  then have "completes (\<lambda>c2. conn_ok c2 \<and> counts_ok a (w @ data) s2 c2) (updateFlowControlOnWriteToStream (length data) c1)"
    using st(3) c1 k by (auto simp: updateFlowControlOnWriteToStream_def incrementWithOverFlowCheck_def conn_ok_def counts_ok_def upd_flow_def
      add64_eq s2_def s1_def)
  moreover have "completes (\<lambda>(s1, c1). delivery_ok a (w @ data, fs, s1, c1)) (bind_result (lift_manager (updateWritableStreams s2) c2) (\<lambda>c3. Inr (s2, c3)))"
    if "conn_ok c2 \<and> counts_ok a (w @ data) s2 c2" for c2
  proof -
    obtain c3 where c3: "lift_manager (updateWritableStreams s2) c2 = Inr c3" "qc_flow c3 = qc_flow c2" using writable_settles [OF ok2 refl] by blast
    then show ?thesis using that d [of c3] conn_ok_cong(1) [OF c3(2)] counts_ok_cong [OF c3(2) refl] by simp
  qed
  ultimately have "completes (\<lambda>(s1, c1). delivery_ok a (w @ data, fs, s1, c1))
      (bind_result (updateFlowControlOnWriteToStream (length data) c1) (\<lambda>c2. bind_result (lift_manager (updateWritableStreams s2) c2) (\<lambda>c3. Inr (s2, c3))))"
    by (rule completes_bind)
  moreover have "bm_offset (writeBufMeta s) = 0" "\<not> dsrSender s" using st(1) by (simp_all add: stream_ok_def)
  ultimately show ?thesis
    unfolding writeDataToQuicStream_def Let_def s2_def [symmetric] s1_def [symmetric] c1_def [symmetric] by simp
qed

lemma window_ok:
  assumes ok: "delivery_ok a (w, fs, s, c)" and n: "n < 2 ^ 62"
  obtains s1 c1 where "handleStreamWindowUpdate n s c = Inr (s1, c1)" "delivery_ok a (w, fs, s1, c1)"
proof (cases "sf_peerAdvertisedMaxOffset (flowControlState s) \<le> n")
  case True
  have st: "stream_ok w s" "outstanding_ok fs s" "conn_ok c" using ok by (simp_all add: delivery_ok_def)
  define s1 where "s1 = s\<lparr>flowControlState := (flowControlState s)\<lparr>sf_peerAdvertisedMaxOffset := n, sf_pendingBlockedFrame := False\<rparr>\<rparr>"
  define c1 where "c1 = (if n > add64 (add64 (currentWriteOffset s) (length (pendingWrites s))) (bm_length (writeBufMeta s)) then updateFlowControlList s1 c else c)"
  have ok1: "stream_ok w s1" using st(1) True n unfolding stream_ok_def s1_def by auto
  obtain c2 where c2: "lift_manager (updateWritableStreams s1) c1 = Inr c2" "qc_flow c2 = qc_flow c"
    using writable_settles [OF ok1, of c1 "qc_flow c"] by (auto simp: c1_def updateFlowControlList_def upd_manager_def)
  have "handleStreamWindowUpdate n s c = Inr (s1, c2)"
    using True c2(1) unfolding handleStreamWindowUpdate_def Let_def s1_def [symmetric] c1_def [symmetric]
    by (auto simp: lift_manager_def result_simps)
  moreover have "outstanding_ok fs s1" "all_acked w s1 = all_acked w s" "sendState s1 = sendState s" "stream_id s1 = stream_id s"
    "pendingWrites s1 = pendingWrites s" using st(2) by (simp_all add: outstanding_ok_def all_acked_def s1_def)
  ultimately show ?thesis
    using ok ok1 st(3) conn_ok_cong(1) [OF c2(2)] counts_ok_cong [OF c2(2), of s1 s a w] by (intro that) (auto simp: delivery_ok_def)
next
  case False
  then show ?thesis using ok by (intro that [of s c]) (simp_all add: handleStreamWindowUpdate_def)
qed

lemma conn_window_ok: "conn_ok c \<Longrightarrow> n < 2 ^ 62 \<Longrightarrow> conn_ok (handleConnWindowUpdate n c)"
    "counts_ok a w s c \<Longrightarrow> counts_ok a w s (handleConnWindowUpdate n c)"
  by (auto simp: conn_ok_def counts_ok_def handleConnWindowUpdate_def upd_flow_def)

lemma send_step_ok:
  assumes "delivery_ok a (w, st)" "send_event_ok v" "length w + app_bytes v < 2 ^ 61"
  shows "completes (\<lambda>(w', st'). delivery_ok a (w', st') \<and> length w' \<le> length w + app_bytes v) (send_step (w, st) v)"
proof -
  obtain fs s c where st: "st = (fs, s, c)" by (cases st)
  have ok: "delivery_ok a (w, fs, s, c)" using assms(1) st by simp
  show ?thesis
  proof (cases v)
    case (Stream_write data eof)
    show ?thesis
    proof (cases "stream_writable s")
      case True
      have "completes (\<lambda>(s1, c1). delivery_ok a (w @ data, fs, s1, c1)) (writeDataToQuicStream data eof s c)"
        by (rule write_ok [OF ok True]) (use Stream_write assms(3) in simp)
      then have "completes (\<lambda>(w', st'). delivery_ok a (w', st') \<and> length w' \<le> length w + length data)
          (bind_result (writeDataToQuicStream data eof s c) (\<lambda>(s1, c1). Inr (w @ data, fs, s1, c1)))"
        by (rule completes_bind) (simp split: prod.splits)
      then show ?thesis using True Stream_write st by simp
    next
      case False
      then show ?thesis using Stream_write st ok by simp
    qed
  next
    case (Send_packet space)
    show ?thesis unfolding st Send_packet by (rule completes_mono [OF send_packet_ok [OF ok]]) auto
  next
    case (Frame_acked i)
    show ?thesis
    proof (cases "i < length fs")
      case True
      obtain s1 c1 where "sendAckSMHandler (fs ! i) s c = Inr (s1, c1)" "delivery_ok a (w, without i fs, s1, c1)" by (rule ack_ok [OF ok True])
      then show ?thesis using True Frame_acked st by simp
    qed (use Frame_acked st ok in simp)
  next
    case (Frame_lost i)
    show ?thesis
    proof (cases "i < length fs")
      case True
      obtain s1 c1 where "markStreamFrameLost False False (fs ! i) s c = Inr (s1, c1)" "delivery_ok a (w, without i fs, s1, c1)" by (rule loss_ok [OF ok True])
      then show ?thesis using True Frame_lost st by simp
    qed (use Frame_lost st ok in simp)
  next
    case (Stream_window n)
    then have n: "n < 2 ^ 62" using assms(2) by simp
    obtain s1 c1 where "handleStreamWindowUpdate n s c = Inr (s1, c1)" "delivery_ok a (w, fs, s1, c1)" by (rule window_ok [OF ok n])
    then show ?thesis using Stream_window st by simp
  next
    case (Conn_window n)
    then show ?thesis using assms(2) ok conn_window_ok st by (auto simp: delivery_ok_def)
  qed
qed

lemma send_run_ok:
  assumes "delivery_ok a (w, st)" "list_all send_event_ok vs" "length w + sum_list (map app_bytes vs) < 2 ^ 61"
  shows "completes (delivery_ok a) (run_events send_step (w, st) vs)"
  using assms
proof (induction vs arbitrary: w st)
  case (Cons v vs)
  have "completes (\<lambda>(w', st'). delivery_ok a (w', st') \<and> length w' \<le> length w + app_bytes v) (send_step (w, st) v)"
    by (rule send_step_ok) (use Cons.prems in simp_all)
  then show ?case
    unfolding run_events.simps by (rule completes_bind) (use Cons in \<open>auto split: prod.splits\<close>)
qed simp

lemma new_stream_ok:
  assumes "sid < 2 ^ 62" "conn_ok c" "initialPeerOffset c sid < 2 ^ 64" "sendState (newQuicStream sid None c) = Send_Open"
    and "cf_sumCurStreamBufferLen (qc_flow c) + 2 ^ 61 \<le> 2 ^ 64" "a = (cf_sumCurStreamBufferLen (qc_flow c), cf_sumCurWriteOffset (qc_flow c))"
  shows "delivery_ok a ([], [], newQuicStream sid None c, c)"
  using assms
  by (simp add: delivery_ok_def counts_ok_def stream_ok_def outstanding_ok_def core_ok_def newQuicStream_def emptyIntervalSet_def flight_def)

text \<open>What the invariant says of the bytes.\<close>

lemma delivery_bytes:
  assumes "delivery_ok a (w, fs, s, c)"
  shows "flight (retransmissionBuffer s) + lost (lossBuffer s) + mset_set (points (is_intervals (ackedIntervals s))) = mset [0..<currentWriteOffset s]"
    "pendingWrites s = drop (currentWriteOffset s) w"
    "list_all (\<lambda>b. wb_data b = take (length (wb_data b)) (drop (wb_offset b) w)) (lossBuffer s)"
    "list_all (\<lambda>f. \<exists>b. Mapping.lookup (retransmissionBuffer s) (wf_offset f) = Some b \<and> wb_data b = take (wf_len f) (drop (wf_offset f) w)) fs"
    "sendState s = Send_Closed \<Longrightarrow> finalWriteOffset s = Some (length w)"
    "sendState s = Send_Closed \<Longrightarrow> points (is_intervals (ackedIntervals s)) = {..length w}"
    "min (currentWriteOffset s) (length w) \<le> sf_peerAdvertisedMaxOffset (flowControlState s)"
    "cf_sumCurWriteOffset (qc_flow c) \<le> cf_peerAdvertisedMaxOffset (qc_flow c)"
    "cf_sumCurStreamBufferLen (qc_flow c) = fst a + length (pendingWrites s)"
    "cf_sumCurWriteOffset (qc_flow c) = snd a + min (currentWriteOffset s) (length w)"
proof -
  have c: "core_ok w (finalWriteOffset s) (currentWriteOffset s) (retransmissionBuffer s) (lossBuffer s) (is_intervals (ackedIntervals s))"
    and o: "outstanding_ok fs s" and p: "pendingWrites s = drop (currentWriteOffset s) w"
    using assms by (simp_all add: delivery_ok_def stream_ok_def)
  show eq: "flight (retransmissionBuffer s) + lost (lossBuffer s) + mset_set (points (is_intervals (ackedIntervals s))) = mset [0..<currentWriteOffset s]"
    using c by (simp add: core_ok_def)
  show "pendingWrites s = drop (currentWriteOffset s) w" by (rule p)
  show "list_all (\<lambda>b. wb_data b = take (length (wb_data b)) (drop (wb_offset b) w)) (lossBuffer s)"
    using core_lostD [OF c] by (simp add: list_all_iff seg_ok_def)
  show "list_all (\<lambda>f. \<exists>b. Mapping.lookup (retransmissionBuffer s) (wf_offset f) = Some b \<and> wb_data b = take (wf_len f) (drop (wf_offset f) w)) fs"
    unfolding list_all_iff
  proof
    fix f
    assume "f \<in> set fs"
    then obtain b where b: "Mapping.lookup (retransmissionBuffer s) (wf_offset f) = Some b" "wf_len f = length (wb_data b)"
      using o unfolding outstanding_ok_def by blast
    have "wb_data b = take (length (wb_data b)) (drop (wb_offset b) w)" "wb_offset b = wf_offset f"
      using core_flightD [OF c b(1)] unfolding seg_ok_def by blast+
    with b show "\<exists>b. Mapping.lookup (retransmissionBuffer s) (wf_offset f) = Some b \<and> wb_data b = take (wf_len f) (drop (wf_offset f) w)"
      by metis
  qed
  show "min (currentWriteOffset s) (length w) \<le> sf_peerAdvertisedMaxOffset (flowControlState s)"
    "cf_sumCurWriteOffset (qc_flow c) \<le> cf_peerAdvertisedMaxOffset (qc_flow c)"
    "cf_sumCurStreamBufferLen (qc_flow c) = fst a + length (pendingWrites s)"
    "cf_sumCurWriteOffset (qc_flow c) = snd a + min (currentWriteOffset s) (length w)"
    using assms p by (auto simp: delivery_ok_def stream_ok_def conn_ok_def counts_ok_def)
  assume "sendState s = Send_Closed"
  then have a: "all_acked w s" using assms by (simp add: delivery_ok_def)
  then have "mset_set (points (is_intervals (ackedIntervals s))) = mset [0..<Suc (length w)]"
    using eq by (simp add: all_acked_def flight_def)
  from arg_cong [OF this, of set_mset] show "points (is_intervals (ackedIntervals s)) = {..length w}"
    by (auto simp: points_def iv_points_def)
  show "finalWriteOffset s = Some (length w)" using a by (simp add: all_acked_def)
qed

text \<open>Positions in which the frames of a list of \<open>n\<close> are removed one after the other.\<close>

fun removal_order :: "nat \<Rightarrow> nat list \<Rightarrow> bool" where
  "removal_order 0 [] \<longleftrightarrow> True"
| "removal_order (Suc n) (i # is) \<longleftrightarrow> i \<le> n \<and> removal_order n is"
| "removal_order _ _ \<longleftrightarrow> False"

lemma acks_close:
  assumes "delivery_ok a (w, fs, s, c)" "hasSentFIN s" "lossBuffer s = []" "fs \<noteq> []" "removal_order (length fs) order"
  shows "\<exists>s2 c2. run_events send_step (w, fs, s, c) (map Frame_acked order) = Inr (w, [], s2, c2) \<and> sendState s2 = Send_Closed"
  using assms
proof (induction order arbitrary: fs s c)
  case (Cons i order)
  then have i: "i < length fs" and rest: "removal_order (length (without i fs)) order"
    by (cases fs; auto simp: without_def min_def)+
  obtain s1 c1 where run: "sendAckSMHandler (fs ! i) s c = Inr (s1, c1)" and ok: "delivery_ok a (w, without i fs, s1, c1)"
    and cl: "sendState s1 = (if all_acked w s1 then Send_Closed else Send_Open)"
    and v: "send_view s1 = send_view (s\<lparr>sendState := sendState s1, ackedIntervals := ackedIntervals s1, retransmissionBuffer := retransmissionBuffer s1\<rparr>)"
    by (rule ack_ok [OF Cons.prems(1) i])
  have kept: "hasSentFIN s1" "lossBuffer s1 = []" using v Cons.prems(2,3) by (auto simp: send_view_def hasSentFIN_def split: option.splits)
  show ?case
  proof (cases "without i fs = []")
    case True
    then have "order = []" using rest by (cases order) auto
    moreover have "allBytesTillFinAcked s1 = Inr True"
      using ok True kept unfolding delivery_ok_def outstanding_ok_def stream_ok_def
      by (auto simp: allBytesTillFinAcked_def hasWritableBufMeta_def hasSentFIN_def split: option.splits)
    ultimately show ?thesis using run i True cl all_acked_iff [of w s1] ok by (auto simp: delivery_ok_def)
  next
    case False
    from Cons.IH [OF ok kept False rest] show ?thesis using run i by simp
  qed
next
  case Nil
  then show ?case by (cases fs) simp_all
qed

section \<open>Properties\<close>

text \<open>
  C1. Reliable delivery, from the sender's side. Whatever the application writes, whatever space packets
  have, and in whatever order frames are acknowledged or lost and windows raised: no check fails and no
  exception is thrown, and every unit sent so far, the FIN being the unit after the last byte, is in
  exactly one of three places: in flight, queued as lost, or acknowledged. What is queued or
  in flight are the application's bytes of that range, and what was not sent yet is still pending.
  No more is sent than the limits of stream and connection allow, the connection counts exactly the
  bytes pending and sent (retransmissions are not charged again), and
  the send half closes only when every byte and the FIN are acknowledged.
\<close>

theorem stream_delivers_reliably:
  assumes "list_all send_event_ok vs" "sum_list (map app_bytes vs) < 2 ^ 61" "sid < 2 ^ 62" "conn_ok c"
    and "initialPeerOffset c sid < 2 ^ 64" "sendState (newQuicStream sid None c) = Send_Open" "cf_sumCurStreamBufferLen (qc_flow c) + 2 ^ 61 \<le> 2 ^ 64"
  shows "completes
      (\<lambda>(w, fs, s, c').
        flight (retransmissionBuffer s) + lost (lossBuffer s) + mset_set (points (is_intervals (ackedIntervals s))) = mset [0..<currentWriteOffset s] \<and>
        list_all (\<lambda>b. wb_data b = take (length (wb_data b)) (drop (wb_offset b) w)) (lossBuffer s) \<and>
        list_all (\<lambda>f. \<exists>b. Mapping.lookup (retransmissionBuffer s) (wf_offset f) = Some b \<and> wb_data b = take (wf_len f) (drop (wf_offset f) w)) fs \<and>
        pendingWrites s = drop (currentWriteOffset s) w \<and>
        min (currentWriteOffset s) (length w) \<le> sf_peerAdvertisedMaxOffset (flowControlState s) \<and>
        cf_sumCurWriteOffset (qc_flow c') \<le> cf_peerAdvertisedMaxOffset (qc_flow c') \<and>
        cf_sumCurStreamBufferLen (qc_flow c') = cf_sumCurStreamBufferLen (qc_flow c) + length (pendingWrites s) \<and>
        cf_sumCurWriteOffset (qc_flow c') = cf_sumCurWriteOffset (qc_flow c) + min (currentWriteOffset s) (length w) \<and>
        (sendState s = Send_Closed \<longrightarrow> finalWriteOffset s = Some (length w) \<and> points (is_intervals (ackedIntervals s)) = {..length w}))
      (run_events send_step ([], [], newQuicStream sid None c, c) vs)"
proof -
  let ?a = "(cf_sumCurStreamBufferLen (qc_flow c), cf_sumCurWriteOffset (qc_flow c))"
  have "completes (delivery_ok ?a) (run_events send_step ([], [], newQuicStream sid None c, c) vs)"
    by (rule send_run_ok [OF new_stream_ok]) (use assms in simp_all)
  then show ?thesis
    by (rule completes_mono) (clarify, intro conjI impI; erule delivery_bytes [where a = ?a, unfolded fst_conv snd_conv]; assumption)
qed

text \<open>
  C11. The send half closes: in any state reached where the FIN was sent and nothing is queued as
  lost, acknowledging the outstanding frames one after the other, in whatever order, returns every
  time and closes the send half.
\<close>

theorem acknowledgements_close_stream:
  assumes "list_all send_event_ok vs" "sum_list (map app_bytes vs) < 2 ^ 61" "sid < 2 ^ 62" "conn_ok c"
    and "initialPeerOffset c sid < 2 ^ 64" "sendState (newQuicStream sid None c) = Send_Open" "cf_sumCurStreamBufferLen (qc_flow c) + 2 ^ 61 \<le> 2 ^ 64"
    and run: "run_events send_step ([], [], newQuicStream sid None c, c) vs = Inr (w, fs, s, c')"
    and st: "hasSentFIN s" "lossBuffer s = []" "fs \<noteq> []" "removal_order (length fs) order"
  shows "\<exists>s2 c2. run_events send_step (w, fs, s, c') (map Frame_acked order) = Inr (w, [], s2, c2) \<and> sendState s2 = Send_Closed"
proof -
  let ?a = "(cf_sumCurStreamBufferLen (qc_flow c), cf_sumCurWriteOffset (qc_flow c))"
  have "completes (delivery_ok ?a) (run_events send_step ([], [], newQuicStream sid None c, c) vs)"
    by (rule send_run_ok [OF new_stream_ok]) (use assms in simp_all)
  then have "delivery_ok ?a (w, fs, s, c')" unfolding run by simp
  then show ?thesis by (rule acks_close [OF _ st])
qed

lemma spurious_entry_stays:
  assumes "wb_data x \<noteq> []" "\<not> wb_eof x" "off \<le> wb_offset x" "wb_end x \<le> off + len"
  shows "removeFromLossBuffer off len True (x # rest) = x\<lparr>wb_data := [], wb_offset := wb_end x\<rparr> # rest"
proof -
  have "0 < len" using assms by (cases "wb_data x") (auto simp: wb_end_def)
  then show ?thesis using assms by (auto simp: removeFromLossBuffer_def wb_end_def Let_def)
qed


section \<open>Witnesses\<close>

text \<open>Three bytes and the FIN in one packet, then the same packet lost, sent again and acknowledged.\<close>

lemma no_block: "finalWriteOffset s \<noteq> None \<Longrightarrow> hasSentFIN s \<Longrightarrow> maybeWriteBlockAfterSocketWrite s c = (s, c)"
  by (simp add: maybeWriteBlockAfterSocketWrite_def)

lemmas send_eval = writeDataToQuicStream_def maybeWriteBlockAfterAPIWrite_def newQuicStream_def sampleConn_def
  defaultTransportSettings_def initialWindow_def initialPeerOffset_def stream_writable_def getSendStreamFlowControlBytesWire_def
  nextOffsetToWrite_def isUnidirectionalStream_def isLocalStream_def isServerStream_def isClientStream_def
  updateFlowControlOnWriteToStream_def incrementWithOverFlowCheck_def lift_manager_def updateWritableStreams_def hasWritableData_def
  hasWritableBufMeta_def hasSchedulableData_def hasSchedulableDsr_def upd_flow_def writeSingleStream_def writeStreamFrame_def
  frames_written_def updateConnectionStreamFrame_def handleStreamWritten_def handleNewStreamDataWritten_def writeStreamFrameData_def
  pb_insert_def getSendConnFlowControlBytesWire_def updateFlowControlOnWriteToSocket_def no_block hasSentFIN_def
  maybeWriteDataBlockedAfterSocketWrite_def upd_manager_def pb_appendFrame_def streamType_flags

lemma sample_hypotheses:
  "conn_ok (sampleConn Server defaultTransportSettings)" "initialPeerOffset (sampleConn Server defaultTransportSettings) 1 < 2 ^ 64"
  "sendState (newQuicStream 1 None (sampleConn Server defaultTransportSettings)) = Send_Open"
  "cf_sumCurStreamBufferLen (qc_flow (sampleConn Server defaultTransportSettings)) + 2 ^ 61 \<le> 2 ^ 64"
  by (simp_all add: conn_ok_def send_eval)

theorem stream_delivers_reliably_witness:
  "completes (\<lambda>(w, fs, s, c').
      flight (retransmissionBuffer s) + lost (lossBuffer s) + mset_set (points (is_intervals (ackedIntervals s))) = mset [0..<currentWriteOffset s] \<and>
      pendingWrites s = drop (currentWriteOffset s) w)
    (run_events send_step ([], [], newQuicStream 1 None (sampleConn Server defaultTransportSettings), sampleConn Server defaultTransportSettings)
      [Stream_write [1, 2, 3] True, Send_packet 100, Frame_lost 0, Send_packet 6, Send_packet 100, Frame_acked 1, Frame_acked 0])"
  by (rule completes_mono [OF stream_delivers_reliably [OF _ _ _ sample_hypotheses]]) auto

theorem acknowledgements_close_stream_witness:
  "\<exists>fs s c' s2 c2. run_events send_step ([], [], newQuicStream 1 None (sampleConn Server defaultTransportSettings), sampleConn Server defaultTransportSettings)
      [Stream_write [1, 2, 3] True, Send_packet 100] = Inr ([1, 2, 3], fs, s, c') \<and>
     run_events send_step ([1, 2, 3], fs, s, c') (map Frame_acked [0]) = Inr ([1, 2, 3], [], s2, c2) \<and> sendState s2 = Send_Closed"
proof -
  let ?c = "sampleConn Server defaultTransportSettings"
  have "\<exists>fs s c. run_events send_step ([], [], newQuicStream 1 None ?c, ?c) [Stream_write [1, 2, 3] True, Send_packet 100] = Inr ([1, 2, 3], fs, s, c) \<and>
      hasSentFIN s \<and> lossBuffer s = [] \<and> length fs = 1"
    by (simp add: send_eval header_eval)
  then obtain fs s c' where run: "run_events send_step ([], [], newQuicStream 1 None ?c, ?c) [Stream_write [1, 2, 3] True, Send_packet 100] = Inr ([1, 2, 3], fs, s, c')"
    and st: "hasSentFIN s" "lossBuffer s = []" "length fs = 1" by blast
  have "\<exists>s2 c2. run_events send_step ([1, 2, 3], fs, s, c') (map Frame_acked [0]) = Inr ([1, 2, 3], [], s2, c2) \<and> sendState s2 = Send_Closed"
    by (rule acknowledgements_close_stream [OF _ _ _ sample_hypotheses run st(1,2)]) (use st(3) in auto)
  with run show ?thesis by blast
qed

text \<open>
  The three bytes and the FIN are sent and lost; two of them are sent again in a small packet and lost; then the first
  packet is acknowledged after all.
\<close>

definition spuriousConn :: quic_conn where
  "spuriousConn = sampleConn Server (defaultTransportSettings\<lparr>ts_removeFromLossBufferOnSpurious := True\<rparr>)"

definition firstFrame :: write_stream_frame where
  "firstFrame = \<lparr>wf_streamId = 1, wf_offset = 0, wf_len = 3, wf_fin = True, wf_fromBufMeta = False, wf_groupId = None\<rparr>"


end
