(* ===== verification/Spec2Isabelle.thy ===== *)
theory Spec2Isabelle
  imports Controllers Quic_Codec Manager_Properties Stream_Credit Delivery_Runs
begin

text \<open>
  A verification development for the QUIC and HTTP stack of this repository: proxygen with
  the vendored transport mvfst (\<open>src/proxygen/proxygen/_build/deps/mvfst/quic\<close>, all paths
  below are relative to it unless they start with \<open>proxygen\<close>), to which the repository adds the congestion
  controllers Westwood+ and WestwoodOWD.

  \<^bold>\<open>The program.\<close> A connection owns a stream manager, a flow controller and a congestion
  controller. The application writes to a stream; the scheduler takes streams from the
  priority queue and writes their data as STREAM frames into packets, within what the flow
  controller and the congestion controller allow; sent data wait in the
  retransmission buffer until their frame is acknowledged, or move to the loss buffer
  when it is declared lost. Received frames are reassembled in the read buffer, charged to flow
  control, and read in order; reading returns credit to the peer.

  \<^bold>\<open>The theories.\<close>
  \<^item> \<open>Prelude\<close>: results (a sum, \<open>Inl\<close> is the exception), runs of a step function over events,
    total-correctness predicates on results, 64-bit counters.
  \<^item> \<open>Binary_Float\<close>: the \<open>float\<close> and \<open>double\<close> operations of the controllers as rounding on rationals.
  \<^item> \<open>Congestion_Base\<close>, \<open>Westwood_Plus\<close>, \<open>Westwood_OWD\<close>, \<open>Controllers\<close>: \<open>congestion_control/\<close>, the
    shared functions and events, the controllers \<open>Westwood\<close>, \<open>WestwoodOWD\<close>, \<open>NewReno\<close> and
    \<open>StaticCwndCongestionController\<close>, and the factories. The interface \<open>CongestionController\<close> is the locale
    \<open>congestion_controller\<close>, interpreted for each of them.
  \<^item> \<open>Quic_Codec\<close>: \<open>codec/QuicInteger\<close>, \<open>codec/PacketNumber\<close>.
  \<^item> \<open>Interval_Set\<close>: \<open>common/IntervalSet\<close>, an instance of the locale \<open>range_set\<close>.
  \<^item> \<open>Stream_Reassembly\<close>: the read buffer of \<open>state/QuicStreamFunctions.cpp\<close>.
  \<^item> \<open>Stream_Ids\<close>, \<open>Stream_State\<close>, \<open>Stream_Manager\<close>: identifiers, \<open>state/StreamData.h\<close>,
    \<open>state/QuicStreamManager\<close>; \<open>Manager_Invariant\<close>, \<open>Manager_Runs\<close>, \<open>Manager_Properties\<close> hold what is proved of it.
  \<^item> \<open>Priority_Queue\<close>: \<open>state/QuicPriorityQueue.h\<close>, an instance of the locale \<open>stream_scheduler\<close>.
  \<^item> \<open>Flow_Control\<close>: \<open>flowcontrol/QuicFlowController.cpp\<close>.
  \<^item> \<open>Stream_Functions\<close>: the rest of \<open>state/QuicStreamFunctions.cpp\<close> and the two state machines of
    \<open>state/stream/\<close>; \<open>Stream_Credit\<close> holds the receive-side accounts of flow control over their events.
  \<^item> \<open>Stream_Frames\<close>: STREAM frames in \<open>codec/QuicWriteCodec.cpp\<close>, \<open>codec/Decode.cpp\<close> and the packet builder.
  \<^item> \<open>Stream_Transmit\<close>: one stream through \<open>api/QuicPacketScheduler.cpp\<close>, the bookkeeping of
    \<open>api/QuicTransportFunctions.cpp\<close>, loss and spurious loss; \<open>Stream_Delivery\<close> and \<open>Delivery_Runs\<close> hold reliable delivery over them.

  \<^bold>\<open>The model.\<close> A class is a record of its members, a method a function that returns the updated
  record; an exception is an error value and a failed \<open>CHECK\<close> the value \<open>Stream_check_failure\<close>
  (the process would end). Integers of the codec and of congestion control are words;
  offsets of the stream layer are naturals with the 64-bit wrap-around written out
  (\<open>add64\<close>, \<open>sub64\<close>, \<open>mul64\<close>). Hash maps are mappings and hash sets sets; where the code takes an
  arbitrary element, the choice is an argument. Readings of the clock are arguments. The only
  code outside the repository that is called with a numeric result, \<open>std::exp\<close>, is a parameter of \<open>Westwood_Plus\<close>.

  \<^bold>\<open>Bounds.\<close> No definition uses fuel: every loop is structural or has a termination proof. Theorems
  about offsets assume that they are below \<open>2 ^ 62\<close>, the largest value a frame can carry, or the
  bound stated with them.

  \<^bold>\<open>Not modelled.\<close> The controllers Cubic, BBR, BBR2 and Copa; TLS and the handshake (fizz), packet
  protection, headers and frames other than STREAM; the event loop, sockets, timers and the
  transport classes of \<open>api/\<close>, \<open>client/\<close> and \<open>server/\<close>, which drive the modelled
  functions but are I/O and callbacks; connection migration, DSR packetisation, qlog and observers; of proxygen the
  sessions, codecs, parsers and services; samples, tests, scripts and the build.
\<close>

end
